(* ===== verification/SS_Prelude.thy ===== *)
theory SS_Prelude
  imports Main "HOL-Library.Word"
begin

text \<open>
  The prelude of the development: the machine types of the C sources, the two array
  primitives every component is written with (\<open>bytes_at\<close>, what a read of \<open>n\<close> bytes at an
  offset sees, and \<open>blit\<close>, what \<open>memcpy\<close> into a buffer leaves), reading a C string, and
  the lemmas on lists, words and bits that the component theories share.
\<close>

unbundle bit_operations_syntax

subsection \<open>Machine types\<close>

type_synonym byte = "8 word"
type_synonym u16 = "16 word"
type_synonym u32 = "32 word"
type_synonym u64 = "64 word"

named_theorems buffer_simps \<open>reading back what was written into a buffer\<close>
named_theorems width_simps \<open>lengths of encoded fields and buffers\<close>
named_theorems be_simps \<open>big-endian accessors on what they wrote\<close>

subsection \<open>Buffers\<close>

text \<open>A C array is the list of its bytes; a pointer into it is the list from there on.\<close>

definition bytes_at :: "'a list \<Rightarrow> nat \<Rightarrow> nat \<Rightarrow> 'a list" where
  "bytes_at xs off n = take n (drop off xs)"

text \<open>\<open>memcpy(dst + off, src, n)\<close> with \<open>n = length src\<close>.\<close>

definition blit :: "'a list \<Rightarrow> nat \<Rightarrow> 'a list \<Rightarrow> 'a list" where
  "blit dst off src = take off dst @ src @ drop (off + length src) dst"

text \<open>\<open>memset(p, v, n)\<close> on the first \<open>n\<close> bytes of a buffer.\<close>

definition memset :: "'a list \<Rightarrow> 'a \<Rightarrow> nat \<Rightarrow> 'a list" where
  "memset dst v n = blit dst 0 (replicate n v)"

lemma length_bytes_at [simp]: "length (bytes_at xs off n) = min n (length xs - off)"
  by (simp add: bytes_at_def)

lemma length_blit [simp, width_simps]:
  "off + length src \<le> length dst \<Longrightarrow> length (blit dst off src) = length dst"
  by (simp add: blit_def)

lemma length_memset [simp, width_simps]: "n \<le> length dst \<Longrightarrow> length (memset dst v n) = length dst"
  by (simp add: memset_def)

lemma nth_bytes_at: "i < n \<Longrightarrow> off + i < length xs \<Longrightarrow> bytes_at xs off n ! i = xs ! (off + i)"
  by (simp add: bytes_at_def)

lemma nth_blit:
  assumes "off + length src \<le> length dst" "i < length dst"
  shows "blit dst off src ! i =
    (if off \<le> i \<and> i < off + length src then src ! (i - off) else dst ! i)"
  using assms by (auto simp: blit_def nth_append min_def)

lemma nth_memset:
  "n \<le> length dst \<Longrightarrow> i < length dst \<Longrightarrow> memset dst v n ! i = (if i < n then v else dst ! i)"
  by (simp add: memset_def nth_blit)

lemma bytes_at_blit_same [buffer_simps]:
  "off + length src \<le> length dst \<Longrightarrow> n = length src \<Longrightarrow> bytes_at (blit dst off src) off n = src"
  by (simp add: bytes_at_def blit_def min_def)

lemma bytes_at_blit_before [buffer_simps]:
  "off + length src \<le> length dst \<Longrightarrow> o2 + n \<le> off \<Longrightarrow>
   bytes_at (blit dst off src) o2 n = bytes_at dst o2 n"
  by (rule nth_equalityI) (auto simp: nth_bytes_at nth_blit)

lemma bytes_at_blit_after [buffer_simps]:
  "off + length src \<le> length dst \<Longrightarrow> off + length src \<le> o2 \<Longrightarrow>
   bytes_at (blit dst off src) o2 n = bytes_at dst o2 n"
  by (rule nth_equalityI) (auto simp: nth_bytes_at nth_blit)

lemma bytes_at_append1 [buffer_simps]: "off + n \<le> length xs \<Longrightarrow> bytes_at (xs @ ys) off n = bytes_at xs off n"
  by (simp add: bytes_at_def)

lemma bytes_at_append2 [buffer_simps]:
  "length xs \<le> off \<Longrightarrow> bytes_at (xs @ ys) off n = bytes_at ys (off - length xs) n"
  by (simp add: bytes_at_def)

lemma bytes_at_full [simp]: "length xs \<le> n \<Longrightarrow> bytes_at xs 0 n = xs"
  by (simp add: bytes_at_def)

lemma bytes_at_zero [simp]: "bytes_at xs off 0 = []"
  by (simp add: bytes_at_def)

lemma bytes_at_bytes_at:
  "o2 + n2 \<le> n \<Longrightarrow> bytes_at (bytes_at xs off n) o2 n2 = bytes_at xs (off + o2) n2"
  by (simp add: bytes_at_def take_drop min_def add.commute)

lemma bytes_at_take:
  "off \<le> n \<Longrightarrow> n \<le> length xs \<Longrightarrow> bytes_at xs off (min (n - off) w) = bytes_at (take n xs) off w"
  by (rule nth_equalityI) (auto simp: nth_bytes_at)

lemma blit_append_left:
  "length xs = n \<Longrightarrow> off + length src \<le> n \<Longrightarrow> blit (xs @ ys) off src = blit xs off src @ ys"
  by (simp add: blit_def)

lemma blit_blit_same:
  "off + length src \<le> length dst \<Longrightarrow> length src2 = length src \<Longrightarrow>
   blit (blit dst off src) off src2 = blit dst off src2"
  by (rule nth_equalityI) (auto simp: nth_blit)

lemma blit_bytes_at_id: "off + n \<le> length xs \<Longrightarrow> blit xs off (bytes_at xs off n) = xs"
  by (rule nth_equalityI) (auto simp: nth_blit nth_bytes_at)

lemma bytes_at_eq_cong:
  assumes "length xs = length ys" "\<And>i. off \<le> i \<Longrightarrow> i < off + n \<Longrightarrow> i < length xs \<Longrightarrow> xs ! i = ys ! i"
  shows "bytes_at xs off n = bytes_at ys off n"
  using assms by (intro nth_equalityI) (auto simp: nth_bytes_at)

lemma list_eq_by_windows:
  assumes "length xs = length ys" "0 < w"
    and "\<And>k. k * w < length xs \<Longrightarrow> bytes_at xs (k * w) w = bytes_at ys (k * w) w"
  shows "xs = ys"
proof (rule nth_equalityI)
  show "length xs = length ys" by (rule assms(1))
next
  fix i assume i: "i < length xs"
  let ?k = "i div w"
  have k: "?k * w + i mod w = i" by simp
  have lt: "?k * w < length xs" using i by (metis div_mult_mod_eq le_add1 le_less_trans)
  have m: "i mod w < w" using assms(2) by simp
  have "xs ! i = bytes_at xs (?k * w) w ! (i mod w)" using i m k by (simp add: nth_bytes_at)
  also have "\<dots> = bytes_at ys (?k * w) w ! (i mod w)" using assms(3)[OF lt] by simp
  also have "\<dots> = ys ! i" using i m k assms(1) by (simp add: nth_bytes_at)
  finally show "xs ! i = ys ! i" .
qed

lemma concat_windows: "concat (map (\<lambda>k. bytes_at xs (k * w) w) [0..<m]) = take (m * w) xs"
  by (induction m) (simp_all add: bytes_at_def add.commute[of w] take_add)

subsection \<open>C strings\<close>

text \<open>
  A pointer into NUL-terminated text is the list of the bytes left in its buffer. Reading past
  the last byte the model carries gives the terminating NUL, so a list without a NUL byte stands
  for the string of exactly those bytes.
\<close>

definition peek :: "byte list \<Rightarrow> nat \<Rightarrow> byte" where
  "peek s i = (if i < length s then s ! i else 0)"

definition ascii :: "string \<Rightarrow> byte list" where
  "ascii s = map of_char s"

lemma peek_Nil [simp]: "peek [] i = 0"
  by (simp add: peek_def)

lemma peek_Cons_0 [simp]: "peek (c # s) 0 = c"
  by (simp add: peek_def)

lemma peek_Cons_Suc [simp]: "peek (c # s) (Suc i) = peek s i"
  by (simp add: peek_def)

lemma peek_Cons_numeral [simp]: "peek (c # s) (numeral k) = peek s (pred_numeral k)"
  by (simp add: peek_def numeral_eq_Suc)

lemma peek_append: "peek (s @ t) i = (if i < length s then s ! i else peek t (i - length s))"
  by (auto simp: peek_def nth_append)

lemma length_ascii [simp]: "length (ascii s) = length s"
  by (simp add: ascii_def)

text \<open>\<open>strncmp(s, t, n) == 0\<close>: equal up to \<open>n\<close> characters or a NUL both have.\<close>

fun strn_eq :: "byte list \<Rightarrow> byte list \<Rightarrow> nat \<Rightarrow> bool" where
  "strn_eq s t 0 \<longleftrightarrow> True"
| "strn_eq s t (Suc n) \<longleftrightarrow>
     peek s 0 = peek t 0 \<and> (peek s 0 = 0 \<or> strn_eq (drop 1 s) (drop 1 t) n)"

lemma strn_eq_full: "0 \<notin> set s \<Longrightarrow> strn_eq s t (length s) \<longleftrightarrow> take (length s) t = s"
proof (induction s arbitrary: t)
  case Nil
  then show ?case by simp
next
  case (Cons c s)
  then show ?case by (cases t) auto
qed

subsection \<open>Words\<close>

lemma unat_of_nat_u32: "n < 2 ^ 32 \<Longrightarrow> unat (of_nat n :: u32) = n"
  by (simp add: unat_of_nat take_bit_eq_mod)

lemma unat_u32_lt: "unat (x :: u32) < 2 ^ 32"
  by (rule order_less_le_trans[OF unsigned_less]) simp

lemma unat_byte_lt: "unat (b :: byte) < 256"
  by (rule order_less_le_trans[OF unsigned_less]) simp

lemma unat_add_u32: "unat (x :: u32) + unat y < 2 ^ 32 \<Longrightarrow> unat (x + y) = unat x + unat y"
  by (simp add: unat_word_ariths)

lemma unat_sub_u32: "y \<le> (x :: u32) \<Longrightarrow> unat (x - y) = unat x - unat y"
  by (simp add: unat_sub)

lemma nth_update_at: "j < length xs \<Longrightarrow> xs[i := x] ! j = (if i = j then x else xs ! j)"
  by (simp add: nth_list_update)

end
