(* ===== verification/SS_Wire.thy ===== *)
theory SS_Wire
  imports SS_Prelude
begin

text \<open>
  The leaves of \<open>wii/core/protocol.c\<close>: the big-endian accessors \<open>ss_put_*\<close> / \<open>ss_get_*\<close>,
  the LSB-first chunk bitmaps and \<open>ss_chunk_count\<close>. Every other component reads and writes its
  fields and its sets of chunks through these.
\<close>

definition SS_MAX_PAYLOAD :: nat where "SS_MAX_PAYLOAD = 1024"

subsection \<open>Big-endian accessors\<close>

text \<open>A store through \<open>p\<close> is the bytes it writes there; a load reads from the pointer on.\<close>

definition ss_put_u16 :: "u16 \<Rightarrow> byte list" where
  "ss_put_u16 v = [ucast (drop_bit 8 v), ucast v]"

definition ss_put_u32 :: "u32 \<Rightarrow> byte list" where
  "ss_put_u32 v = [ucast (drop_bit 24 v), ucast (drop_bit 16 v), ucast (drop_bit 8 v), ucast v]"

definition ss_put_u64 :: "u64 \<Rightarrow> byte list" where
  "ss_put_u64 v = ss_put_u32 (ucast (drop_bit 32 v)) @ ss_put_u32 (ucast v)"

definition ss_get_u16 :: "byte list \<Rightarrow> u16" where
  "ss_get_u16 p = push_bit 8 (ucast (p ! 0)) OR ucast (p ! 1)"

definition ss_get_u32 :: "byte list \<Rightarrow> u32" where
  "ss_get_u32 p = push_bit 24 (ucast (p ! 0)) OR push_bit 16 (ucast (p ! 1))
     OR push_bit 8 (ucast (p ! 2)) OR ucast (p ! 3)"

definition ss_get_u64 :: "byte list \<Rightarrow> u64" where
  "ss_get_u64 p = push_bit 32 (ucast (ss_get_u32 p)) OR ucast (ss_get_u32 (drop 4 p))"

lemma length_put [simp, width_simps]:
  "length (ss_put_u16 a) = 2" "length (ss_put_u32 b) = 4" "length (ss_put_u64 c) = 8"
  by (simp_all add: ss_put_u16_def ss_put_u32_def ss_put_u64_def)

lemma get_put_u16: "ss_get_u16 (ss_put_u16 v @ r) = v"
  by (rule bit_word_eqI) (auto simp: ss_get_u16_def ss_put_u16_def bit_simps)

lemma get_put_u32: "ss_get_u32 (ss_put_u32 v @ r) = v"
proof (rule bit_word_eqI)
  fix n assume "n < LENGTH(32)"
  then consider "n < 8" | "8 \<le> n" "n < 16" | "16 \<le> n" "n < 24" | "24 \<le> n" "n < 32"
    by fastforce
  then show "bit (ss_get_u32 (ss_put_u32 v @ r)) n = bit v n"
    by cases (auto simp: ss_get_u32_def ss_put_u32_def bit_simps)
qed

lemma get_put_u64: "ss_get_u64 (ss_put_u64 v @ r) = v"
proof -
  have "drop 4 (ss_put_u64 v @ r) = ss_put_u32 (ucast v) @ r"
    by (simp add: ss_put_u64_def)
  moreover have "ss_get_u32 (ss_put_u64 v @ r) = ucast (drop_bit 32 v)"
    by (simp add: ss_put_u64_def get_put_u32)
  ultimately have "ss_get_u64 (ss_put_u64 v @ r) =
      push_bit 32 (ucast (ucast (drop_bit 32 v) :: u32)) OR ucast (ucast v :: u32)"
    by (simp add: ss_get_u64_def get_put_u32)
  also have "\<dots> = v"
    by (rule bit_word_eqI) (auto simp: bit_simps)
  finally show ?thesis .
qed

text \<open>Loads followed by stores: the bytes the load saw.\<close>

lemma bytes_of_u16:
  fixes a b :: byte
  defines "w \<equiv> push_bit 8 (ucast a) OR ucast b :: u16"
  shows "(ucast (drop_bit 8 w) :: byte) = a" "(ucast w :: byte) = b"
  by (rule bit_word_eqI, simp add: w_def bit_simps, (use bit_imp_le_length[of b] in force)?)+

lemma bytes_of_u32:
  fixes a b c d :: byte
  defines "w \<equiv> push_bit 24 (ucast a) OR push_bit 16 (ucast b) OR push_bit 8 (ucast c) OR ucast d :: u32"
  shows "(ucast (drop_bit 24 w) :: byte) = a" "(ucast (drop_bit 16 w) :: byte) = b"
    "(ucast (drop_bit 8 w) :: byte) = c" "(ucast w :: byte) = d"
  by (rule bit_word_eqI, simp add: w_def bit_simps,
      (use bit_imp_le_length[of b] bit_imp_le_length[of c] bit_imp_le_length[of d] in force)?)+

lemma take_nths:
  "2 \<le> length p \<Longrightarrow> take 2 p = [p ! 0, p ! 1]"
  "4 \<le> length p \<Longrightarrow> take 4 p = [p ! 0, p ! 1, p ! 2, p ! 3]"
  by (rule nth_equalityI; auto simp: less_Suc_eq numeral_eq_Suc)+

lemma put_get_u16: "2 \<le> length p \<Longrightarrow> ss_put_u16 (ss_get_u16 p) = take 2 p"
  by (simp only: ss_get_u16_def ss_put_u16_def bytes_of_u16 take_nths)

lemma put_get_u32: "4 \<le> length p \<Longrightarrow> ss_put_u32 (ss_get_u32 p) = take 4 p"
  by (simp only: ss_get_u32_def ss_put_u32_def bytes_of_u32 take_nths)

lemma put_get_u64: 
  assumes "8 \<le> length p" shows "ss_put_u64 (ss_get_u64 p) = take 8 p"
proof -
  have "(ucast (drop_bit 32 (ss_get_u64 p)) :: u32) = ss_get_u32 p"
    by (rule bit_word_eqI)
      (use bit_imp_le_length[of "ss_get_u32 (drop 4 p)"] in \<open>force simp: ss_get_u64_def bit_simps\<close>)
  moreover have "(ucast (ss_get_u64 p) :: u32) = ss_get_u32 (drop 4 p)"
    by (rule bit_word_eqI) (simp add: ss_get_u64_def bit_simps)
  ultimately have "ss_put_u64 (ss_get_u64 p) = take 4 p @ take 4 (drop 4 p)"
    using assms by (simp add: ss_put_u64_def put_get_u32)
  also have "\<dots> = take 8 p"
    by (simp add: take_add[symmetric])
  finally show ?thesis .
qed


subsection \<open>The codec interface\<close>

text \<open>
  What the header, the fingerprint records and the fingerprint tables rely on: a fixed-width
  store and load that undo each other. The lemma on tables is proved once here, from the laws.
\<close>

locale be_codec =
  fixes put :: "'w \<Rightarrow> byte list" and get :: "byte list \<Rightarrow> 'w" and width :: nat
  assumes put_width: "length (put v) = width"
    and get_put: "get (put v @ r) = v"
    and put_get: "width \<le> length p \<Longrightarrow> put (get p) = take width p"
    and width_pos: "0 < width"
begin

lemma get_put_exact: "get (put v) = v"
  using get_put[of v "[]"] by simp

lemma put_inj: "put v = put w \<longleftrightarrow> v = w"
  by (metis get_put_exact)

lemma get_bytes_at:
  assumes "bytes_at p off width = put v" "off + width \<le> length p"
  shows "get (drop off p) = v"
proof -
  have "drop off p = put v @ drop (off + width) p"
    using assms(1) by (metis append_take_drop_id bytes_at_def drop_drop add.commute)
  then show ?thesis by (simp add: get_put)
qed

lemma length_table: "length (concat (map put vs)) = length vs * width"
  by (induction vs) (simp_all add: put_width)

lemma drop_table:
  "drop (i * width) (concat (map put vs) @ r) = concat (map put (drop i vs)) @ r"
  if "i \<le> length vs"
  using that
proof (induction vs arbitrary: i)
  case Nil
  then show ?case by simp
next
  case (Cons v vs)
  then show ?case
    by (cases i) (simp_all add: put_width add.commute[of width])
qed

lemma get_table:
  assumes "i < length vs"
  shows "get (drop (i * width) (concat (map put vs) @ r)) = vs ! i"
proof -
  have "drop i vs = vs ! i # drop (Suc i) vs"
    using assms by (simp add: Cons_nth_drop_Suc)
  with assms show ?thesis by (simp add: drop_table get_put del: drop_append)
qed

lemma bytes_at_table:
  assumes "i < length vs"
  shows "bytes_at (concat (map put vs)) (i * width) width = put (vs ! i)"
proof -
  have "drop i vs = vs ! i # drop (Suc i) vs"
    using assms by (simp add: Cons_nth_drop_Suc)
  with assms drop_table[of i vs "[]"] show ?thesis by (simp add: bytes_at_def put_width)
qed

lemma table_of_bytes:
  assumes "n * width \<le> length p"
  shows "concat (map (\<lambda>i. put (get (drop (i * width) p))) [0..<n]) = take (n * width) p"
  using assms
proof (induction n)
  case (Suc n)
  then show ?case using put_get[of "drop (n * width) p"] by (simp add: add.commute[of width] take_add)
qed simp

end

interpretation u16: be_codec ss_put_u16 ss_get_u16 2
  by unfold_locales (simp_all add: get_put_u16 put_get_u16)

interpretation u32: be_codec ss_put_u32 ss_get_u32 4
  by unfold_locales (simp_all add: get_put_u32 put_get_u32)

interpretation u64: be_codec ss_put_u64 ss_get_u64 8
  by unfold_locales (simp_all add: get_put_u64 put_get_u64)

subsection \<open>Chunks\<close>

text \<open>\<open>uint32_t\<close> arithmetic, so the sum wraps.\<close>

definition ss_chunk_count :: "u32 \<Rightarrow> u32" where
  "ss_chunk_count total_size = (total_size + of_nat SS_MAX_PAYLOAD - 1) div of_nat SS_MAX_PAYLOAD"

definition ss_bitmap_test :: "byte list \<Rightarrow> u32 \<Rightarrow> u32 \<Rightarrow> bool" where
  "ss_bitmap_test bitmap base index =
     (if index < base then False
      else let offset = unat (index - base)
           in if length bitmap \<le> offset div 8 then False
              else drop_bit (offset mod 8) (bitmap ! (offset div 8)) AND 1 \<noteq> 0)"

definition ss_bitmap_set :: "byte list \<Rightarrow> u32 \<Rightarrow> u32 \<Rightarrow> byte list" where
  "ss_bitmap_set bitmap base index =
     (if index < base then bitmap
      else let offset = unat (index - base)
           in if length bitmap \<le> offset div 8 then bitmap
              else bitmap[offset div 8 := bitmap ! (offset div 8) OR push_bit (offset mod 8) 1])"

text \<open>The set of chunk indices a bitmap denotes, counted from its base.\<close>

definition bitmap_bit :: "byte list \<Rightarrow> nat \<Rightarrow> bool" where
  "bitmap_bit bitmap k \<longleftrightarrow> k div 8 < length bitmap \<and> bit (bitmap ! (k div 8)) (k mod 8)"

definition bitmap_set :: "byte list \<Rightarrow> nat set" where
  "bitmap_set bitmap = {k. bitmap_bit bitmap k}"

lemma ss_bitmap_test_bit:
  "ss_bitmap_test bitmap base index \<longleftrightarrow> base \<le> index \<and> bitmap_bit bitmap (unat (index - base))"
  by (auto simp: ss_bitmap_test_def bitmap_bit_def Let_def bit_iff_odd_drop_bit and_one_eq odd_iff_mod_2_eq_one not_le not_less)

lemma length_ss_bitmap_set [simp, width_simps]: "length (ss_bitmap_set b base i) = length b"
  by (simp add: ss_bitmap_set_def Let_def)

lemma bitmap_bit_update:
  assumes "k div 8 < length b"
  shows "bitmap_bit (b[k div 8 := b ! (k div 8) OR 2 ^ (k mod 8)]) j \<longleftrightarrow>
    j = k \<or> bitmap_bit b j"
proof (cases "j div 8 = k div 8")
  case True
  have "j = k \<longleftrightarrow> j mod 8 = k mod 8" using True by (metis div_mult_mod_eq)
  with True assms show ?thesis by (auto simp: bitmap_bit_def bit_simps)
next
  case False
  then show ?thesis by (auto simp: bitmap_bit_def)
qed

lemma bitmap_bit_set:
  "bitmap_bit (ss_bitmap_set b base i) j \<longleftrightarrow>
   bitmap_bit b j \<or> (base \<le> i \<and> unat (i - base) div 8 < length b \<and> j = unat (i - base))"
  by (auto simp: ss_bitmap_set_def Let_def bitmap_bit_update not_le not_less)

lemma test_set:
  assumes "base \<le> i" "unat (i - base) div 8 < length b"
  shows "ss_bitmap_test (ss_bitmap_set b base i) base j \<longleftrightarrow> j = i \<or> ss_bitmap_test b base j"
proof -
  have "unat (j - base) = unat (i - base) \<longleftrightarrow> j = i"
    by (metis diff_add_cancel word_unat_eq_iff)
  with assms show ?thesis by (auto simp: ss_bitmap_test_bit bitmap_bit_set)
qed

lemma ss_bitmap_set_below: "i < base \<Longrightarrow> ss_bitmap_set b base i = b"
  by (simp add: ss_bitmap_set_def)

lemma ss_bitmap_set_past: "length b \<le> unat (i - base) div 8 \<Longrightarrow> ss_bitmap_set b base i = b"
  by (simp add: ss_bitmap_set_def Let_def)

lemma bitmap_bit_zeros [simp]: "\<not> bitmap_bit (replicate n 0) k"
  by (simp add: bitmap_bit_def)

lemma bitmap_bit_memset0:
  "n \<le> length b \<Longrightarrow> bitmap_bit (memset b 0 n) k \<longleftrightarrow> 8 * n \<le> k \<and> bitmap_bit b k"
  by (auto simp: bitmap_bit_def nth_memset split: if_splits)

lemma bitmap_bit_lt: "bitmap_bit b k \<Longrightarrow> k < 8 * length b"
  by (auto simp: bitmap_bit_def)

text \<open>A loop that sets bits: each step adds the bits \<open>Q x\<close>.\<close>

lemma bitmap_fold:
  assumes "\<And>x b. length b = m \<Longrightarrow> x \<in> set xs \<Longrightarrow>
    length (f x b) = m \<and> (\<forall>j. bitmap_bit (f x b) j \<longleftrightarrow> bitmap_bit b j \<or> Q x j)" "length b = m"
  shows "length (fold f xs b) = m \<and> (\<forall>j. bitmap_bit (fold f xs b) j \<longleftrightarrow> bitmap_bit b j \<or> (\<exists>x \<in> set xs. Q x j))"
  using assms
proof (induction xs arbitrary: b)
  case (Cons x xs)
  have 1: "length (f x b) = m \<and> (\<forall>j. bitmap_bit (f x b) j \<longleftrightarrow> bitmap_bit b j \<or> Q x j)"
    using Cons.prems by simp
  show ?case using Cons.IH[of "f x b"] Cons.prems(1) 1 by auto
qed simp

text \<open>Chunks of a card whose size is far from the top of the address space, as every card is.\<close>

lemma unat_ss_chunk_count:
  assumes "unat n + 1023 < 2 ^ 32"
  shows "unat (ss_chunk_count n) = (unat n + 1023) div 1024"
proof -
  have *: "n + of_nat SS_MAX_PAYLOAD - 1 = n + 1023"
    by (simp add: SS_MAX_PAYLOAD_def)
  have "unat (n + 1023) = unat n + 1023"
    using assms by (subst unat_add_u32) simp_all
  then show ?thesis
    by (simp add: ss_chunk_count_def * unat_div) (simp add: SS_MAX_PAYLOAD_def)
qed

lemma chunk_count_covers:
  assumes "unat n + 1023 < 2 ^ 32"
  shows "k < unat (ss_chunk_count n) \<longleftrightarrow> k * 1024 < unat n"
  unfolding unat_ss_chunk_count[OF assms] Suc_le_eq[symmetric]
  by (subst less_eq_div_iff_mult_less_eq) auto

subsection \<open>Properties\<close>

text \<open>
  After \<open>ss_bitmap_set\<close> of one index, \<open>ss_bitmap_test\<close> answers as before for
  every other index, and yes for that index exactly when the bitmap has room for it; an index below
  the base or past the end changes nothing. No read or write is outside the bitmap.
\<close>

lemma bitmap_test_set:
  "ss_bitmap_test (ss_bitmap_set b base i) base j \<longleftrightarrow>
     ss_bitmap_test b base j \<or> (j = i \<and> base \<le> i \<and> unat (i - base) div 8 < length b)"
  by (cases "base \<le> i \<and> unat (i - base) div 8 < length b")
    (auto simp: test_set ss_bitmap_set_below ss_bitmap_set_past not_le not_less)

text \<open>
  Below the top 1 KiB of the 32-bit range, \<open>ss_chunk_count\<close> is the number of chunks
  whose first byte is inside the card: no chunk of the card is missed and none lies past its end.
\<close>

lemma chunk_count_tight:
  assumes "unat n + 1023 < 2 ^ 32"
  shows "k < unat (ss_chunk_count n) \<longleftrightarrow> k * 1024 < unat n"
  by (rule chunk_count_covers[OF assms])

end
