(* ===== verification/SS_Sha256.thy ===== *)
theory SS_Sha256
  imports SS_Wire
begin

text \<open>
  \<open>wii/core/sha256.c\<close>: the streaming SHA-256 context and HMAC-SHA256 over it. The contexts and
  their three operations are modelled as written (a 64-byte buffer filled by \<open>memcpy\<close>, whole
  blocks compressed in place, the padding laid out in the buffer). \<open>sha256_spec\<close> and
  \<open>hmac_spec\<close> say what they compute on a whole message; the locale \<open>stream_digest\<close> is the
  contract the datagram layer uses them through.
\<close>

definition SHA256_DIGEST_SIZE :: nat where "SHA256_DIGEST_SIZE = 32"
definition SHA256_BLOCK_SIZE :: nat where "SHA256_BLOCK_SIZE = 64"

subsection \<open>The compression function\<close>

definition sha256_K :: "u32 list" where
  "sha256_K = [
   0x428A2F98, 0x71374491, 0xB5C0FBCF, 0xE9B5DBA5, 0x3956C25B, 0x59F111F1,
   0x923F82A4, 0xAB1C5ED5, 0xD807AA98, 0x12835B01, 0x243185BE, 0x550C7DC3,
   0x72BE5D74, 0x80DEB1FE, 0x9BDC06A7, 0xC19BF174, 0xE49B69C1, 0xEFBE4786,
   0x0FC19DC6, 0x240CA1CC, 0x2DE92C6F, 0x4A7484AA, 0x5CB0A9DC, 0x76F988DA,
   0x983E5152, 0xA831C66D, 0xB00327C8, 0xBF597FC7, 0xC6E00BF3, 0xD5A79147,
   0x06CA6351, 0x14292967, 0x27B70A85, 0x2E1B2138, 0x4D2C6DFC, 0x53380D13,
   0x650A7354, 0x766A0ABB, 0x81C2C92E, 0x92722C85, 0xA2BFE8A1, 0xA81A664B,
   0xC24B8B70, 0xC76C51A3, 0xD192E819, 0xD6990624, 0xF40E3585, 0x106AA070,
   0x19A4C116, 0x1E376C08, 0x2748774C, 0x34B0BCB5, 0x391C0CB3, 0x4ED8AA4A,
   0x5B9CCA4F, 0x682E6FF3, 0x748F82EE, 0x78A5636F, 0x84C87814, 0x8CC70208,
   0x90BEFFFA, 0xA4506CEB, 0xBEF9A3F7, 0xC67178F2]"

definition ROTR :: "u32 \<Rightarrow> nat \<Rightarrow> u32" where
  "ROTR x n = drop_bit n x OR push_bit (32 - n) x"

definition CH :: "u32 \<Rightarrow> u32 \<Rightarrow> u32 \<Rightarrow> u32" where
  "CH x y z = (x AND y) XOR (NOT x AND z)"

definition MAJ :: "u32 \<Rightarrow> u32 \<Rightarrow> u32 \<Rightarrow> u32" where
  "MAJ x y z = (x AND y) XOR (x AND z) XOR (y AND z)"

definition BSIG0 :: "u32 \<Rightarrow> u32" where
  "BSIG0 x = ROTR x 2 XOR ROTR x 13 XOR ROTR x 22"

definition BSIG1 :: "u32 \<Rightarrow> u32" where
  "BSIG1 x = ROTR x 6 XOR ROTR x 11 XOR ROTR x 25"

definition SSIG0 :: "u32 \<Rightarrow> u32" where
  "SSIG0 x = ROTR x 7 XOR ROTR x 18 XOR drop_bit 3 x"

definition SSIG1 :: "u32 \<Rightarrow> u32" where
  "SSIG1 x = ROTR x 17 XOR ROTR x 19 XOR drop_bit 10 x"

text \<open>The first sixteen words of the schedule are the block, big-endian whatever the host.\<close>

definition schedule_word :: "byte list \<Rightarrow> nat \<Rightarrow> u32" where
  "schedule_word block i =
     push_bit 24 (ucast (block ! (i * 4))) OR push_bit 16 (ucast (block ! (i * 4 + 1)))
     OR push_bit 8 (ucast (block ! (i * 4 + 2))) OR ucast (block ! (i * 4 + 3))"

definition schedule_step :: "nat \<Rightarrow> u32 list \<Rightarrow> u32 list" where
  "schedule_step i w = w @ [SSIG1 (w ! (i - 2)) + w ! (i - 7) + SSIG0 (w ! (i - 15)) + w ! (i - 16)]"

definition schedule :: "byte list \<Rightarrow> u32 list" where
  "schedule block = fold schedule_step [16..<64] (map (schedule_word block) [0..<16])"

text \<open>The working variables \<open>a\<close> to \<open>h\<close>, in that order.\<close>

fun sha256_round :: "u32 list \<Rightarrow> nat \<Rightarrow> u32 list \<Rightarrow> u32 list" where
  "sha256_round w i [a, b, c, d, e, f, g, h] =
     (let t1 = h + BSIG1 e + CH e f g + sha256_K ! i + w ! i;
          t2 = BSIG0 a + MAJ a b c
      in [t1 + t2, a, b, c, d + t1, e, f, g])"
| "sha256_round w i v = v"

definition sha256_block :: "u32 list \<Rightarrow> byte list \<Rightarrow> u32 list" where
  "sha256_block state block =
     (let w = schedule block in map2 (+) state (fold (sha256_round w) [0..<64] state))"

subsection \<open>The streaming context\<close>

record sha256_ctx =
  state :: "u32 list"
  bit_length :: u64
  buffer :: "byte list"
  buffered :: nat

definition sha256_iv :: "u32 list" where
  "sha256_iv = [0x6A09E667, 0xBB67AE85, 0x3C6EF372, 0xA54FF53A,
     0x510E527F, 0x9B05688C, 0x1F83D9AB, 0x5BE0CD19]"

text \<open>\<open>sha256_init\<close> leaves the buffer's old bytes alone; nothing reads them before they are
  written, so the model starts from zeros.\<close>

definition sha256_init :: sha256_ctx where
  "sha256_init = \<lparr>state = sha256_iv, bit_length = 0,
     buffer = replicate SHA256_BLOCK_SIZE 0, buffered = 0\<rparr>"

text \<open>The \<open>while (len >= SHA256_BLOCK_SIZE)\<close> loop: the state after it and the bytes left.\<close>

function absorb_blocks :: "u32 list \<Rightarrow> byte list \<Rightarrow> u32 list \<times> byte list" where
  "absorb_blocks s bytes =
     (if SHA256_BLOCK_SIZE \<le> length bytes
      then absorb_blocks (sha256_block s (take SHA256_BLOCK_SIZE bytes)) (drop SHA256_BLOCK_SIZE bytes)
      else (s, bytes))"
  by pat_completeness auto
termination
  by (relation "measure (\<lambda>(s, bytes). length bytes)") (auto simp: SHA256_BLOCK_SIZE_def)

declare absorb_blocks.simps [simp del]

text \<open>The \<open>if (ctx->buffered > 0)\<close> block: top the buffer up, compress it once it is full.\<close>

definition top_up :: "sha256_ctx \<Rightarrow> byte list \<Rightarrow> sha256_ctx \<times> byte list" where
  "top_up ctx bytes =
     (if 0 < buffered ctx then
        let want = SHA256_BLOCK_SIZE - buffered ctx;
            taken = (if length bytes < want then length bytes else want);
            buf = blit (buffer ctx) (buffered ctx) (take taken bytes);
            n = buffered ctx + taken
        in (if n = SHA256_BLOCK_SIZE
            then (ctx\<lparr>buffer := buf, state := sha256_block (state ctx) buf, buffered := 0\<rparr>, drop taken bytes)
            else (ctx\<lparr>buffer := buf, buffered := n\<rparr>, drop taken bytes))
      else (ctx, bytes))"

definition sha256_update :: "sha256_ctx \<Rightarrow> byte list \<Rightarrow> sha256_ctx" where
  "sha256_update ctx data =
     (let ctx1 = ctx\<lparr>bit_length := bit_length ctx + of_nat (length data) * 8\<rparr>;
          (ctx2, bytes) = top_up ctx1 data;
          (s, rest) = absorb_blocks (state ctx2) bytes;
          ctx3 = ctx2\<lparr>state := s\<rparr>
      in if 0 < length rest
         then ctx3\<lparr>buffer := blit (buffer ctx3) 0 rest, buffered := length rest\<rparr>
         else ctx3)"

text \<open>\<open>buffer[63 - i] = (uint8_t)(bits >> (8 * i))\<close> for \<open>i\<close> from 0 to 7.\<close>

definition put_bits :: "u64 \<Rightarrow> byte list \<Rightarrow> byte list" where
  "put_bits bits buf =
     fold (\<lambda>i b. b[SHA256_BLOCK_SIZE - 1 - i := ucast (drop_bit (8 * i) bits)]) [0..<8] buf"

definition digest_bytes :: "u32 list \<Rightarrow> byte list" where
  "digest_bytes s = concat (map (\<lambda>i. [ucast (drop_bit 24 (s ! i)), ucast (drop_bit 16 (s ! i)),
     ucast (drop_bit 8 (s ! i)), ucast (s ! i)]) [0..<8])"

definition sha256_final :: "sha256_ctx \<Rightarrow> byte list" where
  "sha256_final ctx =
     (let bits = bit_length ctx;
          buf = (buffer ctx)[buffered ctx := 0x80];
          n = buffered ctx + 1;
          (s, buf, n) =
            (if SHA256_BLOCK_SIZE - 8 < n
             then let buf' = blit buf n (replicate (SHA256_BLOCK_SIZE - n) 0)
                  in (sha256_block (state ctx) buf', buf', 0)
             else (state ctx, buf, n));
          buf = blit buf n (replicate (SHA256_BLOCK_SIZE - 8 - n) 0);
          s = sha256_block s (put_bits bits buf)
      in digest_bytes s)"

definition sha256 :: "byte list \<Rightarrow> byte list" where
  "sha256 data = sha256_final (sha256_update sha256_init data)"

subsection \<open>HMAC\<close>

record hmac_sha256_ctx =
  inner :: sha256_ctx
  outer :: sha256_ctx

text \<open>The key, hashed first when it is longer than a block, in a zeroed block.\<close>

definition hmac_padded :: "byte list \<Rightarrow> byte list" where
  "hmac_padded key =
     blit (replicate SHA256_BLOCK_SIZE 0) 0
       (if SHA256_BLOCK_SIZE < length key then sha256 key else key)"

definition hmac_pad :: "byte \<Rightarrow> byte list \<Rightarrow> byte list" where
  "hmac_pad x padded = map (\<lambda>i. (padded ! i) XOR x) [0..<SHA256_BLOCK_SIZE]"

definition hmac_sha256_init :: "byte list \<Rightarrow> hmac_sha256_ctx" where
  "hmac_sha256_init key =
     \<lparr>inner = sha256_update sha256_init (hmac_pad 0x36 (hmac_padded key)),
      outer = sha256_update sha256_init (hmac_pad 0x5c (hmac_padded key))\<rparr>"

definition hmac_sha256_update :: "hmac_sha256_ctx \<Rightarrow> byte list \<Rightarrow> hmac_sha256_ctx" where
  "hmac_sha256_update ctx data = ctx\<lparr>inner := sha256_update (inner ctx) data\<rparr>"

definition hmac_sha256_final :: "hmac_sha256_ctx \<Rightarrow> byte list" where
  "hmac_sha256_final ctx = sha256_final (sha256_update (outer ctx) (sha256_final (inner ctx)))"

definition hmac_sha256 :: "byte list \<Rightarrow> byte list \<Rightarrow> byte list" where
  "hmac_sha256 key data = hmac_sha256_final (hmac_sha256_update (hmac_sha256_init key) data)"

text \<open>The constant-time comparison: one accumulator, every byte visited.\<close>

definition slotsync_memequal :: "byte list \<Rightarrow> byte list \<Rightarrow> nat \<Rightarrow> bool" where
  "slotsync_memequal x y len = (fold (\<lambda>i diff. diff OR ((x ! i) XOR (y ! i))) [0..<len] 0 = 0)"

subsection \<open>What a streaming digest promises\<close>

text \<open>
  \<open>fed c m\<close>: the context \<open>c\<close> has been fed exactly the bytes \<open>m\<close>, in whatever pieces.
  The datagram layer hashes a message in pieces and compares with one made from the same bytes
  in other pieces; all it needs is that the pieces do not matter.
\<close>

locale stream_digest =
  fixes fed :: "'c \<Rightarrow> byte list \<Rightarrow> bool"
    and update :: "'c \<Rightarrow> byte list \<Rightarrow> 'c"
    and final :: "'c \<Rightarrow> byte list"
    and digest :: "byte list \<Rightarrow> byte list"
  assumes fed_update: "fed c m \<Longrightarrow> fed (update c d) (m @ d)"
    and fed_final: "fed c m \<Longrightarrow> final c = digest m"
    and digest_width: "length (digest m) = 32"
begin

lemma fed_fold: "fed c m \<Longrightarrow> fed (fold (\<lambda>d c. update c d) ds c) (m @ concat ds)"
proof (induction ds arbitrary: c m)
  case Nil
  then show ?case by simp
next
  case (Cons d ds)
  from Cons.IH[OF fed_update[OF Cons.prems, of d]] show ?case by simp
qed

lemma final_fold: "fed c m \<Longrightarrow> final (fold (\<lambda>d c. update c d) ds c) = digest (m @ concat ds)"
  by (rule fed_final[OF fed_fold])

lemma final_update: "fed c m \<Longrightarrow> final (update c d) = digest (m @ d)"
  using final_fold[of c m "[d]"] by simp

lemma final_pieces:
  assumes "fed c m" "concat ds = concat es"
  shows "final (fold (\<lambda>d c. update c d) ds c) = final (fold (\<lambda>d c. update c d) es c)"
  using assms by (simp add: final_fold)

end

subsection \<open>SHA-256 on a whole message\<close>

function fold_blocks :: "u32 list \<Rightarrow> byte list \<Rightarrow> u32 list" where
  "fold_blocks s m = (if length m < 64 then s else fold_blocks (sha256_block s (take 64 m)) (drop 64 m))"
  by pat_completeness auto
termination
  by (relation "measure (\<lambda>(s, m). length m)") auto

declare fold_blocks.simps [simp del]

text \<open>FIPS 180-4 padding: a one bit, zeros to eight bytes short of a block, the bit length.\<close>

definition sha256_pad :: "byte list \<Rightarrow> byte list" where
  "sha256_pad m = m @ [0x80] @ replicate ((119 - length m mod 64) mod 64) 0
     @ ss_put_u64 (of_nat (length m) * 8)"

definition sha256_spec :: "byte list \<Rightarrow> byte list" where
  "sha256_spec m = digest_bytes (fold_blocks sha256_iv (sha256_pad m))"

lemma fold_blocks_short: "length m < 64 \<Longrightarrow> fold_blocks s m = s"
  by (simp add: fold_blocks.simps)

lemma fold_blocks_one: "length b = 64 \<Longrightarrow> fold_blocks s (b @ m) = fold_blocks (sha256_block s b) m"
  by (subst fold_blocks.simps) simp

lemma fold_blocks_exact: "length b = 64 \<Longrightarrow> fold_blocks s b = sha256_block s b"
  using fold_blocks_one[of b s "[]"] by (simp add: fold_blocks_short)

lemma fold_blocks_append: "length a mod 64 = 0 \<Longrightarrow> fold_blocks s (a @ b) = fold_blocks (fold_blocks s a) b"
proof (induction s a rule: fold_blocks.induct)
  case (1 s m)
  show ?case
  proof (cases "length m < 64")
    case True
    with "1.prems" have "m = []" by simp
    then show ?thesis by (simp add: fold_blocks_short)
  next
    case False
    then have "length (drop 64 m) mod 64 = 0"
      using "1.prems" by (simp add: le_mod_geq)
    then have "fold_blocks s (m @ b) = fold_blocks (fold_blocks (sha256_block s (take 64 m)) (drop 64 m)) b"
      using False "1.IH" by (subst fold_blocks.simps) simp
    also have "fold_blocks (sha256_block s (take 64 m)) (drop 64 m) = fold_blocks s m"
      using False by (subst (2) fold_blocks.simps) simp
    finally show ?thesis .
  qed
qed

text \<open>The bytes after the last whole block.\<close>

definition partial :: "byte list \<Rightarrow> byte list" where
  "partial m = drop (length m div 64 * 64) m"

lemma length_partial: "length (partial m) = length m mod 64"
  by (simp add: partial_def minus_div_mult_eq_mod)

lemma length_whole_blocks: "length (take (length m div 64 * 64) m) mod 64 = 0"
proof -
  have "length m div 64 * 64 \<le> length m" by simp
  then show ?thesis by (simp add: min_absorb2)
qed

lemma fold_blocks_whole: "fold_blocks s m = fold_blocks s (take (length m div 64 * 64) m)"
proof -
  let ?w = "length m div 64 * 64"
  from length_whole_blocks have "fold_blocks s (take ?w m @ drop ?w m) = fold_blocks (fold_blocks s (take ?w m)) (drop ?w m)"
    by (rule fold_blocks_append)
  moreover have "length (drop ?w m) < 64"
    using length_partial[of m] by (simp add: partial_def)
  ultimately show ?thesis by (simp add: fold_blocks_short)
qed

lemma fold_blocks_partial: "fold_blocks s (m @ d) = fold_blocks (fold_blocks s m) (partial m @ d)"
proof -
  let ?w = "length m div 64 * 64"
  have "m @ d = take ?w m @ (partial m @ d)" by (simp add: partial_def)
  moreover note length_whole_blocks[of m]
  ultimately have "fold_blocks s (m @ d) = fold_blocks (fold_blocks s (take ?w m)) (partial m @ d)"
    by (metis fold_blocks_append)
  then show ?thesis by (simp add: fold_blocks_whole[of s m])
qed

lemma absorb_blocks_eq: "absorb_blocks s m = (fold_blocks s m, partial m)"
proof (induction s m rule: absorb_blocks.induct)
  case (1 s m)
  show ?case
  proof (cases "64 \<le> length m")
    case True
    then have "absorb_blocks s m = (fold_blocks (sha256_block s (take 64 m)) (drop 64 m), partial (drop 64 m))"
      using "1.IH" by (subst absorb_blocks.simps) (simp add: SHA256_BLOCK_SIZE_def)
    moreover have "partial (drop 64 m) = partial m"
      using True by (simp add: partial_def le_div_geq add.commute)
    moreover have "fold_blocks (sha256_block s (take 64 m)) (drop 64 m) = fold_blocks s m"
      using True by (subst (2) fold_blocks.simps) simp
    ultimately show ?thesis by simp
  next
    case False
    then show ?thesis
      by (subst absorb_blocks.simps) (simp add: SHA256_BLOCK_SIZE_def fold_blocks_short partial_def)
  qed
qed

subsection \<open>The contexts compute the specification\<close>

text \<open>What the context holds of the message, but for the length it counts.\<close>

definition sha256_holds :: "sha256_ctx \<Rightarrow> byte list \<Rightarrow> bool" where
  "sha256_holds c m \<longleftrightarrow> length (buffer c) = 64 \<and> buffered c = length m mod 64 \<and>
     take (buffered c) (buffer c) = partial m \<and> state c = fold_blocks sha256_iv m"

definition sha256_fed :: "sha256_ctx \<Rightarrow> byte list \<Rightarrow> bool" where
  "sha256_fed c m \<longleftrightarrow> sha256_holds c m \<and> bit_length c = of_nat (length m) * 8"

lemma sha256_fed_init: "sha256_fed sha256_init []"
  by (simp add: sha256_fed_def sha256_holds_def sha256_init_def SHA256_BLOCK_SIZE_def
      partial_def fold_blocks_short)

lemma partial_aligned: "length m mod 64 = 0 \<Longrightarrow> partial m = []"
  using length_partial[of m] by simp

lemma partial_append_aligned: "length a mod 64 = 0 \<Longrightarrow> partial (a @ b) = partial b"
proof -
  assume "length a mod 64 = 0"
  then obtain k where k: "length a = 64 * k" by (meson dvdE mod_0_imp_dvd)
  then have "length (a @ b) div 64 = k + length b div 64" by simp
  then show ?thesis by (simp add: partial_def k algebra_simps)
qed

lemma partial_short: "length m < 64 \<Longrightarrow> partial m = m"
  by (simp add: partial_def)

lemma partial_partial_append: "partial (m @ d) = partial (partial m @ d)"
proof -
  have "m @ d = take (length m div 64 * 64) m @ (partial m @ d)" by (simp add: partial_def)
  then show ?thesis by (metis partial_append_aligned length_whole_blocks)
qed

text \<open>The second half of \<open>sha256_update\<close>: whole blocks from the input, then the tail.\<close>

definition absorb :: "sha256_ctx \<Rightarrow> byte list \<Rightarrow> sha256_ctx" where
  "absorb c bytes =
     (let (s, rest) = absorb_blocks (state c) bytes; c' = c\<lparr>state := s\<rparr>
      in if 0 < length rest
         then c'\<lparr>buffer := blit (buffer c') 0 rest, buffered := length rest\<rparr> else c')"

lemma sha256_update_absorb:
  "sha256_update c d =
     (let (c', bytes) = top_up (c\<lparr>bit_length := bit_length c + of_nat (length d) * 8\<rparr>) d
      in absorb c' bytes)"
  by (simp add: sha256_update_def absorb_def Let_def split: prod.splits)

lemma absorb_holds:
  assumes "sha256_holds c m" "length m mod 64 = 0"
  shows "sha256_holds (absorb c d) (m @ d)"
proof -
  have len: "length (partial d) < 64" "length (partial d) = length d mod 64"
    by (simp_all add: length_partial)
  have mod: "length (m @ d) mod 64 = length d mod 64"
    using assms(2) by (simp add: mod_add_eq[symmetric])
  have st: "fold_blocks (state c) d = fold_blocks sha256_iv (m @ d)"
    using assms by (simp add: sha256_holds_def fold_blocks_append)
  have pt: "partial (m @ d) = partial d"
    using assms(2) by (rule partial_append_aligned)
  show ?thesis
    using assms(1) len mod st pt partial_aligned[OF assms(2)] assms(2)
    by (auto simp: absorb_def absorb_blocks_eq sha256_holds_def blit_def Let_def)
qed

lemma top_up_holds:
  assumes "sha256_holds c m" "top_up c d = (c', bytes)"
  obtains a where "d = a @ bytes" "sha256_holds c' (m @ a)"
    "bytes = [] \<or> length (m @ a) mod 64 = 0" "bit_length c' = bit_length c"
proof (cases "buffered c = 0")
  case True
  with assms have "c' = c" "bytes = d" by (auto simp: top_up_def)
  with that[of "[]"] True assms(1) show thesis by (simp add: sha256_holds_def)
next
  case False
  define n where "n = buffered c"
  define a where "a = take (64 - n) d"
  define buf where "buf = blit (buffer c) n a"
  have n: "n < 64" "n = length m mod 64" "length (partial m) = n" "n \<noteq> 0"
    and b: "length (buffer c) = 64" "take n (buffer c) = partial m"
    and st: "state c = fold_blocks sha256_iv m"
    using assms(1) False by (auto simp: sha256_holds_def length_partial n_def)
  have a: "n + length a \<le> 64" "d = a @ drop (length a) d" "n + length a < 64 \<Longrightarrow> drop (length a) d = []"
    using n(1) by (auto simp: a_def min_def split: if_splits)
  have len: "length buf = 64" using a(1) b(1) by (simp add: buf_def)
  have buf: "take (n + length a) buf = partial m @ a"
    by (simp add: buf_def blit_def b(2) n(3))
  have tk: "take (if length d < 64 - n then length d else 64 - n) d = a"
    "n + (if length d < 64 - n then length d else 64 - n) = n + length a"
    "drop (if length d < 64 - n then length d else 64 - n) d = drop (length a) d"
    by (auto simp: a_def min_def)
  have ex: "c' = (if n + length a = 64
      then c\<lparr>buffer := buf, state := sha256_block (state c) buf, buffered := 0\<rparr>
      else c\<lparr>buffer := buf, buffered := n + length a\<rparr>)" "bytes = drop (length a) d"
    using assms(2) n(4) unfolding top_up_def Let_def SHA256_BLOCK_SIZE_def n_def[symmetric] tk
      buf_def[symmetric] by (auto split: if_splits)
  have fb: "fold_blocks sha256_iv (m @ a) = fold_blocks (state c) (partial m @ a)"
    unfolding st by (rule fold_blocks_partial)
  have lm: "length (m @ a) mod 64 = (n + length a) mod 64"
    unfolding n(2) length_append by (rule mod_add_left_eq[symmetric])
  have holds: "sha256_holds c' (m @ a)"
  proof (cases "n + length a = 64")
    case True
    then have "buf = partial m @ a" using buf len by simp
    then have "fold_blocks (state c) (partial m @ a) = sha256_block (state c) buf"
      using len by (metis fold_blocks_exact)
    then show ?thesis
      using True ex(1) fb lm len partial_aligned[of "m @ a"] by (simp add: sha256_holds_def)
  next
    case False
    then have lt: "n + length a < 64" using a(1) by simp
    then have "partial (m @ a) = partial m @ a"
      using n(3) by (simp add: partial_partial_append[of m] partial_short)
    then show ?thesis
      using lt ex(1) fb lm len buf n(3) by (simp add: sha256_holds_def fold_blocks_short)
  qed
  show thesis
  proof (rule that[of a])
    show "d = a @ bytes" using ex(2) a(2) by simp
    show "sha256_holds c' (m @ a)" by (rule holds)
    show "bytes = [] \<or> length (m @ a) mod 64 = 0" using lm ex(2) a(1,3) by fastforce
    show "bit_length c' = bit_length c" using ex(1) by simp
  qed
qed

lemma ucast_ucast_drop:
  "k + 8 \<le> 32 \<Longrightarrow> (ucast (drop_bit k (ucast (v :: u64) :: u32)) :: byte) = ucast (drop_bit k v)"
  by (rule bit_word_eqI) (auto simp: bit_simps)

lemma put_bits_eq:
  assumes "length buf = 64"
  shows "put_bits bits buf = take 56 buf @ ss_put_u64 bits"
proof -
  obtain b0 b1 b2 b3 b4 b5 b6 b7 where "drop 56 buf = [b0, b1, b2, b3, b4, b5, b6, b7]"
    using assms by (auto simp: length_Suc_conv numeral_eq_Suc dest!: arg_cong[where f = length, of "drop 56 buf"])
  then have buf: "buf = take 56 buf @ [b0, b1, b2, b3, b4, b5, b6, b7]"
    by (metis append_take_drop_id)
  have len: "length (take 56 buf) = 56" using assms by simp
  have "put_bits bits (take 56 buf @ [b0, b1, b2, b3, b4, b5, b6, b7]) = take 56 buf @ ss_put_u64 bits"
    using len
    by (simp add: put_bits_def SHA256_BLOCK_SIZE_def list_update_append upt_rec ss_put_u64_def
        ss_put_u32_def ucast_ucast_drop ucast_ucast_drop[of 0, simplified] drop_bit_drop_bit)
  then show ?thesis using buf by simp
qed

lemma sha256_fed_update:
  assumes "sha256_fed c m"
  shows "sha256_fed (sha256_update c d) (m @ d)"
proof -
  let ?c = "c\<lparr>bit_length := bit_length c + of_nat (length d) * 8\<rparr>"
  obtain c' bytes where t: "top_up ?c d = (c', bytes)" by fastforce
  have "sha256_holds ?c m" using assms by (auto simp: sha256_fed_def sha256_holds_def)
  from top_up_holds[OF this t] obtain a where
    d: "d = a @ bytes" and h: "sha256_holds c' (m @ a)"
    and al: "bytes = [] \<or> length (m @ a) mod 64 = 0" and bl: "bit_length c' = bit_length ?c"
    by blast
  have "sha256_holds (absorb c' bytes) ((m @ a) @ bytes)"
  proof (cases "bytes = []")
    case True
    moreover have "absorb c' [] = c'"
      by (simp add: absorb_def absorb_blocks_eq fold_blocks_short partial_def)
    ultimately show ?thesis using h by simp
  next
    case False
    with al have "length (m @ a) mod 64 = 0" by blast
    with h show ?thesis by (rule absorb_holds)
  qed
  moreover have "bit_length (absorb c' bytes) = bit_length c'"
    by (simp add: absorb_def Let_def split: prod.splits)
  moreover have "sha256_update c d = absorb c' bytes"
    by (simp add: sha256_update_absorb t)
  ultimately show ?thesis
    using assms d bl by (simp add: sha256_fed_def algebra_simps)
qed

lemma sha256_final_fed:
  assumes "sha256_fed c m"
  shows "sha256_final c = sha256_spec m"
proof -
  define n where "n = buffered c"
  define p where "p = partial m"
  define L where "L = ss_put_u64 (bit_length c)"
  have n: "n < 64" "length p = n" "n = length m mod 64" and b: "length (buffer c) = 64" "take n (buffer c) = p"
    and st: "state c = fold_blocks sha256_iv m" and bl: "bit_length c = of_nat (length m) * 8"
    using assms by (auto simp: sha256_fed_def sha256_holds_def length_partial n_def p_def)
  have lL: "length L = 8" by (simp add: L_def)
  have buf1: "(buffer c)[n := 0x80] = p @ [0x80] @ drop (n + 1) (buffer c)"
    using b n(1) by (simp add: upd_conv_take_nth_drop)
  have spec: "sha256_spec m = digest_bytes (fold_blocks (state c) (p @ [0x80] @ replicate ((119 - n) mod 64) 0 @ L))"
    by (simp only: sha256_spec_def sha256_pad_def fold_blocks_partial[of _ m] st n(3) p_def L_def bl)
  show ?thesis
  proof (cases "56 < n + 1")
    case True
    define buf where "buf = p @ [0x80] @ replicate (63 - n) 0"
    have lb: "length buf = 64" using n(1,2) by (simp add: buf_def)
    have "blit ((buffer c)[n := 0x80]) (n + 1) (replicate (64 - (n + 1)) 0) = buf"
      using n(1,2) b by (simp add: buf1 blit_def buf_def)
    moreover have "put_bits (bit_length c) (blit buf 0 (replicate 56 0)) = replicate 56 0 @ L"
      using lb by (simp add: put_bits_eq L_def) (simp add: blit_def)
    ultimately have "sha256_final c =
        digest_bytes (sha256_block (sha256_block (state c) buf) (replicate 56 0 @ L))"
      using True by (simp add: sha256_final_def Let_def SHA256_BLOCK_SIZE_def n_def[symmetric])
    moreover have e: "(119 - n) mod 64 = (63 - n) + 56" using True n(1) by simp
    have "p @ [0x80] @ replicate ((119 - n) mod 64) 0 @ L = buf @ (replicate 56 0 @ L) @ []"
      unfolding e by (simp only: buf_def replicate_add append_assoc append_Nil2)
    ultimately show ?thesis
      using lb lL by (simp only: spec append_Nil2) (simp add: fold_blocks_one fold_blocks_exact)
  next
    case False
    define buf where "buf = p @ [0x80] @ replicate (55 - n) 0"
    have lb: "length buf = 56" using n(1,2) False by (simp add: buf_def)
    have "blit ((buffer c)[n := 0x80]) (n + 1) (replicate (56 - (n + 1)) 0) = buf @ drop 56 (buffer c)"
      using n(1,2) b False by (simp add: buf1 blit_def buf_def drop_Cons')
    then have "sha256_final c = digest_bytes (sha256_block (state c) (buf @ L))"
      using False b lb by (simp add: sha256_final_def Let_def SHA256_BLOCK_SIZE_def n_def[symmetric]
          put_bits_eq L_def)
    moreover have "(119 - n) mod 64 = 55 - n" using False n(1) by (simp add: le_mod_geq)
    then have "p @ [0x80] @ replicate ((119 - n) mod 64) 0 @ L = (buf @ L) @ []"
      by (simp add: buf_def)
    ultimately show ?thesis
      using lb lL by (simp only: spec append_Nil2) (simp add: fold_blocks_exact)
  qed
qed

lemma length_digest_bytes [simp, width_simps]: "length (digest_bytes s) = 32"
  by (simp add: digest_bytes_def length_concat comp_def sum_list_triv)

interpretation sha256: stream_digest sha256_fed sha256_update sha256_final sha256_spec
  by unfold_locales (simp_all add: sha256_fed_update sha256_final_fed sha256_spec_def)

lemma sha256_eq_spec: "sha256 m = sha256_spec m"
  using sha256.final_update[OF sha256_fed_init, of m] by (simp add: sha256_def)

lemma length_sha256 [simp, width_simps]: "length (sha256 m) = 32"
  by (simp add: sha256_eq_spec sha256.digest_width)

subsection \<open>HMAC as RFC 2104 states it\<close>

definition hmac_key_block :: "byte list \<Rightarrow> byte list" where
  "hmac_key_block key =
     (let k = (if 64 < length key then sha256_spec key else key)
      in k @ replicate (64 - length k) 0)"

definition hmac_spec :: "byte list \<Rightarrow> byte list \<Rightarrow> byte list" where
  "hmac_spec key m =
     sha256_spec (map (\<lambda>b. b XOR 0x5c) (hmac_key_block key) @
       sha256_spec (map (\<lambda>b. b XOR 0x36) (hmac_key_block key) @ m))"

lemma length_hmac_key_block: "length (hmac_key_block key) = 64"
  by (simp add: hmac_key_block_def Let_def sha256.digest_width)

lemma hmac_padded_eq: "hmac_padded key = hmac_key_block key"
  by (simp add: hmac_padded_def hmac_key_block_def SHA256_BLOCK_SIZE_def blit_def Let_def
      sha256_eq_spec sha256.digest_width)

lemma hmac_pad_eq: "hmac_pad x (hmac_padded key) = map (\<lambda>b. b XOR x) (hmac_key_block key)"
  by (rule nth_equalityI)
    (simp_all add: hmac_pad_def SHA256_BLOCK_SIZE_def hmac_padded_eq length_hmac_key_block)

definition hmac_fed :: "byte list \<Rightarrow> hmac_sha256_ctx \<Rightarrow> byte list \<Rightarrow> bool" where
  "hmac_fed key c m \<longleftrightarrow>
     sha256_fed (inner c) (map (\<lambda>b. b XOR 0x36) (hmac_key_block key) @ m) \<and>
     sha256_fed (outer c) (map (\<lambda>b. b XOR 0x5c) (hmac_key_block key))"

lemma hmac_fed_init: "hmac_fed key (hmac_sha256_init key) []"
  using sha256.fed_update[OF sha256_fed_init]
  by (simp add: hmac_fed_def hmac_sha256_init_def hmac_pad_eq)

interpretation hmac: stream_digest "hmac_fed key" hmac_sha256_update hmac_sha256_final "hmac_spec key"
  for key
proof unfold_locales
  fix c m d assume "hmac_fed key c m"
  then show "hmac_fed key (hmac_sha256_update c d) (m @ d)"
    using sha256.fed_update by (auto simp: hmac_fed_def hmac_sha256_update_def simp flip: append_assoc)
next
  fix c m assume "hmac_fed key c m"
  then have i: "sha256_fed (inner c) (map (\<lambda>b. b XOR 0x36) (hmac_key_block key) @ m)"
    and o: "sha256_fed (outer c) (map (\<lambda>b. b XOR 0x5c) (hmac_key_block key))"
    by (simp_all add: hmac_fed_def)
  show "hmac_sha256_final c = hmac_spec key m"
    unfolding hmac_sha256_final_def hmac_spec_def sha256.fed_final[OF i] by (rule sha256.final_update[OF o])
next
  show "length (hmac_spec key m) = 32" for m by (simp add: hmac_spec_def sha256.digest_width)
qed

lemma hmac_eq_spec: "hmac_sha256 key m = hmac_spec key m"
  using hmac.final_update[OF hmac_fed_init, of key m] by (simp add: hmac_sha256_def)

lemma xor_eq_0_byte: "(a XOR b = 0) \<longleftrightarrow> a = (b :: byte)"
  by (auto simp: bit_eq_iff bit_simps)

lemma slotsync_memequal_acc:
  "(fold (\<lambda>i diff. diff OR ((x ! i) XOR (y ! i))) [0..<n] d = (0 :: byte)) \<longleftrightarrow>
   d = 0 \<and> (\<forall>i<n. x ! i = y ! i)"
  by (induction n) (auto simp: less_Suc_eq or_eq_0_iff xor_eq_0_byte)

lemma slotsync_memequal_iff:
  "n \<le> length x \<Longrightarrow> n \<le> length y \<Longrightarrow> slotsync_memequal x y n \<longleftrightarrow> take n x = take n y"
  by (auto simp: slotsync_memequal_def slotsync_memequal_acc list_eq_iff_nth_eq)

subsection \<open>Properties\<close>

text \<open>
  C38: the streaming SHA-256 of \<open>sha256.c\<close> computes the digest of the whole message
  (padding, block by block compression) however the message is cut into \<open>sha256_update\<close> calls.
\<close>

theorem sha256_streaming:
  "sha256_final (fold (\<lambda>d c. sha256_update c d) pieces sha256_init) = sha256_spec (concat pieces)"
  using sha256.final_fold[OF sha256_fed_init] by simp

text \<open>
  C37: the keyed context computes HMAC as RFC 2104 defines it over the SHA-256 of
  \<open>sha256_spec\<close>, for a key of any length and any cutting of the message.
\<close>

theorem hmac_streaming:
  "hmac_sha256_final (fold (\<lambda>d c. hmac_sha256_update c d) pieces (hmac_sha256_init key)) =
   hmac_spec key (concat pieces)"
  using hmac.final_fold[OF hmac_fed_init] by simp

end
