(* ===== verification/SS_Protocol.thy ===== *)
theory SS_Protocol
  imports SS_Sha256
begin

text \<open>
  \<open>wii/core/protocol.c\<close>: the 96-byte header, building and signing a datagram, and parsing and
  authenticating one. A datagram is the list of its bytes.
\<close>

definition SS_HEADER_SIZE :: nat where "SS_HEADER_SIZE = 96"
definition SS_HMAC_OFFSET :: nat where "SS_HMAC_OFFSET = 64"
definition SS_HMAC_SIZE :: nat where "SS_HMAC_SIZE = 32"
definition SS_NONCE_OFFSET :: nat where "SS_NONCE_OFFSET = 48"
definition SS_NONCE_SIZE :: nat where "SS_NONCE_SIZE = 16"
definition SS_MAX_DATAGRAM :: nat where "SS_MAX_DATAGRAM = SS_HEADER_SIZE + SS_MAX_PAYLOAD"
definition SS_GAME_ID_LEN :: nat where "SS_GAME_ID_LEN = 6"
definition SS_VERSION :: byte where "SS_VERSION = 1"

text \<open>The four bytes \<open>"SLOT"\<close>.\<close>

definition SS_MAGIC :: "byte list" where "SS_MAGIC = [0x53, 0x4C, 0x4F, 0x54]"

lemmas protocol_consts =
  SS_HEADER_SIZE_def SS_HMAC_OFFSET_def SS_HMAC_SIZE_def SS_NONCE_OFFSET_def SS_NONCE_SIZE_def
  SS_MAX_DATAGRAM_def SS_MAX_PAYLOAD_def SS_GAME_ID_LEN_def

subsection \<open>Message types and NACK codes\<close>

text \<open>Bytes off the wire, so they stay bytes: a message may carry any value here.\<close>

definition SS_HELLO :: byte where "SS_HELLO = 0x01"
definition SS_PULL_REQ :: byte where "SS_PULL_REQ = 0x02"
definition SS_PUSH_BEGIN :: byte where "SS_PUSH_BEGIN = 0x03"
definition SS_PUSH_CHUNK :: byte where "SS_PUSH_CHUNK = 0x04"
definition SS_PUSH_END :: byte where "SS_PUSH_END = 0x05"
definition SS_ACK :: byte where "SS_ACK = 0x06"
definition SS_NACK :: byte where "SS_NACK = 0x07"
definition SS_PULL_CHUNK :: byte where "SS_PULL_CHUNK = 0x08"
definition SS_PUSH_DELTA :: byte where "SS_PUSH_DELTA = 0x0A"

lemmas msg_types =
  SS_HELLO_def SS_PULL_REQ_def SS_PUSH_BEGIN_def SS_PUSH_CHUNK_def SS_PUSH_END_def SS_ACK_def
  SS_NACK_def SS_PULL_CHUNK_def SS_PUSH_DELTA_def

definition SS_FLAG_DELTA :: u16 where "SS_FLAG_DELTA = 0x0001"

definition SS_NACK_UNKNOWN_CARD :: byte where "SS_NACK_UNKNOWN_CARD = 0x04"
definition SS_NACK_CONFLICT :: byte where "SS_NACK_CONFLICT = 0x05"
definition SS_NACK_MISSING_CHUNKS :: byte where "SS_NACK_MISSING_CHUNKS = 0x06"
definition SS_NACK_CHECKSUM :: byte where "SS_NACK_CHECKSUM = 0x07"
definition SS_NACK_STAGING_EXPIRED :: byte where "SS_NACK_STAGING_EXPIRED = 0x0B"
definition SS_NACK_DELTA_UNAVAILABLE :: byte where "SS_NACK_DELTA_UNAVAILABLE = 0x0C"

lemmas nack_codes =
  SS_NACK_UNKNOWN_CARD_def SS_NACK_CONFLICT_def SS_NACK_MISSING_CHUNKS_def SS_NACK_CHECKSUM_def
  SS_NACK_STAGING_EXPIRED_def SS_NACK_DELTA_UNAVAILABLE_def

subsection \<open>The header\<close>

text \<open>\<open>h_game_id\<close> is the six characters; the C field's trailing NUL is always there.\<close>

record ss_header =
  h_version :: byte
  h_msg_type :: byte
  h_flags :: u16
  h_device_id :: u64
  h_game_id :: "byte list"
  h_slot :: byte
  h_card_version :: u32
  h_parent_version :: u32
  h_offset :: u32
  h_length :: u32
  h_total_size :: u32
  h_sequence :: u32
  h_nonce :: "byte list"

text \<open>
  Space padding to six characters, as \<open>ss_header_init\<close> and \<open>ss_fp_put_record\<close> both do it:
  once the source string has ended it is not read again.
\<close>

definition space_pad_id :: "byte list \<Rightarrow> byte list" where
  "space_pad_id s =
     snd (fold (\<lambda>i (ended, out).
            let ended = (ended \<or> peek s i = 0)
            in (ended, out @ [if ended then 0x20 else peek s i]))
          [0..<SS_GAME_ID_LEN] (False, []))"

definition ss_header_init :: "byte \<Rightarrow> u64 \<Rightarrow> byte list \<Rightarrow> byte \<Rightarrow> ss_header" where
  "ss_header_init msg_type device_id game_id slot =
     \<lparr>h_version = SS_VERSION, h_msg_type = msg_type, h_flags = 0, h_device_id = device_id,
      h_game_id = space_pad_id game_id, h_slot = slot, h_card_version = 0, h_parent_version = 0,
      h_offset = 0, h_length = 0, h_total_size = 0, h_sequence = 0,
      h_nonce = replicate SS_NONCE_SIZE 0\<rparr>"

text \<open>\<open>write_header\<close>, one store after another into the zeroed buffer. The HMAC field stays zero.\<close>

definition write_header :: "ss_header \<Rightarrow> nat \<Rightarrow> byte list" where
  "write_header h payload_len =
     (let out = replicate SS_HEADER_SIZE 0;
          out = blit out 0 SS_MAGIC;
          out = blit out 4 [h_version h];
          out = blit out 5 [h_msg_type h];
          out = blit out 6 (ss_put_u16 (h_flags h));
          out = blit out 8 (ss_put_u64 (h_device_id h));
          out = blit out 16 (take SS_GAME_ID_LEN (h_game_id h));
          out = blit out 22 [h_slot h];
          out = blit out 23 [0];
          out = blit out 24 (ss_put_u32 (h_card_version h));
          out = blit out 28 (ss_put_u32 (h_parent_version h));
          out = blit out 32 (ss_put_u32 (h_offset h));
          out = blit out 36 (ss_put_u32 (of_nat payload_len));
          out = blit out 40 (ss_put_u32 (h_total_size h));
          out = blit out 44 (ss_put_u32 (h_sequence h))
      in blit out SS_NONCE_OFFSET (take SS_NONCE_SIZE (h_nonce h)))"

definition ss_pack :: "nat \<Rightarrow> ss_header \<Rightarrow> byte list \<Rightarrow> byte list \<Rightarrow> byte list option" where
  "ss_pack out_cap h payload key =
     (if SS_MAX_PAYLOAD < length payload then None
      else if out_cap < SS_HEADER_SIZE + length payload then None
      else let out = write_header h (length payload);
               mac = hmac_sha256_init key;
               mac = hmac_sha256_update mac out;
               mac = hmac_sha256_update mac payload;
               digest = hmac_sha256_final mac
           in Some (blit out SS_HMAC_OFFSET digest @ payload))"

datatype ss_parse_error =
    SS_PARSE_SHORT | SS_PARSE_BAD_MAGIC | SS_PARSE_BAD_VERSION | SS_PARSE_BAD_HMAC
  | SS_PARSE_BAD_LENGTH

text \<open>Filling \<open>h\<close> from an authenticated datagram.\<close>

definition read_header :: "byte list \<Rightarrow> ss_header" where
  "read_header d =
     \<lparr>h_version = d ! 4, h_msg_type = d ! 5, h_flags = ss_get_u16 (drop 6 d),
      h_device_id = ss_get_u64 (drop 8 d), h_game_id = bytes_at d 16 SS_GAME_ID_LEN,
      h_slot = d ! 22, h_card_version = ss_get_u32 (drop 24 d),
      h_parent_version = ss_get_u32 (drop 28 d), h_offset = ss_get_u32 (drop 32 d),
      h_length = ss_get_u32 (drop 36 d), h_total_size = ss_get_u32 (drop 40 d),
      h_sequence = ss_get_u32 (drop 44 d), h_nonce = bytes_at d SS_NONCE_OFFSET SS_NONCE_SIZE\<rparr>"

text \<open>The MAC \<open>ss_unpack\<close> computes: over the header with its own field zeroed, then the body.\<close>

definition expected_mac :: "byte list \<Rightarrow> byte list \<Rightarrow> byte list" where
  "expected_mac datagram key =
     (let zeroed = blit (take SS_HEADER_SIZE datagram) SS_HMAC_OFFSET (replicate SS_HMAC_SIZE 0);
          mac = hmac_sha256_init key;
          mac = hmac_sha256_update mac zeroed;
          mac = hmac_sha256_update mac (drop SS_HEADER_SIZE datagram)
      in hmac_sha256_final mac)"

definition ss_unpack :: "byte list \<Rightarrow> byte list \<Rightarrow> ss_parse_error + (ss_header \<times> byte list)" where
  "ss_unpack datagram key =
     (if length datagram < SS_HEADER_SIZE \<or> SS_MAX_DATAGRAM < length datagram then Inl SS_PARSE_SHORT
      else if take 4 datagram \<noteq> SS_MAGIC then Inl SS_PARSE_BAD_MAGIC
      else if datagram ! 4 \<noteq> SS_VERSION then Inl SS_PARSE_BAD_VERSION
      else if \<not> slotsync_memequal (expected_mac datagram key) (drop SS_HMAC_OFFSET datagram) SS_HMAC_SIZE
        then Inl SS_PARSE_BAD_HMAC
      else if unat (ss_get_u32 (drop 36 datagram)) \<noteq> length datagram - SS_HEADER_SIZE
        then Inl SS_PARSE_BAD_LENGTH
      else Inr (read_header datagram, drop SS_HEADER_SIZE datagram))"

subsection \<open>Game ids\<close>

lemma space_pad_loop:
  "fold (\<lambda>i (ended, out).
      let ended = (ended \<or> peek s i = 0) in (ended, out @ [if ended then 0x20 else peek s i]))
    [0..<n] (False, []) =
   ((\<exists>j<n. peek s j = 0), map (\<lambda>i. if \<exists>j\<le>i. peek s j = 0 then 0x20 else peek s i) [0..<n])"
  by (induction n) (auto simp: Let_def less_Suc_eq le_less)

lemma space_pad_id_eq:
  "space_pad_id s = map (\<lambda>i. if \<exists>j\<le>i. peek s j = 0 then 0x20 else peek s i) [0..<6]"
  by (simp add: space_pad_id_def space_pad_loop SS_GAME_ID_LEN_def)

lemma length_space_pad_id [simp, width_simps]: "length (space_pad_id s) = 6"
  by (simp add: space_pad_id_eq)

text \<open>An id of six characters, none of them NUL.\<close>

definition full_id :: "byte list \<Rightarrow> bool" where
  "full_id s \<longleftrightarrow> length s = 6 \<and> 0 \<notin> set s"

lemma space_pad_id_full: "full_id s \<Longrightarrow> space_pad_id s = s"
  by (rule nth_equalityI) (auto simp: full_id_def space_pad_id_eq peek_def in_set_conv_nth)

lemma space_pad_id_nonzero: "0 \<notin> set (space_pad_id s)"
  by (auto simp: space_pad_id_eq)

lemma full_space_pad_id [simp]: "full_id (space_pad_id s)"
  by (simp add: full_id_def space_pad_id_nonzero)

subsection \<open>The bytes of a packed header\<close>

text \<open>A header as the code builds them: the two array fields at their declared sizes.\<close>

definition wf_header :: "ss_header \<Rightarrow> bool" where
  "wf_header h \<longleftrightarrow> h_version h = SS_VERSION \<and> length (h_game_id h) = 6 \<and> length (h_nonce h) = 16"

lemma wf_header_init [simp]: "wf_header (ss_header_init t d g s)"
  by (simp add: wf_header_def ss_header_init_def SS_NONCE_SIZE_def)

text \<open>The stores of \<open>write_header\<close> are adjacent, so the result is the fields side by side.\<close>

definition header_bytes :: "ss_header \<Rightarrow> nat \<Rightarrow> byte list \<Rightarrow> byte list" where
  "header_bytes h n tag =
     SS_MAGIC @ [h_version h, h_msg_type h] @ ss_put_u16 (h_flags h) @ ss_put_u64 (h_device_id h)
     @ h_game_id h @ [h_slot h, 0] @ ss_put_u32 (h_card_version h) @ ss_put_u32 (h_parent_version h)
     @ ss_put_u32 (h_offset h) @ ss_put_u32 (of_nat n) @ ss_put_u32 (h_total_size h)
     @ ss_put_u32 (h_sequence h) @ h_nonce h @ tag"

lemma blit_next:
  "off = length pre \<Longrightarrow> length src \<le> k \<Longrightarrow>
   blit (pre @ replicate k 0) off src = (pre @ src) @ replicate (k - length src) 0"
  by (simp add: blit_def)

lemma blit_first: "length src \<le> k \<Longrightarrow> blit (replicate k 0) 0 src = src @ replicate (k - length src) 0"
  by (simp add: blit_def)

lemma write_header_bytes:
  assumes "wf_header h"
  shows "write_header h n = header_bytes h n (replicate 32 0)"
  using assms
  by (simp add: write_header_def wf_header_def protocol_consts SS_MAGIC_def blit_next blit_first
      header_bytes_def Let_def del: append_assoc append_Cons)

lemma length_header_bytes: "wf_header h \<Longrightarrow> length (header_bytes h n tag) = 64 + length tag"
  by (simp add: header_bytes_def wf_header_def SS_MAGIC_def)

lemma blit_header_tag:
  assumes "wf_header h" "length tag = length tag'"
  shows "blit (header_bytes h n tag) 64 tag' = header_bytes h n tag'"
proof -
  define f where "f = (\<lambda>t. header_bytes h n t)"
  obtain pre where pre: "\<And>t. header_bytes h n t = pre @ t"
    unfolding header_bytes_def by (metis append_assoc)
  have "length pre = 64" using length_header_bytes[OF assms(1), of n "[]"] by (simp add: pre)
  then show ?thesis using assms(2) by (simp add: pre blit_def)
qed

lemma header_bytes_read:
  assumes "wf_header h" "length tag = 32"
  shows "take 4 (header_bytes h n tag @ p) = SS_MAGIC"
    "(header_bytes h n tag @ p) ! 4 = SS_VERSION"
    "drop 64 (header_bytes h n tag @ p) = tag @ p"
    "ss_get_u32 (drop 36 (header_bytes h n tag @ p)) = of_nat n"
    "take 96 (header_bytes h n tag @ p) = header_bytes h n tag"
    "drop 96 (header_bytes h n tag @ p) = p"
  using assms length_header_bytes[OF assms(1), of n tag]
  by (simp_all add: header_bytes_def SS_MAGIC_def wf_header_def get_put_u32)

lemma header_bytes_reserved: "wf_header h \<Longrightarrow> (header_bytes h n tag @ p) ! 23 = 0"
  by (simp add: header_bytes_def SS_MAGIC_def wf_header_def nth_append ss_put_u16_def ss_put_u32_def
      ss_put_u64_def)

lemma read_header_bytes:
  assumes "wf_header h"
  shows "read_header (header_bytes h n tag @ p) = h\<lparr>h_length := of_nat n\<rparr>"
  using assms
  by (cases h) (simp add: read_header_def header_bytes_def SS_MAGIC_def wf_header_def bytes_at_def
      protocol_consts nth_append get_put_u16 get_put_u32 get_put_u64)

subsection \<open>Packing\<close>

lemma ss_pack_eq:
  assumes "wf_header h"
  shows "ss_pack cap h p key =
    (if length p \<le> 1024 \<and> 96 + length p \<le> cap
     then Some (header_bytes h (length p)
       (hmac_spec key (header_bytes h (length p) (replicate 32 0) @ p)) @ p)
     else None)"
proof -
  have "hmac_sha256_final (hmac_sha256_update (hmac_sha256_update (hmac_sha256_init key) x) p) =
      hmac_spec key (x @ p)" for x
    using hmac.final_fold[OF hmac_fed_init, where ds = "[x, p]"] by simp
  then show ?thesis
    using assms by (simp add: ss_pack_def Let_def write_header_bytes protocol_consts
        blit_header_tag hmac.digest_width)
qed

lemma ss_pack_length:
  "wf_header h \<Longrightarrow> ss_pack cap h p key = Some d \<Longrightarrow> length d = 96 + length p"
  by (auto simp: ss_pack_eq length_header_bytes hmac.digest_width split: if_splits)

lemma ss_pack_datagram:
  "wf_header h \<Longrightarrow> ss_pack SS_MAX_DATAGRAM h p key = None \<longleftrightarrow> 1024 < length p"
  by (auto simp: ss_pack_eq protocol_consts)

subsection \<open>Unpacking\<close>

lemma expected_mac_eq:
  assumes "96 \<le> length d"
  shows "expected_mac d key = hmac_spec key (blit (take 96 d) 64 (replicate 32 0) @ drop 96 d)"
  using hmac.final_fold[OF hmac_fed_init, where ds = "[blit (take 96 d) 64 (replicate 32 0), drop 96 d]"]
  by (simp add: expected_mac_def Let_def protocol_consts)

text \<open>Whether a datagram carries the signature of its own bytes.\<close>

definition mac_ok :: "byte list \<Rightarrow> byte list \<Rightarrow> bool" where
  "mac_ok d key \<longleftrightarrow>
     bytes_at d 64 32 = hmac_spec key (blit (take 96 d) 64 (replicate 32 0) @ drop 96 d)"

lemma unpack_mac:
  assumes "96 \<le> length d"
  shows "slotsync_memequal (expected_mac d key) (drop SS_HMAC_OFFSET d) SS_HMAC_SIZE \<longleftrightarrow> mac_ok d key"
  using assms by (auto simp: slotsync_memequal_iff expected_mac_eq hmac.digest_width mac_ok_def
      protocol_consts bytes_at_def)

lemma ss_unpack_cases:
  "ss_unpack d key =
    (if length d < 96 \<or> 1120 < length d then Inl SS_PARSE_SHORT
     else if take 4 d \<noteq> SS_MAGIC then Inl SS_PARSE_BAD_MAGIC
     else if d ! 4 \<noteq> SS_VERSION then Inl SS_PARSE_BAD_VERSION
     else if \<not> mac_ok d key then Inl SS_PARSE_BAD_HMAC
     else if unat (ss_get_u32 (drop 36 d)) \<noteq> length d - 96 then Inl SS_PARSE_BAD_LENGTH
     else Inr (read_header d, drop 96 d))"
proof -
  have "SS_HEADER_SIZE = 96" "SS_MAX_DATAGRAM = 1120" by (simp_all add: protocol_consts)
  then show ?thesis by (cases "96 \<le> length d") (simp_all add: ss_unpack_def unpack_mac)
qed

lemma ss_unpack_Inr:
  "ss_unpack d key = Inr (h, p) \<longleftrightarrow>
     96 \<le> length d \<and> length d \<le> 1120 \<and> take 4 d = SS_MAGIC \<and> d ! 4 = SS_VERSION \<and> mac_ok d key \<and>
     unat (ss_get_u32 (drop 36 d)) = length d - 96 \<and> h = read_header d \<and> p = drop 96 d"
  by (auto simp: ss_unpack_cases)

lemma ss_unpack_payload: "ss_unpack d key = Inr (h, p) \<Longrightarrow> length p \<le> 1024"
  by (auto simp: ss_unpack_Inr)

lemma ss_unpack_wf: "ss_unpack d key = Inr (h, p) \<Longrightarrow> wf_header h"
  by (auto simp: ss_unpack_Inr wf_header_def read_header_def protocol_consts)

lemma ss_unpack_length: "ss_unpack d key = Inr (h, p) \<Longrightarrow> unat (h_length h) = length p"
  by (auto simp: ss_unpack_Inr read_header_def)

lemma mac_ok_packed:
  assumes "wf_header h"
  shows "mac_ok (header_bytes h n (hmac_spec key (header_bytes h n (replicate 32 0) @ p)) @ p) key"
proof -
  let ?t = "hmac_spec key (header_bytes h n (replicate 32 0) @ p)"
  have t: "length ?t = 32" by (rule hmac.digest_width)
  have "blit (header_bytes h n ?t) 64 (replicate 32 0) = header_bytes h n (replicate 32 0)"
    using assms t by (simp add: blit_header_tag)
  then show ?thesis
    using header_bytes_read[OF assms t, of n p] t by (simp add: mac_ok_def bytes_at_def)
qed

lemma ss_unpack_pack:
  assumes wf: "wf_header h" and pack: "ss_pack cap h p key = Some d"
  shows "ss_unpack d key = Inr (h\<lparr>h_length := of_nat (length p)\<rparr>, p)"
proof -
  let ?t = "hmac_spec key (header_bytes h (length p) (replicate 32 0) @ p)"
  have d: "d = header_bytes h (length p) ?t @ p" and lp: "length p \<le> 1024"
    using pack wf by (auto simp: ss_pack_eq split: if_splits)
  have t: "length ?t = 32" by (rule hmac.digest_width)
  have ld: "length d = 96 + length p" using wf pack by (rule ss_pack_length)
  have "unat (of_nat (length p) :: u32) = length p"
    using lp by (intro unat_of_nat_u32) simp
  with lp ld show ?thesis
    unfolding ss_unpack_Inr d
    using header_bytes_read[OF wf t, of "length p" p] mac_ok_packed[OF wf] read_header_bytes[OF wf]
      length_header_bytes[OF wf, of "length p" ?t] t
    by simp
qed

subsection \<open>Every accepted datagram is a packed one\<close>

lemma drop_window: "drop k d = bytes_at d k n @ drop (k + n) d"
  by (simp add: bytes_at_def) (metis append_take_drop_id drop_drop add.commute)

lemma header_windows:
  "take 64 d = take 4 d @ bytes_at d 4 2 @ bytes_at d 6 2 @ bytes_at d 8 8 @ bytes_at d 16 6
     @ bytes_at d 22 2 @ bytes_at d 24 4 @ bytes_at d 28 4 @ bytes_at d 32 4 @ bytes_at d 36 4
     @ bytes_at d 40 4 @ bytes_at d 44 4 @ bytes_at d 48 16"
proof -
  have t: "take (k + n) d = take k d @ bytes_at d k n" for k n
    by (simp add: bytes_at_def take_add)
  show ?thesis
    using t[of 4 2] t[of 6 2] t[of 8 8] t[of 16 6] t[of 22 2] t[of 24 4] t[of 28 4] t[of 32 4]
      t[of 36 4] t[of 40 4] t[of 44 4] t[of 48 16] by simp
qed

lemma bytes_at_2: "k + 2 \<le> length d \<Longrightarrow> bytes_at d k 2 = [d ! k, d ! Suc k]"
  by (rule nth_equalityI) (auto simp: nth_bytes_at less_Suc_eq numeral_2_eq_2)

lemma header_bytes_read_header:
  assumes "96 \<le> length d" "take 4 d = SS_MAGIC" "d ! 23 = 0"
    and n: "unat (ss_get_u32 (drop 36 d)) = n"
  shows "header_bytes (read_header d) n tag = take 64 d @ tag"
proof -
  have two: "bytes_at d 4 2 = [d ! 4, d ! 5]" "bytes_at d 22 2 = [d ! 22, d ! 23]"
    using assms(1) by (simp_all add: bytes_at_2)
  have n': "of_nat n = ss_get_u32 (drop 36 d)" using n by auto
  have get: "ss_put_u32 (ss_get_u32 (drop k d)) = bytes_at d k 4" if "k + 4 \<le> length d" for k
    using that by (simp add: put_get_u32 bytes_at_def)
  have get2: "ss_put_u16 (ss_get_u16 (drop 6 d)) = bytes_at d 6 2"
    and get8: "ss_put_u64 (ss_get_u64 (drop 8 d)) = bytes_at d 8 8"
    using assms(1) by (simp_all add: put_get_u16 put_get_u64 bytes_at_def)
  show ?thesis
    using assms(1-3) two
    by (simp add: header_bytes_def read_header_def header_windows n' get get2 get8 protocol_consts)
qed

text \<open>
  The converse of the round trip: what \<open>ss_unpack\<close> accepts is byte for byte what \<open>ss_pack\<close>
  builds from its fields, if the reserved byte is zero (which nothing checks).
\<close>

lemma ss_pack_unpack:
  assumes u: "ss_unpack d key = Inr (h, p)" and res: "d ! 23 = 0"
  shows "ss_pack SS_MAX_DATAGRAM h p key = Some d"
proof -
  have len: "96 \<le> length d" "length d \<le> 1120" and m: "take 4 d = SS_MAGIC" and mac: "mac_ok d key"
    and n: "unat (ss_get_u32 (drop 36 d)) = length p" and h: "h = read_header d" and p: "p = drop 96 d"
    using u by (auto simp: ss_unpack_Inr)
  have hb: "header_bytes h (length p) tag = take 64 d @ tag" for tag
    unfolding h by (rule header_bytes_read_header[OF len(1) m res n])
  have "blit (take 96 d) 64 (replicate 32 0) = take 64 d @ replicate 32 0"
    using len(1) by (simp add: blit_def)
  then have tag: "hmac_spec key (header_bytes h (length p) (replicate 32 0) @ p) = bytes_at d 64 32"
    unfolding hb unfolding p using mac by (simp add: mac_ok_def)
  have d: "take 64 d @ bytes_at d 64 32 @ p = d"
    unfolding p using drop_window[of 64 d 32] by (metis append_take_drop_id numeral_plus_numeral add_num_simps)
  have lp: "length p \<le> 1024" by (rule ss_unpack_payload[OF u])
  show ?thesis
    unfolding ss_pack_eq[OF ss_unpack_wf[OF u]] tag
    unfolding hb
    using lp d by (simp add: protocol_consts)
qed

subsection \<open>Properties\<close>

text \<open>
  C20: what \<open>ss_pack\<close> builds, \<open>ss_unpack\<close> with the same key accepts, and gives back every
  header field (with \<open>length\<close> the payload's) and the payload.
\<close>

theorem wire_round_trip:
  assumes "wf_header h" "ss_pack cap h p key = Some d"
  shows "ss_unpack d key = Inr (h\<lparr>h_length := of_nat (length p)\<rparr>, p)"
  using assms by (rule ss_unpack_pack)

theorem wire_round_trip_witness:
  "\<exists>d. ss_pack 1120 (ss_header_init SS_HELLO 7 (ascii ''GALE01'') 1) [1, 2, 3] (ascii ''key'') = Some d \<and>
     ss_unpack d (ascii ''key'') =
       Inr ((ss_header_init SS_HELLO 7 (ascii ''GALE01'') 1)\<lparr>h_length := 3\<rparr>, [1, 2, 3])"
proof -
  let ?h = "ss_header_init SS_HELLO 7 (ascii ''GALE01'') 1"
  obtain d where d: "ss_pack 1120 ?h [1, 2, 3] (ascii ''key'') = Some d"
    by (simp add: ss_pack_eq)
  show ?thesis using wire_round_trip[OF wf_header_init d] d by auto
qed

text \<open>
  \<open>ss_unpack\<close> accepts a datagram if and only if its length is in range, magic and version
  are right, the tag is the HMAC of the datagram with a zeroed tag field, and the length field
  counts the body; nothing that fails any of the five reaches a caller as a message.
\<close>

lemma unpack_accepts:
  "(\<exists>h p. ss_unpack d key = Inr (h, p)) \<longleftrightarrow>
     96 \<le> length d \<and> length d \<le> 1120 \<and> take 4 d = SS_MAGIC \<and> d ! 4 = SS_VERSION \<and>
     bytes_at d 64 32 = hmac_spec key (blit (take 96 d) 64 (replicate 32 0) @ drop 96 d) \<and>
     unat (ss_get_u32 (drop 36 d)) = length d - 96"
  by (simp add: ss_unpack_Inr mac_ok_def)

text \<open>
  An accepted datagram is, byte for byte, the one \<open>ss_pack\<close> builds from the header and
  payload that were read (its reserved byte 23, which nothing reads, being zero): the parser has
  no second encoding of a message.
\<close>

lemma unpack_is_packed:
  assumes "ss_unpack d key = Inr (h, p)" "d ! 23 = 0"
  shows "ss_pack SS_MAX_DATAGRAM h p key = Some d"
  using assms by (rule ss_pack_unpack)

end
