(* ===== verification/SS_Client.thy ===== *)
theory SS_Client
  imports SS_Protocol
begin

text \<open>
  \<open>wii/core/client.c\<close>, the exchanges every operation is made of: nonces, sending one signed datagram, waiting
  for an authenticated reply, the retried control exchange, NACKs; and the two operations that
  are a single exchange, \<open>ss_hello\<close> and \<open>ss_head\<close>. Each function takes the client and returns
  its result with the client afterwards.
\<close>

definition SS_PULL_WINDOW :: nat where "SS_PULL_WINDOW = 32"

text \<open>What \<open>recv\<close> returns: a negative value, 0, or the bytes it put into the buffer.\<close>

datatype recv_result = RecvError | RecvTimeout | RecvData "byte list"

text \<open>
  The transport is two function pointers and their context, whose type is a parameter. \<open>tp_send\<close> says whether
  the C function returned a non-negative value; \<open>tp_recv\<close> gets the buffer size and the timeout.
\<close>

record 'x ss_transport =
  tp_send :: "'x \<Rightarrow> byte list \<Rightarrow> bool \<times> 'x"
  tp_recv :: "'x \<Rightarrow> nat \<Rightarrow> int \<Rightarrow> recv_result \<times> 'x"
  tp_ctx :: 'x

record 'x ss_client =
  transport :: "'x ss_transport"
  cl_key :: "byte list"
  cl_device_id :: u64
  cl_nonce_seed :: "byte list"
  cl_nonce_counter :: u64
  cl_timeout_ms :: int
  cl_max_rounds :: int
  cl_pull_window :: int
  cl_last_head :: u32
  cl_last_error_code :: byte
  cl_last_digest :: "byte list"

datatype ss_result =
    SS_OK | SS_ERR_TIMEOUT | SS_ERR_TRANSPORT | SS_ERR_PROTOCOL | SS_ERR_SERVER | SS_ERR_CONFLICT
  | SS_ERR_TOO_BIG | SS_ERR_GAVE_UP

text \<open>Waiting for a reply gives an error or a header with its payload.\<close>

type_synonym reply = "ss_result + ss_header \<times> byte list"

definition next_nonce :: "'x ss_client \<Rightarrow> byte list \<times> 'x ss_client" where
  "next_nonce c =
     (let counter = cl_nonce_counter c + 1
      in (cl_nonce_seed c @ ss_put_u64 counter, c\<lparr>cl_nonce_counter := counter\<rparr>))"

text \<open>\<open>seed = None\<close> is the NULL pointer.\<close>

definition ss_client_init ::
    "'x ss_transport \<Rightarrow> byte list \<Rightarrow> u64 \<Rightarrow> byte list option \<Rightarrow> 'x ss_client" where
  "ss_client_init tp key device_id seed =
     \<lparr>transport = tp, cl_key = key, cl_device_id = device_id,
      cl_nonce_seed = (case seed of None \<Rightarrow> replicate 8 0 | Some s \<Rightarrow> take 8 s),
      cl_nonce_counter = 0, cl_timeout_ms = 2000, cl_max_rounds = 8,
      cl_pull_window = int SS_PULL_WINDOW, cl_last_head = 0, cl_last_error_code = 0,
      cl_last_digest = replicate 32 0\<rparr>"

definition call_send :: "'x ss_client \<Rightarrow> byte list \<Rightarrow> bool \<times> 'x ss_client" where
  "call_send c data =
     (let (ok, x) = tp_send (transport c) (tp_ctx (transport c)) data
      in (ok, c\<lparr>transport := transport c\<lparr>tp_ctx := x\<rparr>\<rparr>))"

definition call_recv :: "'x ss_client \<Rightarrow> recv_result \<times> 'x ss_client" where
  "call_recv c =
     (let (r, x) = tp_recv (transport c) (tp_ctx (transport c)) SS_MAX_DATAGRAM (cl_timeout_ms c)
      in (r, c\<lparr>transport := transport c\<lparr>tp_ctx := x\<rparr>\<rparr>))"

definition emit :: "'x ss_client \<Rightarrow> ss_header \<Rightarrow> byte list \<Rightarrow> ss_result \<times> 'x ss_client" where
  "emit c h payload =
     (let (nonce, c) = next_nonce c
      in case ss_pack SS_MAX_DATAGRAM (h\<lparr>h_nonce := nonce\<rparr>) payload (cl_key c) of
           None \<Rightarrow> (SS_ERR_PROTOCOL, c)
         | Some packed \<Rightarrow>
             let (ok, c) = call_send c packed
             in (if ok then SS_OK else SS_ERR_TRANSPORT, c))"

text \<open>The loop of \<open>await_reply\<close>, with the attempts it has left.\<close>

fun await_attempts :: "nat \<Rightarrow> 'x ss_client \<Rightarrow> reply \<times> 'x ss_client" where
  "await_attempts 0 c = (Inl SS_ERR_TIMEOUT, c)"
| "await_attempts (Suc n) c =
     (let (r, c) = call_recv c
      in case r of
           RecvError \<Rightarrow> (Inl SS_ERR_TRANSPORT, c)
         | RecvTimeout \<Rightarrow> (Inl SS_ERR_TIMEOUT, c)
         | RecvData d \<Rightarrow>
             (case ss_unpack d (cl_key c) of
                Inr hp \<Rightarrow> (Inr hp, c)
              | Inl e \<Rightarrow> await_attempts n c))"

definition await_reply :: "'x ss_client \<Rightarrow> reply \<times> 'x ss_client" where
  "await_reply c = await_attempts 16 c"

fun exchange_attempts :: "nat \<Rightarrow> 'x ss_client \<Rightarrow> ss_header \<Rightarrow> byte list \<Rightarrow> reply \<times> 'x ss_client" where
  "exchange_attempts 0 c h payload = (Inl SS_ERR_TIMEOUT, c)"
| "exchange_attempts (Suc n) c h payload =
     (let (rc, c) = emit c h payload
      in if rc \<noteq> SS_OK then (Inl rc, c)
         else let (r, c) = await_reply c
              in if r \<noteq> Inl SS_ERR_TIMEOUT then (r, c) else exchange_attempts n c h payload)"

definition control_exchange :: "'x ss_client \<Rightarrow> ss_header \<Rightarrow> byte list \<Rightarrow> reply \<times> 'x ss_client" where
  "control_exchange c h payload = exchange_attempts (nat (cl_max_rounds c)) c h payload"

definition note_nack :: "'x ss_client \<Rightarrow> ss_header \<Rightarrow> byte list \<Rightarrow> ss_result \<times> 'x ss_client" where
  "note_nack c h payload =
     (let code = (if 0 < length payload then payload ! 0 else 0);
          c = c\<lparr>cl_last_error_code := code\<rparr>
      in if code = SS_NACK_CONFLICT then (SS_ERR_CONFLICT, c\<lparr>cl_last_head := h_card_version h\<rparr>)
         else (SS_ERR_SERVER, c))"

text \<open>The server's clock and version, when the reply carries them.\<close>

definition ss_hello :: "'x ss_client \<Rightarrow> ss_result \<times> (u64 \<times> byte) option \<times> 'x ss_client" where
  "ss_hello c =
     (let out = ss_header_init SS_HELLO (cl_device_id c) [] 0;
          (r, c) = control_exchange c out []
      in case r of
           Inl rc \<Rightarrow> (rc, None, c)
         | Inr (h, payload) \<Rightarrow>
             if h_msg_type h = SS_NACK then (let (rc, c) = note_nack c h payload in (rc, None, c))
             else if h_msg_type h \<noteq> SS_ACK then (SS_ERR_PROTOCOL, None, c)
             else if 9 \<le> length payload then (SS_OK, Some (ss_get_u64 payload, payload ! 8), c)
             else (SS_OK, None, c))"

text \<open>On success the head version and the card's size.\<close>

definition ss_head :: "'x ss_client \<Rightarrow> byte list \<Rightarrow> byte \<Rightarrow> ss_result \<times> (u32 \<times> u32) option \<times> 'x ss_client" where
  "ss_head c game_id slot =
     (let h = ss_header_init SS_PULL_REQ (cl_device_id c) game_id slot;
          (r, c) = control_exchange c h (replicate 8 0)
      in case r of
           Inl rc \<Rightarrow> (rc, None, c)
         | Inr (h, payload) \<Rightarrow>
             if h_msg_type h = SS_NACK then (let (rc, c) = note_nack c h payload in (rc, None, c))
             else if h_msg_type h \<noteq> SS_ACK then (SS_ERR_PROTOCOL, None, c)
             else (SS_OK, Some (h_card_version h, h_total_size h), c))"

text \<open>The text for a result code and for a NACK code.\<close>

fun ss_strerror :: "ss_result \<Rightarrow> string" where
  "ss_strerror SS_OK = ''ok''"
| "ss_strerror SS_ERR_TIMEOUT = ''timed out''"
| "ss_strerror SS_ERR_TRANSPORT = ''network error''"
| "ss_strerror SS_ERR_PROTOCOL = ''unexpected reply''"
| "ss_strerror SS_ERR_SERVER = ''server refused''"
| "ss_strerror SS_ERR_CONFLICT = ''conflict: someone else changed this card''"
| "ss_strerror SS_ERR_TOO_BIG = ''card too large for the buffer''"
| "ss_strerror SS_ERR_GAVE_UP = ''gave up retransmitting''"

definition ss_strerror_nack :: "byte \<Rightarrow> string" where
  "ss_strerror_nack code =
     (if code = 0x01 then ''bad hmac (wrong pre-shared key?)''
      else if code = 0x02 then ''unsupported protocol version''
      else if code = 0x03 then ''malformed header''
      else if code = SS_NACK_UNKNOWN_CARD then ''no such card on the server''
      else if code = SS_NACK_CONFLICT then ''conflict: parent is not head''
      else if code = SS_NACK_MISSING_CHUNKS then ''missing chunks''
      else if code = SS_NACK_CHECKSUM then ''checksum mismatch''
      else if code = 0x08 then ''card failed format validation''
      else if code = 0x09 then ''card too large''
      else if code = 0x0A then ''rate limited''
      else if code = SS_NACK_STAGING_EXPIRED then ''staging buffer expired''
      else ''unknown NACK'')"

subsection \<open>What a client sends\<close>

text \<open>A message as the operations hand it to \<open>emit\<close>: packable whatever its nonce.\<close>

definition wf_message :: "ss_header \<times> byte list \<Rightarrow> bool" where
  "wf_message m \<longleftrightarrow> h_version (fst m) = SS_VERSION \<and> length (h_game_id (fst m)) = 6 \<and> length (snd m) \<le> 1024"

text \<open>The nonce of the \<open>k\<close>-th message a client sends from now, and that message's datagram.\<close>

definition nonce_at :: "'x ss_client \<Rightarrow> nat \<Rightarrow> byte list" where
  "nonce_at c k = cl_nonce_seed c @ ss_put_u64 (cl_nonce_counter c + of_nat (Suc k))"

definition datagram :: "'x ss_client \<Rightarrow> nat \<Rightarrow> ss_header \<times> byte list \<Rightarrow> byte list" where
  "datagram c k m = the (ss_pack SS_MAX_DATAGRAM ((fst m)\<lparr>h_nonce := nonce_at c k\<rparr>) (snd m) (cl_key c))"

definition datagrams :: "'x ss_client \<Rightarrow> (ss_header \<times> byte list) list \<Rightarrow> byte list list" where
  "datagrams c ms = map (\<lambda>k. datagram c k (ms ! k)) [0..<length ms]"

text \<open>The client \<open>n\<close> messages later: only counter, context and report fields may differ.\<close>

definition follows :: "'x ss_client \<Rightarrow> 'x ss_client \<Rightarrow> nat \<Rightarrow> bool" where
  "follows c c' n \<longleftrightarrow>
     tp_send (transport c') = tp_send (transport c) \<and> tp_recv (transport c') = tp_recv (transport c) \<and>
     cl_key c' = cl_key c \<and> cl_device_id c' = cl_device_id c \<and> cl_nonce_seed c' = cl_nonce_seed c \<and>
     cl_timeout_ms c' = cl_timeout_ms c \<and> cl_max_rounds c' = cl_max_rounds c \<and>
     cl_pull_window c' = cl_pull_window c \<and> cl_nonce_counter c' = cl_nonce_counter c + of_nat n"

lemma follows_refl [simp]: "follows c c 0"
  by (simp add: follows_def)

lemma follows_trans: "follows c c1 m \<Longrightarrow> follows c1 c2 n \<Longrightarrow> follows c c2 (m + n)"
  by (simp add: follows_def)

lemma nonce_at_follows: "follows c c' n \<Longrightarrow> nonce_at c' k = nonce_at c (n + k)"
  by (simp add: follows_def nonce_at_def add_ac)

lemma datagram_follows: "follows c c' n \<Longrightarrow> datagram c' k m = datagram c (n + k) m"
  by (simp add: datagram_def nonce_at_follows) (simp add: follows_def)

lemma length_datagrams [simp]: "length (datagrams c ms) = length ms"
  by (simp add: datagrams_def)

lemma datagrams_Nil [simp]: "datagrams c [] = []"
  by (simp add: datagrams_def)

lemma datagrams_append:
  assumes "follows c c' (length ms)"
  shows "datagrams c (ms @ ns) = datagrams c ms @ datagrams c' ns"
proof (rule nth_equalityI)
  fix i assume "i < length (datagrams c (ms @ ns))"
  then show "datagrams c (ms @ ns) ! i = (datagrams c ms @ datagrams c' ns) ! i"
    using datagram_follows[OF assms] by (auto simp: datagrams_def nth_append)
qed simp

lemma follows_call_recv: "follows c (snd (call_recv c)) 0"
  by (simp add: call_recv_def follows_def split: prod.split)

lemma follows_note_nack: "follows c (snd (note_nack c h p)) 0"
  by (simp add: note_nack_def follows_def Let_def)

lemma follows_await_attempts: "follows c (snd (await_attempts n c)) 0"
proof (induction n arbitrary: c)
  case (Suc n)
  obtain r c1 where r: "call_recv c = (r, c1)" by fastforce
  then have "follows c c1 0" using follows_call_recv[of c] by simp
  moreover have "follows c1 (snd (await_attempts n c1)) 0" by (rule Suc.IH)
  ultimately show ?case
    using follows_trans[of c c1 0 "snd (await_attempts n c1)" 0]
    by (auto simp: r split: recv_result.split sum.split)
qed simp

text \<open>What \<open>emit\<close> hands the transport, and what it makes of the answer.\<close>

lemma emit_eq:
  assumes "length (cl_nonce_seed c) = 8" "wf_message (h, p)"
  shows "emit c h p = (let (ok, x) = tp_send (transport c) (tp_ctx (transport c)) (datagram c 0 (h, p))
      in (if ok then SS_OK else SS_ERR_TRANSPORT,
          c\<lparr>cl_nonce_counter := cl_nonce_counter c + 1, transport := transport c\<lparr>tp_ctx := x\<rparr>\<rparr>))"
    "length (datagram c 0 (h, p)) \<le> SS_MAX_DATAGRAM"
proof -
  let ?h = "h\<lparr>h_nonce := nonce_at c 0\<rparr>"
  have n: "next_nonce c = (nonce_at c 0, c\<lparr>cl_nonce_counter := cl_nonce_counter c + 1\<rparr>)"
    by (simp add: next_nonce_def nonce_at_def Let_def)
  have w: "wf_header ?h" using assms by (simp add: wf_header_def wf_message_def nonce_at_def)
  then have "ss_pack SS_MAX_DATAGRAM ?h p (cl_key c) \<noteq> None"
    using assms(2) ss_pack_datagram[of ?h p "cl_key c"] by (simp add: wf_message_def)
  then have d: "ss_pack SS_MAX_DATAGRAM ?h p (cl_key c) = Some (datagram c 0 (h, p))"
    by (auto simp: datagram_def)
  show "length (datagram c 0 (h, p)) \<le> SS_MAX_DATAGRAM"
    using ss_pack_length[OF w d] assms(2) by (simp add: wf_message_def protocol_consts)
  show "emit c h p = (let (ok, x) = tp_send (transport c) (tp_ctx (transport c)) (datagram c 0 (h, p))
      in (if ok then SS_OK else SS_ERR_TRANSPORT,
          c\<lparr>cl_nonce_counter := cl_nonce_counter c + 1, transport := transport c\<lparr>tp_ctx := x\<rparr>\<rparr>))"
    by (simp add: emit_def n d call_send_def Let_def split: prod.split)
qed

text \<open>
  A transport that keeps a record of what was sent through it: while it is usable, sending appends a datagram, receiving changes
  nothing, and both leave it usable. What the operations send is proved for every such transport.
\<close>

locale logged_transport =
  fixes send :: "'x \<Rightarrow> byte list \<Rightarrow> bool \<times> 'x"
    and recv :: "'x \<Rightarrow> nat \<Rightarrow> int \<Rightarrow> recv_result \<times> 'x"
    and log :: "'x \<Rightarrow> byte list list"
    and usable :: "'x \<Rightarrow> bool"
  assumes log_send: "usable x \<Longrightarrow> length d \<le> SS_MAX_DATAGRAM \<Longrightarrow> log (snd (send x d)) = log x @ [d] \<and> usable (snd (send x d))"
    and log_recv: "usable x \<Longrightarrow> log (snd (recv x n t)) = log x \<and> usable (snd (recv x n t))"
begin

text \<open>A client on this transport, and the record it has.\<close>

definition ready :: "'x ss_client \<Rightarrow> bool" where
  "ready c \<longleftrightarrow> tp_send (transport c) = send \<and> tp_recv (transport c) = recv \<and> length (cl_nonce_seed c) = 8 \<and>
     usable (tp_ctx (transport c))"

definition sent :: "'x ss_client \<Rightarrow> byte list list" where
  "sent c = log (tp_ctx (transport c))"

definition emitted :: "'x ss_client \<Rightarrow> 'x ss_client \<Rightarrow> (ss_header \<times> byte list) list \<Rightarrow> bool" where
  "emitted c c' ms \<longleftrightarrow> ready c' \<and> follows c c' (length ms) \<and> sent c' = sent c @ datagrams c ms"

lemma emitted_refl: "ready c \<Longrightarrow> emitted c c []"
  by (simp add: emitted_def)

lemma emitted_trans: "emitted c c1 ms \<Longrightarrow> emitted c1 c2 ns \<Longrightarrow> emitted c c2 (ms @ ns)"
  using follows_trans[of c c1 "length ms" c2 "length ns"] datagrams_append[of c c1 ms ns]
  by (simp add: emitted_def)

lemma emitted_ready: "emitted c c' ms \<Longrightarrow> ready c'"
  by (simp add: emitted_def)

lemma emitted_follows: "emitted c c' ms \<Longrightarrow> follows c c' (length ms)"
  by (simp add: emitted_def)

lemma emit_emitted:
  assumes "ready c" "wf_message (h, p)"
  shows "emitted c (snd (emit c h p)) [(h, p)]" "fst (emit c h p) \<in> {SS_OK, SS_ERR_TRANSPORT}"
proof -
  have r: "length (cl_nonce_seed c) = 8" using assms(1) by (simp add: ready_def)
  obtain ok x where s: "send (tp_ctx (transport c)) (datagram c 0 (h, p)) = (ok, x)" by fastforce
  show "emitted c (snd (emit c h p)) [(h, p)]"
    using assms(1) log_send[OF _ emit_eq(2)[OF r assms(2)], of "tp_ctx (transport c)"] s
    by (simp add: emit_eq(1)[OF r assms(2)] emitted_def ready_def follows_def sent_def datagrams_def)
  show "fst (emit c h p) \<in> {SS_OK, SS_ERR_TRANSPORT}"
    by (simp add: emit_eq(1)[OF r assms(2)] split: prod.split)
qed

lemma call_recv_emitted: "ready c \<Longrightarrow> emitted c (snd (call_recv c)) []"
  using log_recv[of "tp_ctx (transport c)" SS_MAX_DATAGRAM "cl_timeout_ms c"] follows_call_recv[of c]
  by (simp add: emitted_def ready_def sent_def call_recv_def split: prod.splits)

lemma await_attempts_emitted: "ready c \<Longrightarrow> emitted c (snd (await_attempts n c)) []"
proof (induction n arbitrary: c)
  case 0
  then show ?case by (simp add: emitted_refl)
next
  case (Suc n)
  obtain r c1 where r: "call_recv c = (r, c1)" by fastforce
  have e: "emitted c c1 []" using call_recv_emitted[OF Suc.prems] by (simp add: r)
  have "emitted c (snd (await_attempts n c1)) []"
    using emitted_trans[OF e Suc.IH[OF emitted_ready[OF e]]] by simp
  with e show ?case by (auto simp: r split: recv_result.split sum.split)
qed

lemma await_reply_emitted: "ready c \<Longrightarrow> emitted c (snd (await_reply c)) []"
  by (simp add: await_reply_def await_attempts_emitted)

lemma note_nack_emitted: "ready c \<Longrightarrow> emitted c (snd (note_nack c h p)) []"
  using follows_note_nack[of c h p] by (simp add: emitted_def ready_def sent_def note_nack_def Let_def)

lemma exchange_emitted:
  assumes "ready c" "wf_message (h, p)"
  shows "\<exists>k. emitted c (snd (exchange_attempts n c h p)) (replicate k (h, p)) \<and> k \<le> n \<and>
    (fst (exchange_attempts n c h p) = Inl SS_ERR_TIMEOUT \<or> 0 < k)"
  using assms(1)
proof (induction n arbitrary: c)
  case 0
  then show ?case by (auto simp: emitted_refl)
next
  case (Suc n)
  obtain rc c1 where e: "emit c h p = (rc, c1)" by fastforce
  obtain r c2 where a: "await_reply c1 = (r, c2)" by fastforce
  have 1: "emitted c c1 [(h, p)]" using emit_emitted(1)[OF Suc.prems assms(2)] by (simp add: e)
  have 2: "emitted c c2 [(h, p)]"
    using emitted_trans[OF 1] await_reply_emitted[OF emitted_ready[OF 1]] by (fastforce simp: a)
  obtain k where k: "emitted c2 (snd (exchange_attempts n c2 h p)) (replicate k (h, p))" "k \<le> n"
    using Suc.IH[OF emitted_ready[OF 2]] by blast
  have 3: "emitted c (snd (exchange_attempts n c2 h p)) (replicate (Suc k) (h, p))"
    using emitted_trans[OF 2 k(1)] by simp
  have one: "[(h, p)] = replicate 1 (h, p)" by simp
  show ?case
  proof (cases "rc = SS_OK \<and> r = Inl SS_ERR_TIMEOUT")
    case True
    then show ?thesis using 3 k(2) by (intro exI[of _ "Suc k"]) (simp add: e a)
  next
    case False
    then show ?thesis using 1 2 unfolding one by (intro exI[of _ 1]) (auto simp: e a)
  qed
qed

lemma control_exchange_emitted:
  assumes "ready c" "wf_message (h, p)" "control_exchange c h p = (r, c')"
  obtains k where "emitted c c' (replicate k (h, p))" "k \<le> nat (cl_max_rounds c)"
    "r = Inl SS_ERR_TIMEOUT \<or> 0 < k"
  using exchange_emitted[OF assms(1,2), of "nat (cl_max_rounds c)"] assms(3)
  by (auto simp: control_exchange_def)

end

text \<open>
  The general environment: the context is the history of the session, and what comes back (whether a send is
  accepted, what the next receive yields) is any function of that history.
\<close>

datatype event = Sent "byte list" | Got recv_result

fun sent_of :: "event list \<Rightarrow> byte list list" where
  "sent_of [] = []"
| "sent_of (Sent d # es) = d # sent_of es"
| "sent_of (Got r # es) = sent_of es"

definition net_send :: "(event list \<Rightarrow> byte list \<Rightarrow> bool) \<Rightarrow> event list \<Rightarrow> byte list \<Rightarrow> bool \<times> event list" where
  "net_send accepts es d = (accepts es d, es @ [Sent d])"

definition net_recv ::
    "(event list \<Rightarrow> recv_result) \<Rightarrow> event list \<Rightarrow> nat \<Rightarrow> int \<Rightarrow> recv_result \<times> event list" where
  "net_recv delivers es n t = (delivers es, es @ [Got (delivers es)])"

definition net_transport ::
    "(event list \<Rightarrow> byte list \<Rightarrow> bool) \<Rightarrow> (event list \<Rightarrow> recv_result) \<Rightarrow> event list \<Rightarrow> event list ss_transport" where
  "net_transport accepts delivers es =
     \<lparr>tp_send = net_send accepts, tp_recv = net_recv delivers, tp_ctx = es\<rparr>"

lemma sent_of_append: "sent_of (xs @ ys) = sent_of xs @ sent_of ys"
  by (induction xs rule: sent_of.induct) simp_all

interpretation net: logged_transport "net_send accepts" "net_recv delivers" sent_of "\<lambda>_. True" for accepts delivers
  by unfold_locales (simp_all add: net_send_def net_recv_def sent_of_append)

lemma net_ready:
  "transport c = net_transport accepts delivers es \<Longrightarrow> length (cl_nonce_seed c) = 8 \<Longrightarrow>
   net.ready accepts delivers c"
  by (simp add: net.ready_def net_transport_def)

lemma net_emitted:
  "net.emitted accepts delivers c c' ms \<Longrightarrow> transport c = net_transport accepts delivers es \<Longrightarrow>
   sent_of (tp_ctx (transport c')) = sent_of es @ datagrams c ms"
  by (simp add: net.emitted_def net.sent_def net_transport_def)

subsection \<open>Nonces\<close>

lemma header_bytes_nonce:
  assumes "wf_header h" "length tag = 32"
  shows "bytes_at (header_bytes h n tag @ p) 48 16 = h_nonce h"
  using assms by (simp add: header_bytes_def bytes_at_def wf_header_def SS_MAGIC_def)

lemma datagram_nonce:
  assumes "wf_message m" "length (cl_nonce_seed c) = 8"
  shows "bytes_at (datagram c k m) 48 16 = nonce_at c k"
proof -
  let ?h = "(fst m)\<lparr>h_nonce := nonce_at c k\<rparr>"
  have wf: "wf_header ?h" using assms by (simp add: wf_header_def wf_message_def nonce_at_def)
  show ?thesis
    using assms(1) header_bytes_nonce[OF wf hmac.digest_width]
    by (simp add: datagram_def ss_pack_eq[OF wf] wf_message_def protocol_consts)
qed

lemma nonce_at_inj:
  assumes "j < 2 ^ 64" "k < 2 ^ 64"
  shows "nonce_at c j = nonce_at c k \<longleftrightarrow> j = k"
proof -
  have "unat (of_nat j :: u64) = j" "unat (of_nat k :: u64) = k"
    using assms by (simp_all add: unat_of_nat take_bit_eq_mod)
  then have "(of_nat j :: u64) = of_nat k \<longleftrightarrow> j = k" by metis
  then show ?thesis by (simp add: nonce_at_def u64.put_inj)
qed

lemma datagrams_nonces:
  assumes "list_all wf_message ms" "length (cl_nonce_seed c) = 8" "length ms < 2 ^ 64"
  shows "map (\<lambda>d. bytes_at d 48 16) (datagrams c ms) = map (nonce_at c) [0..<length ms]"
    and "distinct (map (\<lambda>d. bytes_at d 48 16) (datagrams c ms))"
proof -
  show eq: "map (\<lambda>d. bytes_at d 48 16) (datagrams c ms) = map (nonce_at c) [0..<length ms]"
    using assms(1,2) by (intro nth_equalityI) (simp_all add: datagrams_def datagram_nonce list_all_length)
  show "distinct (map (\<lambda>d. bytes_at d 48 16) (datagrams c ms))"
    unfolding eq distinct_map
  proof (intro conjI inj_onI)
    fix i j assume "i \<in> set [0..<length ms]" "j \<in> set [0..<length ms]" "nonce_at c i = nonce_at c j"
    then show "i = j" using assms(3) nonce_at_inj[of i j c] by simp
  qed simp
qed

text \<open>What an exchange's datagram says once it is unpacked: its own header and payload.\<close>

lemma unpack_datagram:
  assumes "wf_message m" "length (cl_nonce_seed c) = 8"
  shows "ss_unpack (datagram c k m) (cl_key c) =
    Inr ((fst m)\<lparr>h_nonce := nonce_at c k, h_length := of_nat (length (snd m))\<rparr>, snd m)"
proof -
  let ?h = "(fst m)\<lparr>h_nonce := nonce_at c k\<rparr>"
  have wf: "wf_header ?h" using assms by (simp add: wf_header_def wf_message_def nonce_at_def)
  obtain d where d: "ss_pack SS_MAX_DATAGRAM ?h (snd m) (cl_key c) = Some d"
    using ss_pack_datagram[OF wf, of "snd m" "cl_key c"] assms(1) by (auto simp: wf_message_def)
  show ?thesis using ss_unpack_pack[OF wf d] by (simp add: datagram_def d)
qed

lemma wf_message_init [simp]:
  "wf_message (ss_header_init t d g s, p) \<longleftrightarrow> length p \<le> 1024"
  "wf_message ((ss_header_init t d g s)\<lparr>h_card_version := v, h_sequence := q\<rparr>, p) \<longleftrightarrow> length p \<le> 1024"
  "wf_message ((ss_header_init t d g s)\<lparr>h_card_version := v, h_offset := z, h_sequence := q, h_total_size := n\<rparr>, p)
     \<longleftrightarrow> length p \<le> 1024"
  "wf_message ((ss_header_init t d g s)\<lparr>h_card_version := v, h_total_size := n, h_sequence := q\<rparr>, p) \<longleftrightarrow> length p \<le> 1024"
  "wf_message ((ss_header_init t d g s)\<lparr>h_flags := f, h_card_version := v, h_parent_version := r, h_total_size := n\<rparr>, p)
     \<longleftrightarrow> length p \<le> 1024"
  "wf_message ((ss_header_init t d g s)\<lparr>h_card_version := v, h_parent_version := r, h_total_size := n\<rparr>, p)
     \<longleftrightarrow> length p \<le> 1024"
  by (simp_all add: wf_message_def ss_header_init_def)

subsection \<open>Hello and head\<close>

lemma await_not_OK: "fst (await_attempts n c) \<noteq> Inl SS_OK"
  by (induction n c rule: await_attempts.induct) (auto split: prod.split recv_result.split sum.split)

lemma exchange_not_OK: "fst (exchange_attempts n c h p) \<noteq> Inl SS_OK"
proof (induction n arbitrary: c)
  case (Suc n)
  obtain rc c1 where e: "emit c h p = (rc, c1)" by fastforce
  obtain r c2 where a: "await_reply c1 = (r, c2)" by fastforce
  have "r \<noteq> Inl SS_OK" using await_not_OK[of 16 c1] a by (simp add: await_reply_def)
  then show ?case using Suc[of c2] by (simp add: e a)
qed simp

lemma control_exchange_not_OK: "fst (control_exchange c h p) \<noteq> Inl SS_OK"
  by (simp add: control_exchange_def exchange_not_OK)

lemma ss_head_emitted:
  assumes c: "net.ready accepts delivers c" and e: "ss_head c g s = (rc, out, c')"
  shows "\<exists>k. net.emitted accepts delivers c c'
      (replicate k (ss_header_init SS_PULL_REQ (cl_device_id c) g s, replicate 8 0)) \<and>
    k \<le> nat (cl_max_rounds c) \<and> (rc = SS_OK \<longrightarrow> 0 < k)"
proof -
  let ?m = "(ss_header_init SS_PULL_REQ (cl_device_id c) g s, replicate 8 0 :: byte list)"
  obtain r c1 where x: "control_exchange c (fst ?m) (snd ?m) = (r, c1)" by fastforce
  obtain k where k: "net.emitted accepts delivers c c1 (replicate k ?m)" "k \<le> nat (cl_max_rounds c)"
    "r = Inl SS_ERR_TIMEOUT \<or> 0 < k"
    using net.control_exchange_emitted[OF c _ x] by auto
  have nn: "net.emitted accepts delivers c (snd (note_nack c1 h p)) (replicate k ?m)" for h p
    using net.emitted_trans[OF k(1) net.note_nack_emitted[OF net.emitted_ready[OF k(1)]]] by simp
  have nz: "fst (note_nack c1 h p) \<noteq> SS_OK" for h p by (simp add: note_nack_def Let_def)
  have "(c' = c1 \<or> (\<exists>h p. c' = snd (note_nack c1 h p))) \<and> (rc = SS_OK \<longrightarrow> r \<noteq> Inl SS_ERR_TIMEOUT)"
  proof (cases r)
    case (Inl a)
    have "a \<noteq> SS_OK" using x Inl control_exchange_not_OK[of c "fst ?m" "snd ?m"] by auto
    with e x Inl show ?thesis by (auto simp: ss_head_def Let_def)
  next
    case (Inr hp)
    obtain h p where hp: "hp = (h, p)" by (cases hp)
    obtain a c2 where n: "note_nack c1 h p = (a, c2)" by fastforce
    have "snd (note_nack c1 h p) = c2" by (simp add: n)
    then have "\<exists>h p. c2 = snd (note_nack c1 h p)" by metis
    with e x Inr show ?thesis by (auto simp: ss_head_def Let_def hp n split: if_splits)
  qed
  then show ?thesis using k nn by auto
qed

lemma follows_emit: "emit c h p = (rc, c') \<Longrightarrow> follows c c' 1"
  by (auto simp: emit_def next_nonce_def call_send_def follows_def Let_def split: option.splits prod.splits)

lemma follows_await_reply: "await_reply c = (r, c') \<Longrightarrow> follows c c' 0"
  using follows_await_attempts[of c 16] by (simp add: await_reply_def)

text \<open>What every receive of a transport can yield, an awaited reply is.\<close>

definition replies :: "'x ss_client \<Rightarrow> (ss_header \<Rightarrow> byte list \<Rightarrow> bool) \<Rightarrow> bool" where
  "replies c P \<longleftrightarrow> (\<forall>x n t d h p. fst (tp_recv (transport c) x n t) = RecvData d \<longrightarrow>
     ss_unpack d (cl_key c) = Inr (h, p) \<longrightarrow> P h p)"

lemma replies_follows: "replies c P \<Longrightarrow> follows c c' n \<Longrightarrow> replies c' P"
  unfolding replies_def follows_def by metis

lemma replies_await_attempts: "replies c P \<Longrightarrow> await_attempts n c = (Inr (h, p), c') \<Longrightarrow> P h p"
proof (induction n arbitrary: c)
  case (Suc n)
  obtain r c1 where r: "call_recv c = (r, c1)" by fastforce
  have f: "follows c c1 0" using follows_call_recv[of c] by (simp add: r)
  have key: "cl_key c1 = cl_key c" using f by (simp add: follows_def)
  obtain d where d: "r = RecvData d" using Suc.prems(2) by (cases r) (auto simp: r)
  have rv: "fst (tp_recv (transport c) (tp_ctx (transport c)) SS_MAX_DATAGRAM (cl_timeout_ms c)) = RecvData d"
    using r d by (auto simp: call_recv_def split: prod.splits)
  show ?case
  proof (cases "ss_unpack d (cl_key c1)")
    case (Inl e)
    then show ?thesis using Suc.prems(2) Suc.IH[OF replies_follows[OF Suc.prems(1) f]] r d by simp
  next
    case (Inr hp)
    then have "ss_unpack d (cl_key c) = Inr (h, p)" using Suc.prems(2) r d key by simp
    then show ?thesis using Suc.prems(1) rv unfolding replies_def by blast
  qed
qed simp

lemma replies_await: "replies c P \<Longrightarrow> await_reply c = (Inr (h, p), c') \<Longrightarrow> P h p"
  unfolding await_reply_def by (rule replies_await_attempts)

text \<open>No exchange changes the function pointers or what is left for the caller; \<open>note_nack\<close> keeps all but the report.\<close>

definition kept :: "'x ss_client \<Rightarrow> ('x \<Rightarrow> nat \<Rightarrow> int \<Rightarrow> recv_result \<times> 'x) \<times> byte list" where
  "kept c = (tp_recv (transport c), cl_last_digest c)"

definition reported :: "'x ss_client \<Rightarrow> u32 \<times> byte" where
  "reported c = (cl_last_head c, cl_last_error_code c)"

lemma emit_keeps: "emit c h p = (rc, c') \<Longrightarrow> kept c' = kept c \<and> reported c' = reported c"
  by (auto simp: emit_def next_nonce_def call_send_def kept_def reported_def Let_def split: option.splits prod.splits)

lemma call_recv_keeps: "call_recv c = (r, c') \<Longrightarrow> kept c' = kept c \<and> reported c' = reported c"
  by (auto simp: call_recv_def kept_def reported_def split: prod.splits)

lemma await_attempts_keeps: "await_attempts n c = (r, c') \<Longrightarrow> kept c' = kept c \<and> reported c' = reported c"
proof (induction n arbitrary: c)
  case (Suc n)
  obtain r1 c1 where c1: "call_recv c = (r1, c1)" by fastforce
  show ?case
    using Suc.prems Suc.IH[of c1] call_recv_keeps[OF c1] by (auto simp: c1 split: recv_result.splits sum.splits)
qed simp

lemma await_reply_keeps: "await_reply c = (r, c') \<Longrightarrow> kept c' = kept c \<and> reported c' = reported c"
  unfolding await_reply_def by (rule await_attempts_keeps)

lemma exchange_keeps: "exchange_attempts n c h p = (r, c') \<Longrightarrow> kept c' = kept c \<and> reported c' = reported c"
proof (induction n arbitrary: c)
  case (Suc n)
  obtain rc c1 where e: "emit c h p = (rc, c1)" by fastforce
  obtain r2 c2 where a: "await_reply c1 = (r2, c2)" by fastforce
  show ?case
    using Suc.prems Suc.IH[of c2] emit_keeps[OF e] await_reply_keeps[OF a]
    by (auto simp: e a split: if_splits)
qed simp

lemma control_exchange_keeps: "control_exchange c h p = (r, c') \<Longrightarrow> kept c' = kept c \<and> reported c' = reported c"
  unfolding control_exchange_def by (rule exchange_keeps)

lemma note_nack_kept: "note_nack c h p = (rc, c') \<Longrightarrow> kept c' = kept c"
  by (auto simp: note_nack_def kept_def Let_def split: if_splits)

lemmas emit_kept = emit_keeps[THEN conjunct1]
  and await_reply_kept = await_reply_keeps[THEN conjunct1]
  and control_exchange_kept = control_exchange_keeps[THEN conjunct1]

lemma ss_hello_reported:
  assumes "ss_hello c = (SS_OK, out, c')"
  shows "reported c' = reported c"
proof -
  obtain r c1 where x: "control_exchange c (ss_header_init SS_HELLO (cl_device_id c) [] 0) [] = (r, c1)" by fastforce
  have nn: "fst (note_nack c1 h p) \<noteq> SS_OK" for h p by (simp add: note_nack_def Let_def)
  have "r \<noteq> Inl SS_OK" using control_exchange_not_OK x by (metis fst_conv)
  then have "c' = c1"
    using assms nn by (auto simp: ss_hello_def x split: sum.splits prod.splits if_splits) (metis fst_conv)+
  then show ?thesis using control_exchange_keeps[OF x] by simp
qed

lemma ss_head_kept: "ss_head c g s = (rc, out, c') \<Longrightarrow> kept c' = kept c"
  by (auto simp: ss_head_def Let_def split: prod.splits sum.splits if_splits
      dest!: control_exchange_kept note_nack_kept)

lemmas exchanges_kept = emit_kept await_reply_kept note_nack_kept control_exchange_kept

subsection \<open>Environments that repeat one reply\<close>

text \<open>
  Every send is accepted and every receive yields the same datagram, which authenticates as \<open>(h, p)\<close>: a duplicate
  of a reply that was already answered is one, and so is a server that never stops.
\<close>

definition echoing :: "'x ss_client \<Rightarrow> ss_header \<Rightarrow> byte list \<Rightarrow> bool" where
  "echoing c h p \<longleftrightarrow> length (cl_nonce_seed c) = 8 \<and>
     (\<exists>G d. G (tp_ctx (transport c)) \<and> ss_unpack d (cl_key c) = Inr (h, p) \<and>
        (\<forall>x m. G x \<and> length m \<le> SS_MAX_DATAGRAM \<longrightarrow> fst (tp_send (transport c) x m) \<and> G (snd (tp_send (transport c) x m))) \<and>
        (\<forall>x t. G x \<longrightarrow> fst (tp_recv (transport c) x SS_MAX_DATAGRAM t) = RecvData d \<and>
           G (snd (tp_recv (transport c) x SS_MAX_DATAGRAM t))))"

lemma echoing_follows:
  assumes "echoing c h p" "follows c c' n"
    and "\<And>G. G (tp_ctx (transport c)) \<Longrightarrow>
      \<forall>x m. G x \<and> length m \<le> SS_MAX_DATAGRAM \<longrightarrow> fst (tp_send (transport c) x m) \<and> G (snd (tp_send (transport c) x m)) \<Longrightarrow>
      \<forall>x t. G x \<longrightarrow> G (snd (tp_recv (transport c) x SS_MAX_DATAGRAM t)) \<Longrightarrow> G (tp_ctx (transport c'))"
  shows "echoing c' h p"
  using assms(1,2) assms(3) unfolding echoing_def follows_def by (smt (verit, best))

lemma echoing_emit:
  assumes "echoing c h p" "wf_message (h1, p1)"
  obtains c1 where "emit c h1 p1 = (SS_OK, c1)" "echoing c1 h p" "follows c c1 1"
proof -
  have sd: "length (cl_nonce_seed c) = 8" using assms(1) by (simp add: echoing_def)
  note em = emit_eq[OF sd assms(2)]
  obtain ok x where s: "tp_send (transport c) (tp_ctx (transport c)) (datagram c 0 (h1, p1)) = (ok, x)" by fastforce
  let ?c1 = "c\<lparr>cl_nonce_counter := cl_nonce_counter c + 1, transport := transport c\<lparr>tp_ctx := x\<rparr>\<rparr>"
  have ok using assms(1) em(2) s unfolding echoing_def by (metis fst_conv)
  moreover have f: "follows c ?c1 1" by (simp add: follows_def)
  moreover have "echoing ?c1 h p"
    by (rule echoing_follows[OF assms(1) f]) (use em(2) s in \<open>metis snd_conv ss_client.select_convs(1) ss_client.surjective
        ss_client.update_convs(1,5) ss_transport.select_convs(3) ss_transport.surjective ss_transport.update_convs(3)\<close>)
  ultimately show ?thesis using that[of ?c1] em(1) s by simp
qed

lemma echoing_await:
  assumes "echoing c h p"
  obtains c1 where "await_reply c = (Inr (h, p), c1)" "echoing c1 h p" "follows c c1 0"
proof -
  obtain r x where r: "tp_recv (transport c) (tp_ctx (transport c)) SS_MAX_DATAGRAM (cl_timeout_ms c) = (r, x)" by fastforce
  let ?c1 = "c\<lparr>transport := transport c\<lparr>tp_ctx := x\<rparr>\<rparr>"
  obtain d where d: "r = RecvData d" "ss_unpack d (cl_key c) = Inr (h, p)" using assms r unfolding echoing_def by (metis fst_conv)
  have "await_attempts (Suc n) c = (Inr (h, p), ?c1)" for n by (simp add: call_recv_def r d)
  from this[of 15] have "await_attempts 16 c = (Inr (h, p), ?c1)" by simp
  moreover have f: "follows c ?c1 0" by (simp add: follows_def)
  moreover have "echoing ?c1 h p"
    by (rule echoing_follows[OF assms f]) (use r in \<open>metis snd_conv ss_client.select_convs(1) ss_client.surjective
        ss_client.update_convs(1) ss_transport.select_convs(3) ss_transport.surjective ss_transport.update_convs(3)\<close>)
  ultimately show ?thesis using that by (simp add: await_reply_def)
qed

lemma echoing_exchange:
  assumes "echoing c h p" "wf_message (h1, p1)" "0 < cl_max_rounds c"
  obtains c1 where "control_exchange c h1 p1 = (Inr (h, p), c1)" "echoing c1 h p" "follows c c1 1"
proof -
  obtain c1 where 1: "emit c h1 p1 = (SS_OK, c1)" "echoing c1 h p" "follows c c1 1"
    by (rule echoing_emit[OF assms(1,2)])
  obtain c2 where 2: "await_reply c1 = (Inr (h, p), c2)" "echoing c2 h p" "follows c1 c2 0"
    by (rule echoing_await[OF 1(2)])
  obtain k where "nat (cl_max_rounds c) = Suc k" using assms(3) by (cases "nat (cl_max_rounds c)") auto
  then have "control_exchange c h1 p1 = (Inr (h, p), c2)" using 1 2 by (simp add: control_exchange_def)
  then show ?thesis using that 2(2) follows_trans[OF 1(3) 2(3)] by simp
qed

text \<open>A client whose every receive is the reply packed from \<open>h\<close> and \<open>p\<close>.\<close>

definition echo_client :: "ss_header \<Rightarrow> byte list \<Rightarrow> event list ss_client" where
  "echo_client h p =
     ss_client_init (net_transport (\<lambda>_ _. True) (\<lambda>_. RecvData (the (ss_pack SS_MAX_DATAGRAM h p (ascii ''key'')))) [])
       (ascii ''key'') 7 (Some [1, 2, 3, 4, 5, 6, 7, 8])"

lemma echoing_echo_client:
  assumes "wf_header h" "length p \<le> 1024" "h_length h = of_nat (length p)"
  shows "echoing (echo_client h p) h p"
proof -
  obtain d where d: "ss_pack SS_MAX_DATAGRAM h p (ascii ''key'') = Some d"
    using ss_pack_datagram[OF assms(1), of p "ascii ''key''"] assms(2) by auto
  have "h\<lparr>h_length := of_nat (length p)\<rparr> = h" using assms(3) by (cases h) simp
  then show ?thesis
    using ss_unpack_pack[OF assms(1) d] d
    by (auto simp: echoing_def echo_client_def ss_client_init_def net_transport_def net_send_def net_recv_def intro: exI[of _ "\<lambda>_. True"])
qed

lemma echo_client_fields:
  "cl_key (echo_client h p) = ascii ''key''" "cl_max_rounds (echo_client h p) = 8"
  "cl_nonce_seed (echo_client h p) = [1, 2, 3, 4, 5, 6, 7, 8]" "cl_device_id (echo_client h p) = 7"
  "transport (echo_client h p) = net_transport (\<lambda>_ _. True)
     (\<lambda>_. RecvData (the (ss_pack SS_MAX_DATAGRAM h p (ascii ''key'')))) []"
  "cl_pull_window (echo_client h p) = 32"
  by (simp_all add: echo_client_def ss_client_init_def SS_PULL_WINDOW_def)

subsection \<open>Transports whose bursts end\<close>

text \<open>
  A transport that delivers only so many datagrams until one receive finds nothing: some number goes down with every
  datagram delivered (and may be anything again after a send). The receive loops end on such a transport.
\<close>

locale ending_bursts =
  fixes recv :: "'x \<Rightarrow> nat \<Rightarrow> int \<Rightarrow> recv_result \<times> 'x" and left :: "'x \<Rightarrow> nat"
  assumes data_decreases: "fst (recv x n t) = RecvData d \<Longrightarrow> left (snd (recv x n t)) < left x"
begin

definition pending :: "'x ss_client \<Rightarrow> nat" where
  "pending c = left (tp_ctx (transport c))"

definition receives :: "'x ss_client \<Rightarrow> bool" where
  "receives c \<longleftrightarrow> tp_recv (transport c) = recv"

lemma receives_follows: "receives c \<Longrightarrow> follows c c' n \<Longrightarrow> receives c'"
  by (simp add: receives_def follows_def)

lemma await_attempts_pending:
  "receives c \<Longrightarrow> await_attempts n c = (Inr hp, c') \<Longrightarrow> receives c' \<and> pending c' < pending c"
proof (induction n arbitrary: c)
  case (Suc n)
  obtain r c1 where r: "call_recv c = (r, c1)" by fastforce
  have rec1: "receives c1" using Suc.prems(1) follows_call_recv[of c] r receives_follows by fastforce
  have dec: "pending c1 < pending c" if "r = RecvData d" for d
    using data_decreases[of "tp_ctx (transport c)" SS_MAX_DATAGRAM "cl_timeout_ms c" d] Suc.prems(1) r that
    by (auto simp: call_recv_def receives_def pending_def split: prod.splits)
  obtain d where d: "r = RecvData d" using Suc.prems(2) r by (cases r) auto
  show ?case
  proof (cases "ss_unpack d (cl_key c1)")
    case (Inr hp1)
    then show ?thesis using Suc.prems(2) r d rec1 dec by auto
  next
    case (Inl e)
    then have "await_attempts n c1 = (Inr hp, c')" using Suc.prems(2) r d by simp
    from Suc.IH[OF rec1 this] show ?thesis using dec[OF d] by auto
  qed
qed simp

lemma await_reply_pending:
  "receives c \<Longrightarrow> await_reply c = (Inr hp, c') \<Longrightarrow> receives c' \<and> pending c' < pending c"
  unfolding await_reply_def by (rule await_attempts_pending)

end

text \<open>Any environment, cut to at most \<open>b\<close> datagrams between two sends.\<close>

fun burst_length :: "event list \<Rightarrow> nat" where
  "burst_length [] = 0"
| "burst_length (Sent d # es) = 0"
| "burst_length (Got (RecvData d) # es) = Suc (burst_length es)"
| "burst_length (Got r # es) = burst_length es"

definition capped :: "nat \<Rightarrow> (event list \<Rightarrow> recv_result) \<Rightarrow> event list \<Rightarrow> recv_result" where
  "capped b delivers es = (if burst_length (rev es) < b then delivers es else RecvTimeout)"

interpretation capped: ending_bursts "net_recv (capped b delivers)" "\<lambda>es. b - burst_length (rev es)" for b delivers
  by unfold_locales (auto simp: net_recv_def capped_def split: if_splits)

text \<open>What a wait of at most \<open>n\<close> receives makes of the receives \<open>rs\<close> it did.\<close>

definition received :: "byte list \<Rightarrow> nat \<Rightarrow> recv_result list \<Rightarrow> reply \<Rightarrow> bool" where
  "received key n rs r \<longleftrightarrow> length rs \<le> n \<and> (case r of
       Inl e \<Rightarrow> e = SS_ERR_TRANSPORT \<and> rs \<noteq> [] \<and> last rs = RecvError \<or> e = SS_ERR_TIMEOUT \<and> (length rs = n \<or> rs \<noteq> [] \<and> last rs = RecvTimeout)
     | Inr hp \<Rightarrow> \<exists>d. rs \<noteq> [] \<and> last rs = RecvData d \<and> ss_unpack d key = Inr hp)"

lemma received_skip:
  "received key n rs r \<Longrightarrow> ss_unpack d key = Inl e \<Longrightarrow> received key (Suc n) (RecvData d # rs) r"
  by (auto simp: received_def split: sum.splits)

lemma await_attempts_received:
  assumes "transport c = net_transport accepts delivers es" "await_attempts n c = (r, c')"
  shows "\<exists>rs. received (cl_key c) n rs r \<and> tp_ctx (transport c') = es @ map Got rs"
  using assms
proof (induction n arbitrary: c es)
  case 0
  then show ?case by (auto simp: net_transport_def received_def)
next
  case (Suc n)
  let ?c1 = "c\<lparr>transport := transport c\<lparr>tp_ctx := es @ [Got (delivers es)]\<rparr>\<rparr>"
  have cr: "call_recv c = (delivers es, ?c1)"
    using Suc.prems(1) by (simp add: call_recv_def net_transport_def net_recv_def)
  have t1: "transport ?c1 = net_transport accepts delivers (es @ [Got (delivers es)])"
    using Suc.prems(1) by (simp add: net_transport_def)
  show ?case
  proof (cases "\<exists>d e. delivers es = RecvData d \<and> ss_unpack d (cl_key c) = Inl e")
    case True
    then obtain d e where d: "delivers es = RecvData d" "ss_unpack d (cl_key c) = Inl e" by blast
    then have "await_attempts n ?c1 = (r, c')" using Suc.prems(2) cr by auto
    moreover have key: "cl_key ?c1 = cl_key c" by simp
    ultimately obtain rs where rs: "received (cl_key c) n rs r"
      "tp_ctx (transport c') = es @ [Got (delivers es)] @ map Got rs"
      using Suc.IH[OF t1, unfolded key append_assoc] by blast
    show ?thesis
      by (rule exI[of _ "delivers es # rs"]) (use rs(2) received_skip[OF rs(1) d(2)] d(1) in simp)
  next
    case False
    then show ?thesis using Suc.prems(2) cr
      by (intro exI[of _ "[delivers es]"])
        (auto simp: net_transport_def received_def split: recv_result.splits sum.splits)
  qed
qed

subsection \<open>Properties\<close>

text \<open>
  Whatever the network does, \<open>ss_head\<close> sends nothing but the one request whose bitmap names no
  chunk, at most \<open>max_rounds\<close> times, and it never reports success without having sent it.
\<close>

lemma head_bounded:
  assumes "transport c = net_transport accepts delivers es" "length (cl_nonce_seed c) = 8"
    and "ss_head c g s = (rc, out, c')"
  shows "\<exists>k \<le> nat (cl_max_rounds c). sent_of (tp_ctx (transport c')) = sent_of es @
      datagrams c (replicate k (ss_header_init SS_PULL_REQ (cl_device_id c) g s, replicate 8 0)) \<and>
    (rc = SS_OK \<longrightarrow> 0 < k)"
  using ss_head_emitted[OF net_ready[OF assms(1,2)] assms(3)] net_emitted[OF _ assms(1)] by blast

text \<open>
  C29: what \<open>await_reply\<close> hands to an operation is always a datagram the transport delivered and
  \<open>ss_unpack\<close> accepted under the client's key; it takes at most sixteen receives, sends nothing, and
  keeps the client's key, nonces and settings.
\<close>

theorem reply_authentic:
  assumes "transport c = net_transport accepts delivers es" "await_reply c = (r, c')"
  shows "\<exists>rs. tp_ctx (transport c') = es @ map Got rs \<and> follows c c' 0 \<and> length rs \<le> 16 \<and>
    (case r of
       Inl e \<Rightarrow> e = SS_ERR_TRANSPORT \<and> rs \<noteq> [] \<and> last rs = RecvError \<or> e = SS_ERR_TIMEOUT \<and> (length rs = 16 \<or> rs \<noteq> [] \<and> last rs = RecvTimeout)
     | Inr hp \<Rightarrow> \<exists>d. rs \<noteq> [] \<and> last rs = RecvData d \<and> ss_unpack d (cl_key c) = Inr hp)"
proof -
  have a: "await_attempts 16 c = (r, c')" using assms(2) by (simp add: await_reply_def)
  show ?thesis
    using await_attempts_received[OF assms(1) a] follows_await_reply[OF assms(2)] unfolding received_def by blast
qed

theorem reply_authentic_witness:
  "\<exists>c'. await_reply (ss_client_init (net_transport (\<lambda>_ _. True) (\<lambda>_. RecvTimeout) []) (ascii ''key'') 7 None)
     = (Inl SS_ERR_TIMEOUT, c') \<and> (\<exists>rs. length rs \<le> 16 \<and> tp_ctx (transport c') = map Got rs)"
proof -
  let ?c = "ss_client_init (net_transport (\<lambda>_ _. True) (\<lambda>_. RecvTimeout) []) (ascii ''key'') 7 None"
  have "await_attempts (Suc n) ?c = (Inl SS_ERR_TIMEOUT, snd (await_attempts (Suc n) ?c))" for n
    by (simp add: ss_client_init_def call_recv_def net_transport_def net_recv_def)
  from this[of 15] obtain c' where r: "await_reply ?c = (Inl SS_ERR_TIMEOUT, c')" by (auto simp: await_reply_def)
  have "transport ?c = net_transport (\<lambda>_ _. True) (\<lambda>_. RecvTimeout) []" by (simp add: ss_client_init_def)
  from reply_authentic[OF this r] r show ?thesis by auto
qed

end
