(* ===== verification/SS_Push.thy ===== *)
theory SS_Push
  imports SS_Client
begin

text \<open>
  \<open>wii/core/client.c\<close>, pushing a card: sending the chunks a bitmap names, declaring a delta, and the transfer
  itself (PUSH_BEGIN, the delta declaration, rounds of chunks and PUSH_END, gathering the gaps the
  server reports). \<open>push_once\<close> may wait for gap reports without end, so it is a partial function: \<open>None\<close>
  is a call that never returns.
\<close>

subsection \<open>The messages of a transfer\<close>

text \<open>PUSH_BEGIN, one PUSH_DELTA window (from chunk \<open>base\<close>, \<open>len\<close> bytes of the bitmap), PUSH_END.\<close>

definition begin_message ::
    "u64 \<Rightarrow> byte list \<Rightarrow> byte \<Rightarrow> u32 \<Rightarrow> u32 \<Rightarrow> u32 \<Rightarrow> bool \<Rightarrow> ss_header \<times> byte list" where
  "begin_message device game_id slot n parent transfer_id delta =
     ((ss_header_init SS_PUSH_BEGIN device game_id slot)
        \<lparr>h_flags := (if delta then SS_FLAG_DELTA else 0), h_card_version := transfer_id,
         h_parent_version := parent, h_total_size := n\<rparr>, [])"

definition delta_message ::
    "u64 \<Rightarrow> byte list \<Rightarrow> byte \<Rightarrow> u32 \<Rightarrow> u32 \<Rightarrow> byte list \<Rightarrow> u32 \<Rightarrow> nat \<Rightarrow> ss_header \<times> byte list" where
  "delta_message device game_id slot transfer_id n dirty base len =
     ((ss_header_init SS_PUSH_DELTA device game_id slot)
        \<lparr>h_card_version := transfer_id, h_total_size := n, h_sequence := base\<rparr>,
      bytes_at dirty (unat (drop_bit 3 base)) len)"

definition end_message ::
    "u64 \<Rightarrow> byte list \<Rightarrow> byte \<Rightarrow> u32 \<Rightarrow> u32 \<Rightarrow> u32 \<Rightarrow> byte list \<Rightarrow> ss_header \<times> byte list" where
  "end_message device game_id slot n parent transfer_id digest =
     ((ss_header_init SS_PUSH_END device game_id slot)
        \<lparr>h_card_version := transfer_id, h_parent_version := parent, h_total_size := n\<rparr>, digest)"

text \<open>The chunk message for \<open>index\<close>: its header and its payload.\<close>

definition chunk_message ::
    "u64 \<Rightarrow> byte list \<Rightarrow> byte \<Rightarrow> u32 \<Rightarrow> byte list \<Rightarrow> u32 \<Rightarrow> u32 \<Rightarrow> ss_header \<times> byte list" where
  "chunk_message device game_id slot transfer_id img n index =
     (let offset = index * of_nat SS_MAX_PAYLOAD;
          remaining = n - offset;
          taken = (if remaining < of_nat SS_MAX_PAYLOAD then remaining else of_nat SS_MAX_PAYLOAD)
      in ((ss_header_init SS_PUSH_CHUNK device game_id slot)
            \<lparr>h_card_version := transfer_id, h_offset := offset, h_sequence := index, h_total_size := n\<rparr>,
          bytes_at img (unat offset) (unat taken)))"

subsection \<open>The code\<close>

text \<open>The loop of \<open>send_chunks\<close> over the indexes it has left.\<close>

fun send_chunks_from ::
    "'x ss_client \<Rightarrow> byte list \<Rightarrow> byte \<Rightarrow> u32 \<Rightarrow> byte list \<Rightarrow> u32 \<Rightarrow> byte list \<Rightarrow> u32 list \<Rightarrow> ss_result \<times> 'x ss_client" where
  "send_chunks_from c game_id slot transfer_id img n bitmap [] = (SS_OK, c)"
| "send_chunks_from c game_id slot transfer_id img n bitmap (index # rest) =
     (if \<not> ss_bitmap_test bitmap 0 index then send_chunks_from c game_id slot transfer_id img n bitmap rest
      else let (h, payload) = chunk_message (cl_device_id c) game_id slot transfer_id img n index;
               (rc, c) = emit c h payload
           in if rc \<noteq> SS_OK then (rc, c)
              else send_chunks_from c game_id slot transfer_id img n bitmap rest)"

definition send_chunks ::
    "'x ss_client \<Rightarrow> byte list \<Rightarrow> byte \<Rightarrow> u32 \<Rightarrow> byte list \<Rightarrow> u32 \<Rightarrow> byte list \<Rightarrow> u32 \<Rightarrow> ss_result \<times> 'x ss_client" where
  "send_chunks c game_id slot transfer_id img n bitmap chunks =
     send_chunks_from c game_id slot transfer_id img n bitmap (map of_nat [0..<unat chunks])"

text \<open>\<open>while (len > 0 && dirty[(base >> 3) + len - 1] == 0) len--;\<close>\<close>

fun trim_window :: "byte list \<Rightarrow> nat \<Rightarrow> nat \<Rightarrow> nat" where
  "trim_window dirty first 0 = 0"
| "trim_window dirty first (Suc len) =
     (if dirty ! (first + len) = 0 then trim_window dirty first len else Suc len)"

definition declare_window ::
    "'x ss_client \<Rightarrow> byte list \<Rightarrow> byte \<Rightarrow> u32 \<Rightarrow> u32 \<Rightarrow> byte list \<Rightarrow> u32 \<Rightarrow> nat \<Rightarrow> ss_result \<times> 'x ss_client" where
  "declare_window c game_id slot transfer_id n dirty base len =
     (let first = unat (drop_bit 3 base);
          len = trim_window dirty first len
      in if len = 0 then (SS_OK, c)
         else let (h, payload) = delta_message (cl_device_id c) game_id slot transfer_id n dirty base len;
                  (r, c) = control_exchange c h payload
              in case r of
                   Inl rc \<Rightarrow> (rc, c)
                 | Inr (h, payload) \<Rightarrow>
                     if h_msg_type h = SS_NACK then note_nack c h payload
                     else if h_msg_type h \<noteq> SS_ACK then (SS_ERR_PROTOCOL, c)
                     else (SS_OK, c))"

text \<open>The loop of \<open>declare_delta\<close> over the window numbers it has left; a window is 8192 chunks.\<close>

fun declare_windows ::
    "'x ss_client \<Rightarrow> byte list \<Rightarrow> byte \<Rightarrow> u32 \<Rightarrow> u32 \<Rightarrow> byte list \<Rightarrow> nat \<Rightarrow> nat list \<Rightarrow> ss_result \<times> 'x ss_client" where
  "declare_windows c game_id slot transfer_id n dirty chunks [] = (SS_OK, c)"
| "declare_windows c game_id slot transfer_id n dirty chunks (k # ks) =
     (let base = k * (SS_MAX_PAYLOAD * 8);
          left = chunks - base;
          len = (min left (SS_MAX_PAYLOAD * 8) + 7) div 8;
          (rc, c) = declare_window c game_id slot transfer_id n dirty (of_nat base) len
      in if rc \<noteq> SS_OK then (rc, c) else declare_windows c game_id slot transfer_id n dirty chunks ks)"

definition declare_delta ::
    "'x ss_client \<Rightarrow> byte list \<Rightarrow> byte \<Rightarrow> u32 \<Rightarrow> u32 \<Rightarrow> byte list \<Rightarrow> u32 \<Rightarrow> ss_result \<times> 'x ss_client" where
  "declare_delta c game_id slot transfer_id n dirty chunks =
     (let windows = (unat chunks + (SS_MAX_PAYLOAD * 8 - 1)) div (SS_MAX_PAYLOAD * 8)
      in declare_windows c game_id slot transfer_id n dirty (unat chunks) [0..<windows])"

text \<open>The bits of the last byte from \<open>chunks\<close> on.\<close>

definition declares_past_the_end :: "byte list \<Rightarrow> u32 \<Rightarrow> bool" where
  "declares_past_the_end dirty chunks =
     list_ex (\<lambda>b. dirty ! (b div 8) AND push_bit (b mod 8) 1 \<noteq> 0)
       [unat chunks..<(unat chunks + 7) div 8 * 8]"

text \<open>The attempts at PUSH_BEGIN; on success, whether the transfer is a delta.\<close>

fun begin_attempts ::
    "nat \<Rightarrow> 'x ss_client \<Rightarrow> byte list \<Rightarrow> byte \<Rightarrow> u32 \<Rightarrow> u32 \<Rightarrow> u32 \<Rightarrow> bool \<Rightarrow> (ss_result + bool) \<times> 'x ss_client" where
  "begin_attempts 0 c game_id slot n parent transfer_id delta = (Inl SS_ERR_PROTOCOL, c)"
| "begin_attempts (Suc k) c game_id slot n parent transfer_id delta =
     (let (h, payload) = begin_message (cl_device_id c) game_id slot n parent transfer_id delta;
          (r, c) = control_exchange c h payload
      in case r of
           Inl rc \<Rightarrow> (Inl rc, c)
         | Inr (h, payload) \<Rightarrow>
             if h_msg_type h = SS_ACK then (Inr delta, c)
             else if h_msg_type h \<noteq> SS_NACK then (Inl SS_ERR_PROTOCOL, c)
             else if delta \<and> 0 < length payload \<and> payload ! 0 = SS_NACK_DELTA_UNAVAILABLE
             then begin_attempts k c game_id slot n parent transfer_id False
             else (let (rc, c) = note_nack c h payload in (Inl rc, c)))"

text \<open>The chunks one MISSING_CHUNKS report names, added to the bitmap.\<close>

definition mark_gaps :: "u32 \<Rightarrow> u32 \<Rightarrow> byte list \<Rightarrow> byte list \<Rightarrow> byte list" where
  "mark_gaps chunks base payload bitmap =
     fold (\<lambda>i bm. fold (\<lambda>b bm.
         if payload ! i AND push_bit b 1 \<noteq> 0
         then (let index = base + of_nat ((i - 1) * 8 + b)
               in if index < chunks then ss_bitmap_set bm 0 index else bm)
         else bm) [0..<8] bm) [1..<length payload] bitmap"

text \<open>How a round of a push ends: with the result of the push, or with gaps to send again.\<close>

datatype push_end = PushDone ss_result "u32 option" | PushAgain

text \<open>The \<open>for (;;)\<close> that collects gap reports; \<open>h\<close> and \<open>payload\<close> are the report just received.\<close>

partial_function (option) gather_gaps ::
    "'x ss_client \<Rightarrow> u32 \<Rightarrow> byte list \<Rightarrow> ss_header \<Rightarrow> byte list \<Rightarrow> (push_end \<times> byte list \<times> 'x ss_client) option" where
  "gather_gaps c chunks bitmap h payload =
     (let bitmap = mark_gaps chunks (h_sequence h) payload bitmap;
          (r, c) = await_reply c
      in case r of
           Inl rc \<Rightarrow> Some (if rc = SS_ERR_TIMEOUT then PushAgain else PushDone rc None, bitmap, c)
         | Inr (h, payload) \<Rightarrow>
             if h_msg_type h = SS_ACK then Some (PushDone SS_OK (Some (h_card_version h)), bitmap, c)
             else if h_msg_type h \<noteq> SS_NACK \<or> length payload < 1 \<or> payload ! 0 \<noteq> SS_NACK_MISSING_CHUNKS
             then (let (rc, c) = note_nack c h payload in Some (PushDone rc None, bitmap, c))
             else gather_gaps c chunks bitmap h payload)"

text \<open>One round: the chunks of the bitmap, PUSH_END with the card's digest, and what comes back.\<close>

definition push_round ::
    "'x ss_client \<Rightarrow> byte list \<Rightarrow> byte \<Rightarrow> byte list \<Rightarrow> u32 \<Rightarrow> u32 \<Rightarrow> u32 \<Rightarrow> byte list \<Rightarrow> u32 \<Rightarrow> byte list
     \<Rightarrow> (push_end \<times> byte list \<times> 'x ss_client) option" where
  "push_round c game_id slot img n parent transfer_id digest chunks bitmap =
     (let needed = (unat chunks + 7) div 8;
          (rc, c) = send_chunks c game_id slot transfer_id img n bitmap chunks
      in if rc \<noteq> SS_OK then Some (PushDone rc None, bitmap, c)
         else let (h, payload) = end_message (cl_device_id c) game_id slot n parent transfer_id digest;
                  (rc, c) = emit c h payload
              in if rc \<noteq> SS_OK then Some (PushDone rc None, bitmap, c)
                 else let (r, c) = await_reply c
                      in case r of
                           Inl rc \<Rightarrow> Some (if rc = SS_ERR_TIMEOUT then PushAgain else PushDone rc None, bitmap, c)
                         | Inr (h, payload) \<Rightarrow>
                             if h_msg_type h = SS_ACK
                             then Some (PushDone SS_OK (Some (h_card_version h)), bitmap, c)
                             else if h_msg_type h \<noteq> SS_NACK then Some (PushDone SS_ERR_PROTOCOL None, bitmap, c)
                             else if length payload < 1 \<or> payload ! 0 \<noteq> SS_NACK_MISSING_CHUNKS
                             then (let (rc, c) = note_nack c h payload in Some (PushDone rc None, bitmap, c))
                             else gather_gaps c chunks (memset bitmap 0 needed) h payload)"

fun push_rounds ::
    "nat \<Rightarrow> 'x ss_client \<Rightarrow> byte list \<Rightarrow> byte \<Rightarrow> byte list \<Rightarrow> u32 \<Rightarrow> u32 \<Rightarrow> u32 \<Rightarrow> byte list \<Rightarrow> u32 \<Rightarrow> byte list
     \<Rightarrow> (ss_result \<times> u32 option \<times> byte list \<times> 'x ss_client) option" where
  "push_rounds 0 c game_id slot img n parent transfer_id digest chunks bitmap =
     Some (SS_ERR_GAVE_UP, None, bitmap, c)"
| "push_rounds (Suc k) c game_id slot img n parent transfer_id digest chunks bitmap =
     (case push_round c game_id slot img n parent transfer_id digest chunks bitmap of
        None \<Rightarrow> None
      | Some (PushDone rc version, bitmap, c) \<Rightarrow> Some (rc, version, bitmap, c)
      | Some (PushAgain, bitmap, c) \<Rightarrow>
          push_rounds k c game_id slot img n parent transfer_id digest chunks bitmap)"

text \<open>
  \<open>dirty = None\<close> is the NULL pointer: the whole card. The result is the code, \<open>*out_version\<close> if it was
  written, the scratch bitmap and the client.
\<close>

definition push_once ::
    "'x ss_client \<Rightarrow> byte list \<Rightarrow> byte \<Rightarrow> byte list \<Rightarrow> u32 \<Rightarrow> u32 \<Rightarrow> u32 \<Rightarrow> byte list option \<Rightarrow> byte list
     \<Rightarrow> (ss_result \<times> u32 option \<times> byte list \<times> 'x ss_client) option" where
  "push_once c game_id slot img n parent transfer_id dirty bitmap =
     (let chunks = ss_chunk_count n;
          needed = (unat chunks + 7) div 8
      in if n = 0 then Some (SS_ERR_PROTOCOL, None, bitmap, c)
         else if length bitmap < needed then Some (SS_ERR_TOO_BIG, None, bitmap, c)
         else if (case dirty of None \<Rightarrow> False | Some d \<Rightarrow> declares_past_the_end d chunks)
         then Some (SS_ERR_PROTOCOL, None, bitmap, c)
         else let digest = sha256 (take (unat n) img);
                  c = c\<lparr>cl_last_digest := digest\<rparr>;
                  (b, c) = begin_attempts 2 c game_id slot n parent transfer_id (dirty \<noteq> None)
              in case b of
                   Inl rc \<Rightarrow> Some (rc, None, bitmap, c)
                 | Inr delta \<Rightarrow>
                     let (rc, c) = (if delta
                                    then declare_delta c game_id slot transfer_id n (the dirty) chunks
                                    else (SS_OK, c))
                     in if rc \<noteq> SS_OK then Some (rc, None, bitmap, c)
                        else let bitmap = memset bitmap 0 needed;
                                 bitmap = (if delta then blit bitmap 0 (take needed (the dirty))
                                           else fold (\<lambda>i bm. ss_bitmap_set bm 0 (of_nat i)) [0..<unat chunks] bitmap)
                             in push_rounds (nat (cl_max_rounds c)) c game_id slot img n parent transfer_id
                                  digest chunks bitmap)"

definition ss_push ::
    "'x ss_client \<Rightarrow> byte list \<Rightarrow> byte \<Rightarrow> byte list \<Rightarrow> u32 \<Rightarrow> u32 \<Rightarrow> u32 \<Rightarrow> byte list
     \<Rightarrow> (ss_result \<times> u32 option \<times> byte list \<times> 'x ss_client) option" where
  "ss_push c game_id slot img n parent transfer_id bitmap =
     push_once c game_id slot img n parent transfer_id None bitmap"

definition ss_push_delta ::
    "'x ss_client \<Rightarrow> byte list \<Rightarrow> byte \<Rightarrow> byte list \<Rightarrow> u32 \<Rightarrow> u32 \<Rightarrow> u32 \<Rightarrow> byte list option \<Rightarrow> byte list
     \<Rightarrow> (ss_result \<times> u32 option \<times> byte list \<times> 'x ss_client) option" where
  "ss_push_delta c game_id slot img n parent transfer_id dirty bitmap =
     (case push_once c game_id slot img n parent transfer_id dirty bitmap of
        None \<Rightarrow> None
      | Some (rc, version, bitmap, c) \<Rightarrow>
          if dirty \<noteq> None \<and> rc = SS_ERR_SERVER \<and> cl_last_error_code c = SS_NACK_CHECKSUM
          then push_once c game_id slot img n parent transfer_id None bitmap
          else Some (rc, version, bitmap, c))"

subsection \<open>The messages are well-formed, and a chunk is its slice of the card\<close>

lemma wf_messages:
  "wf_message (begin_message d g s n parent t delta)"
  "length digest \<le> 1024 \<Longrightarrow> wf_message (end_message d g s n parent t digest)"
  "len \<le> 1024 \<Longrightarrow> wf_message (delta_message d g s t n dirty base len)"
  by (simp_all add: begin_message_def end_message_def delta_message_def)

lemma wf_chunk_message: "wf_message (chunk_message d g s t img n i)"
proof -
  let ?rem = "n - i * 1024"
  have "unat (if ?rem < 1024 then ?rem else 1024) \<le> 1024" by (auto simp: word_less_nat_alt)
  then show ?thesis by (auto simp: chunk_message_def Let_def SS_MAX_PAYLOAD_def intro: order_trans)
qed

lemma chunk_message_fields:
  fixes d :: u64 and g img :: "byte list" and s :: byte and t n :: u32
  assumes k: "k * 1024 < unat n" and len: "unat n \<le> length img"
  defines "m \<equiv> chunk_message d g s t img n (of_nat k)"
  shows "h_msg_type (fst m) = SS_PUSH_CHUNK" "h_card_version (fst m) = t" "h_total_size (fst m) = n"
    "unat (h_offset (fst m)) = k * 1024" "unat (h_sequence (fst m)) = k"
    "snd m = bytes_at (take (unat n) img) (k * 1024) 1024"
proof -
  have lt: "unat n < 2 ^ 32" by (rule unat_u32_lt)
  define off :: u32 where "off = of_nat k * 1024"
  have "off = of_nat (k * 1024)" by (simp add: off_def)
  then have off: "unat off = k * 1024" using k lt by (simp only: unat_of_nat_u32)
  have "off \<le> n" using off k by (simp add: word_le_nat_alt)
  then have r: "unat (n - off) = unat n - k * 1024" using off by (simp add: unat_sub_u32)
  have "unat (if n - off < 1024 then n - off else 1024) = min (unat n - k * 1024) 1024"
    using r by (auto simp: word_less_nat_alt)
  then show "snd m = bytes_at (take (unat n) img) (k * 1024) 1024"
    using bytes_at_take[of "k * 1024" "unat n" img 1024] k len
    by (simp add: m_def chunk_message_def Let_def SS_MAX_PAYLOAD_def off_def[symmetric] off split: if_splits)
  show "unat (h_offset (fst m)) = k * 1024"
    using off by (simp add: m_def chunk_message_def Let_def SS_MAX_PAYLOAD_def off_def)
  show "unat (h_sequence (fst m)) = k"
    using k lt by (simp add: m_def chunk_message_def Let_def unat_of_nat_u32)
qed (simp_all add: m_def chunk_message_def Let_def ss_header_init_def)

lemma trim_window_le: "trim_window dirty first len \<le> len"
  by (induction len) auto

lemma trim_window_zeros:
  "trim_window dirty first len \<le> i \<Longrightarrow> i < len \<Longrightarrow> dirty ! (first + i) = 0"
  by (induction len) (auto simp: less_Suc_eq split: if_splits)

text \<open>The \<open>k\<close>-th window of a delta declaration as it goes out.\<close>

definition window_length :: "byte list \<Rightarrow> nat \<Rightarrow> nat \<Rightarrow> nat" where
  "window_length dirty chunks k =
     trim_window dirty (unat (drop_bit 3 (of_nat (k * 8192) :: u32))) ((min (chunks - k * 8192) 8192 + 7) div 8)"

definition window_message ::
    "u64 \<Rightarrow> byte list \<Rightarrow> byte \<Rightarrow> u32 \<Rightarrow> u32 \<Rightarrow> byte list \<Rightarrow> nat \<Rightarrow> nat \<Rightarrow> ss_header \<times> byte list" where
  "window_message d g s t n dirty chunks k =
     delta_message d g s t n dirty (of_nat (k * 8192)) (window_length dirty chunks k)"

lemma window_le: "(min (chunks - k * 8192) 8192 + 7) div 8 \<le> (1024 :: nat)"
  by simp

lemma note_nack_result: "fst (note_nack c h p) = (if 0 < length p \<and> p ! 0 = SS_NACK_CONFLICT then SS_ERR_CONFLICT else SS_ERR_SERVER)"
  by (simp add: note_nack_def Let_def nack_codes)

lemma block_le: "k * 8192 < x \<Longrightarrow> k < (x + 8191) div (8192 :: nat)"
  unfolding Suc_le_eq[symmetric] by (subst less_eq_div_iff_mult_less_eq) auto

text \<open>The first round's bitmap: every chunk of the card, or the chunks of the delta.\<close>

lemma bitmap_fill:
  assumes "m \<le> 8 * length bm" "m < 2 ^ 32"
  shows "length (fold (\<lambda>i bm. ss_bitmap_set bm 0 (of_nat i)) [0..<m] bm) = length bm"
    and "bitmap_bit (fold (\<lambda>i bm. ss_bitmap_set bm 0 (of_nat i)) [0..<m] bm) j \<longleftrightarrow> bitmap_bit bm j \<or> j < m"
proof -
  have "length (fold (\<lambda>i bm. ss_bitmap_set bm 0 (of_nat i)) [0..<m] bm) = length bm \<and>
      (bitmap_bit (fold (\<lambda>i bm. ss_bitmap_set bm 0 (of_nat i)) [0..<m] bm) j \<longleftrightarrow> bitmap_bit bm j \<or> j < m)"
    using assms
  proof (induction m)
    case (Suc m)
    then have "unat (of_nat m :: u32) = m" by (intro unat_of_nat_u32) simp
    moreover have "m div 8 < length bm" using Suc.prems(1) by simp
    ultimately show ?case using Suc by (auto simp: bitmap_bit_set less_Suc_eq)
  qed simp
  then show "length (fold (\<lambda>i bm. ss_bitmap_set bm 0 (of_nat i)) [0..<m] bm) = length bm"
    and "bitmap_bit (fold (\<lambda>i bm. ss_bitmap_set bm 0 (of_nat i)) [0..<m] bm) j \<longleftrightarrow> bitmap_bit bm j \<or> j < m"
    by auto
qed

lemma bitmap_bit_blit_front:
  assumes "length src = n" "n \<le> length bm" "j < 8 * n"
  shows "bitmap_bit (blit bm 0 src) j \<longleftrightarrow> bitmap_bit src j"
proof -
  have "j div 8 < n" using assms(3) by (simp add: less_mult_imp_div_less mult.commute)
  then show ?thesis using assms(1,2) by (simp add: bitmap_bit_def nth_blit)
qed

lemma bitmap_bit_take: "j < 8 * n \<Longrightarrow> bitmap_bit (take n b) j \<longleftrightarrow> bitmap_bit b j"
  by (auto simp: bitmap_bit_def)

definition all_chunks :: "u32 \<Rightarrow> u32 list" where
  "all_chunks chunks = map of_nat [0..<unat chunks]"

lemma in_all_chunks: "i \<in> set (all_chunks chunks) \<longleftrightarrow> i < chunks"
proof
  assume "i \<in> set (all_chunks chunks)"
  then obtain k where k: "i = of_nat k" "k < unat chunks" by (auto simp: all_chunks_def)
  then have "k < 2 ^ 32" using unat_u32_lt[of chunks] by simp
  then show "i < chunks" using k by (simp add: word_less_nat_alt unat_of_nat_u32)
next
  assume "i < chunks"
  then have "unat i \<in> {0..<unat chunks}" by (simp add: word_less_nat_alt)
  then have "(of_nat (unat i) :: u32) \<in> of_nat ` {0..<unat chunks}" by (rule imageI)
  then show "i \<in> set (all_chunks chunks)" by (simp add: all_chunks_def)
qed

text \<open>Everything a push can send, given who pushes what.\<close>

definition push_message ::
    "u64 \<Rightarrow> byte list \<Rightarrow> byte \<Rightarrow> byte list \<Rightarrow> u32 \<Rightarrow> u32 \<Rightarrow> u32 \<Rightarrow> byte list option \<Rightarrow> ss_header \<times> byte list \<Rightarrow> bool" where
  "push_message d g s img n parent t dirty m \<longleftrightarrow>
     (\<exists>delta. m = begin_message d g s n parent t delta) \<or>
     (\<exists>dt k. dirty = Some dt \<and> m = window_message d g s t n dt (unat (ss_chunk_count n)) k) \<or>
     (\<exists>i < ss_chunk_count n. m = chunk_message d g s t img n i) \<or>
     m = end_message d g s n parent t (sha256 (take (unat n) img))"

text \<open>Induction over the reports one call of \<open>gather_gaps\<close> receives: it ends, or one more report follows.\<close>

lemma gather_gaps_induct:
  fixes c c' :: "'x ss_client"
  assumes g: "gather_gaps c chunks bm h p = Some (e, bm', c')"
    and stop: "\<And>c bm h p r c1. await_reply c = (r, c1) \<Longrightarrow>
      (\<And>h1 p1. r = Inr (h1, p1) \<Longrightarrow> h_msg_type h1 = SS_ACK) \<Longrightarrow>
      P c bm h p (case r of Inl rc \<Rightarrow> if rc = SS_ERR_TIMEOUT then PushAgain else PushDone rc None
                   | Inr (h1, p1) \<Rightarrow> PushDone SS_OK (Some (h_card_version h1)))
        (mark_gaps chunks (h_sequence h) p bm) c1"
    and nack: "\<And>c bm h p h1 p1 c1. await_reply c = (Inr (h1, p1), c1) \<Longrightarrow>
      P c bm h p (PushDone (fst (note_nack c1 h1 p1)) None) (mark_gaps chunks (h_sequence h) p bm)
        (snd (note_nack c1 h1 p1))"
    and more: "\<And>c bm h p h1 p1 c1 e bm' c'. await_reply c = (Inr (h1, p1), c1) \<Longrightarrow>
      h_msg_type h1 = SS_NACK \<Longrightarrow> p1 \<noteq> [] \<Longrightarrow> p1 ! 0 = SS_NACK_MISSING_CHUNKS \<Longrightarrow>
      P c1 (mark_gaps chunks (h_sequence h) p bm) h1 p1 e bm' c' \<Longrightarrow> P c bm h p e bm' c'"
  shows "P c bm h p e bm' c'"
proof -
  have "ch = chunks \<longrightarrow> P c bm h p (fst y) (fst (snd y)) (snd (snd y))"
    if "gather_gaps c ch bm h p = Some y" for c :: "'x ss_client" and ch bm h p y
    using that
  proof (rule gather_gaps.raw_induct[rotated])
    fix self :: "'x ss_client \<Rightarrow> u32 \<Rightarrow> byte list \<Rightarrow> ss_header \<Rightarrow> byte list \<Rightarrow> (push_end \<times> byte list \<times> 'x ss_client) option"
    fix c :: "'x ss_client" and ch bm p y and h :: ss_header
    assume ih: "\<And>c ch bm h p y. self c ch bm h p = Some y \<Longrightarrow> ch = chunks \<longrightarrow> P c bm h p (fst y) (fst (snd y)) (snd (snd y))"
    assume e: "(let bitmap = mark_gaps ch (h_sequence h) p bm; (r, c) = await_reply c
      in case r of
           Inl rc \<Rightarrow> Some (if rc = SS_ERR_TIMEOUT then PushAgain else PushDone rc None, bitmap, c)
         | Inr (h, payload) \<Rightarrow>
             if h_msg_type h = SS_ACK then Some (PushDone SS_OK (Some (h_card_version h)), bitmap, c)
             else if h_msg_type h \<noteq> SS_NACK \<or> length payload < 1 \<or> payload ! 0 \<noteq> SS_NACK_MISSING_CHUNKS
             then (let (rc, c) = note_nack c h payload in Some (PushDone rc None, bitmap, c))
             else self c ch bitmap h payload) = Some y"
    obtain r c1 where a: "await_reply c = (r, c1)" by fastforce
    show "ch = chunks \<longrightarrow> P c bm h p (fst y) (fst (snd y)) (snd (snd y))"
    proof (intro impI, cases r)
      case (Inl rc)
      assume "ch = chunks"
      then show "P c bm h p (fst y) (fst (snd y)) (snd (snd y))"
        using stop[OF a, of bm h p] e Inl by (auto simp: a)
    next
      case (Inr hp)
      assume ch: "ch = chunks"
      obtain h1 p1 where hp: "hp = (h1, p1)" by fastforce
      note a' = a[unfolded Inr hp]
      obtain rc2 c2 where nn: "note_nack c1 h1 p1 = (rc2, c2)" by fastforce
      show "P c bm h p (fst y) (fst (snd y)) (snd (snd y))"
        using e ch stop[OF a, of bm h p] nack[OF a', of bm h p]
          more[OF a', where bm = bm and h = h and p = p and e = "fst y" and bm' = "fst (snd y)" and c' = "snd (snd y)"]
          ih[of c1 ch "mark_gaps ch (h_sequence h) p bm" h1 p1 y]
        by (auto simp: a' Inr hp Let_def nn split: if_splits)
    qed
  qed
  from this[OF g] show ?thesis by simp
qed

subsection \<open>What a push sends\<close>

context logged_transport
begin

text \<open>Results thread the client: one operation's messages after another's.\<close>

lemma send_chunks_from_emitted:
  assumes "ready c" "send_chunks_from c g s t img n bm is = (rc, c')"
  defines "ms \<equiv> map (chunk_message (cl_device_id c) g s t img n) (filter (ss_bitmap_test bm 0) is)"
  shows "\<exists>j \<le> length ms. emitted c c' (take j ms) \<and> (rc = SS_OK \<longrightarrow> j = length ms) \<and> rc \<in> {SS_OK, SS_ERR_TRANSPORT}"
  using assms(1,2) unfolding ms_def
proof (induction "is" arbitrary: c)
  case Nil
  then show ?case by (simp add: emitted_refl)
next
  case (Cons i "is")
  show ?case
  proof (cases "ss_bitmap_test bm 0 i")
    case False
    then show ?thesis using Cons by simp
  next
    case True
    let ?m = "chunk_message (cl_device_id c) g s t img n i"
    let ?ms = "map (chunk_message (cl_device_id c) g s t img n) (filter (ss_bitmap_test bm 0) is)"
    obtain h p where m: "?m = (h, p)" by fastforce
    obtain rc1 c1 where e: "emit c h p = (rc1, c1)" by fastforce
    have wf: "wf_message (h, p)" using wf_chunk_message[of "cl_device_id c" g s t img n i] by (simp add: m)
    have em: "emitted c c1 [(h, p)]" "rc1 \<in> {SS_OK, SS_ERR_TRANSPORT}"
      using emit_emitted[OF Cons.prems(1) wf] by (simp_all add: e)
    show ?thesis
    proof (cases "rc1 = SS_OK")
      case False
      then have "rc = rc1" "c' = c1" using Cons.prems(2) True m e by auto
      then show ?thesis using em False True m by (intro exI[of _ 1]) simp
    next
      case ok: True
      have dev: "cl_device_id c1 = cl_device_id c" using em(1) by (simp add: emitted_def follows_def)
      have "send_chunks_from c1 g s t img n bm is = (rc, c')" using Cons.prems(2) True m e ok by simp
      from Cons.IH[OF emitted_ready[OF em(1)] this] obtain j where
        j: "j \<le> length ?ms" "emitted c1 c' (take j ?ms)" "rc = SS_OK \<longrightarrow> j = length ?ms" "rc \<in> {SS_OK, SS_ERR_TRANSPORT}"
        by (auto simp: dev)
      have "emitted c c' (take (Suc j) (?m # ?ms))" using emitted_trans[OF em(1) j(2)] by (simp add: m)
      then show ?thesis using j True by (intro exI[of _ "Suc j"]) simp
    qed
  qed
qed

lemma declare_window_emitted:
  assumes c: "ready c" and len: "len \<le> 1024" and e: "declare_window c g s t n dirty base len = (rc, c')"
  defines "l \<equiv> trim_window dirty (unat (drop_bit 3 base)) len"
  shows "\<exists>k. emitted c c' (replicate k (delta_message (cl_device_id c) g s t n dirty base l)) \<and>
    (rc = SS_OK \<longrightarrow> 0 < k \<or> l = 0)"
proof (cases "l = 0")
  case True
  then show ?thesis using e c by (auto simp: declare_window_def l_def Let_def emitted_refl intro: exI[of _ 0])
next
  case False
  have "l \<le> 1024" using trim_window_le[of dirty "unat (drop_bit 3 base)" len] len by (simp add: l_def)
  then have wf: "wf_message (delta_message (cl_device_id c) g s t n dirty base l)" by (rule wf_messages(3))
  obtain h p where m: "delta_message (cl_device_id c) g s t n dirty base l = (h, p)" by fastforce
  obtain r c1 where x: "control_exchange c h p = (r, c1)" by fastforce
  obtain k where k: "emitted c c1 (replicate k (h, p))" "r = Inl SS_ERR_TIMEOUT \<or> 0 < k"
    using control_exchange_emitted[OF c wf[unfolded m] x] by blast
  have nn: "emitted c (snd (note_nack c1 h' p')) (replicate k (h, p))" for h' p'
    using emitted_trans[OF k(1) note_nack_emitted[OF emitted_ready[OF k(1)]]] by simp
  have dw: "(rc, c') = (case r of Inl rc \<Rightarrow> (rc, c1) | Inr (h, p) \<Rightarrow>
      if h_msg_type h = SS_NACK then note_nack c1 h p else if h_msg_type h \<noteq> SS_ACK then (SS_ERR_PROTOCOL, c1) else (SS_OK, c1))"
    using e False m x by (simp add: declare_window_def l_def Let_def)
  have "r \<noteq> Inl SS_OK" using control_exchange_not_OK[of c h p] x by simp
  then have "rc = SS_OK \<longrightarrow> r \<noteq> Inl SS_ERR_TIMEOUT"
    using dw by (auto split: sum.splits)
  moreover have "emitted c c' (replicate k (h, p))"
    using dw k(1) nn by (auto split: sum.splits prod.splits if_splits) (metis snd_conv)
  ultimately show ?thesis using k(2) m by (intro exI[of _ k]) auto
qed

lemma declare_windows_emitted:
  assumes "ready c" "declare_windows c g s t n dirty chunks ks = (rc, c')"
  shows "\<exists>ms. emitted c c' ms \<and> set ms \<subseteq> window_message (cl_device_id c) g s t n dirty chunks ` set ks \<and>
    (rc = SS_OK \<longrightarrow> (\<forall>k \<in> set ks. window_length dirty chunks k \<noteq> 0 \<longrightarrow>
       window_message (cl_device_id c) g s t n dirty chunks k \<in> set ms))"
  using assms
proof (induction ks arbitrary: c)
  case Nil
  then show ?case by (intro exI[of _ "[]"]) (simp add: emitted_refl)
next
  case (Cons k ks)
  let ?w = "\<lambda>k. window_message (cl_device_id c) g s t n dirty chunks k"
  obtain rc1 c1 where d: "declare_window c g s t n dirty (of_nat (k * 8192)) ((min (chunks - k * 8192) 8192 + 7) div 8) = (rc1, c1)"
    by fastforce
  obtain j where j: "emitted c c1 (replicate j (?w k))" "rc1 = SS_OK \<longrightarrow> 0 < j \<or> window_length dirty chunks k = 0"
    using declare_window_emitted[OF Cons.prems(1) window_le d] unfolding window_message_def window_length_def by blast
  show ?case
  proof (cases "rc1 = SS_OK")
    case False
    then have "rc = rc1" "c' = c1" using Cons.prems(2) d by (auto simp: SS_MAX_PAYLOAD_def)
    then show ?thesis using j False by (intro exI[of _ "replicate j (?w k)"]) auto
  next
    case ok: True
    have dev: "cl_device_id c1 = cl_device_id c" using j(1) by (simp add: emitted_def follows_def)
    have "declare_windows c1 g s t n dirty chunks ks = (rc, c')"
      using Cons.prems(2) d ok by (simp add: SS_MAX_PAYLOAD_def)
    from Cons.IH[OF emitted_ready[OF j(1)] this] obtain ms where ms: "emitted c1 c' ms" "set ms \<subseteq> ?w ` set ks"
      "rc = SS_OK \<longrightarrow> (\<forall>k \<in> set ks. window_length dirty chunks k \<noteq> 0 \<longrightarrow> ?w k \<in> set ms)"
      by (auto simp: dev)
    have "0 < j \<Longrightarrow> ?w k \<in> set (replicate j (?w k))" by simp
    then show ?thesis
      using emitted_trans[OF j(1) ms(1)] ms(2,3) j(2) ok
      by (intro exI[of _ "replicate j (?w k) @ ms"]) auto
  qed
qed

lemma begin_attempts_emitted:
  assumes "ready c" "begin_attempts k c g s n parent t delta = (r, c')"
  shows "\<exists>ms. emitted c c' ms \<and> (\<forall>m \<in> set ms. \<exists>b. m = begin_message (cl_device_id c) g s n parent t b) \<and>
    (\<forall>b. r = Inr b \<longrightarrow> ms \<noteq> [] \<and> last ms = begin_message (cl_device_id c) g s n parent t b \<and> (b \<longrightarrow> delta)) \<and>
    r \<noteq> Inl SS_OK"
  using assms
proof (induction k arbitrary: c delta)
  case 0
  then show ?case by (intro exI[of _ "[]"]) (auto simp: emitted_refl)
next
  case (Suc k)
  let ?m = "\<lambda>b. begin_message (cl_device_id c) g s n parent t b"
  obtain h p where m: "?m delta = (h, p)" by fastforce
  obtain r1 c1 where x: "control_exchange c h p = (r1, c1)" by fastforce
  have wf: "wf_message (h, p)" using wf_messages(1)[of "cl_device_id c" g s n parent t delta] by (simp add: m)
  obtain j where j: "emitted c c1 (replicate j (h, p))" "r1 = Inl SS_ERR_TIMEOUT \<or> 0 < j"
    using control_exchange_emitted[OF Suc.prems(1) wf x] by blast
  have nok: "r1 \<noteq> Inl SS_OK" using control_exchange_not_OK[of c h p] x by simp
  have em: "\<forall>m' \<in> set (replicate j (h, p)). \<exists>b. m' = ?m b" using m[symmetric] by auto
  show ?case
  proof (cases r1)
    case (Inl rc)
    then have "r = Inl rc" "c' = c1" using Suc.prems(2) m x by auto
    then show ?thesis using j(1) em nok Inl by (intro exI[of _ "replicate j (h, p)"]) auto
  next
    case (Inr hp)
    obtain h1 p1 where hp: "hp = (h1, p1)" by fastforce
    have j0: "0 < j" using j(2) Inr by simp
    obtain rc2 c2 where nn: "note_nack c1 h1 p1 = (rc2, c2)" by fastforce
    have n2: "emitted c c2 (replicate j (h, p))"
      using emitted_trans[OF j(1) note_nack_emitted[OF emitted_ready[OF j(1)], of h1 p1]] by (simp add: nn)
    have n3: "rc2 \<noteq> SS_OK" using note_nack_result[of c1 h1 p1] nn by (auto split: if_splits)
    show ?thesis
    proof (cases "h_msg_type h1 \<noteq> SS_ACK \<and> h_msg_type h1 = SS_NACK \<and> delta \<and> 0 < length p1 \<and> p1 ! 0 = SS_NACK_DELTA_UNAVAILABLE")
      case False
      then have "r = Inr delta \<and> c' = c1 \<or> r = Inl SS_ERR_PROTOCOL \<and> c' = c1 \<or> r = Inl rc2 \<and> c' = c2"
        using Suc.prems(2) m x Inr hp nn by (auto split: if_splits)
      then show ?thesis
        using j(1) n2 em m j0 n3 by (intro exI[of _ "replicate j (h, p)"]) (auto simp: last_replicate)
    next
      case True
      have dev: "cl_device_id c1 = cl_device_id c" using j(1) by (simp add: emitted_def follows_def)
      have b: "begin_attempts k c1 g s n parent t False = (r, c')"
        using Suc.prems(2) m x Inr hp True by (auto simp: msg_types)
      from Suc.IH[OF emitted_ready[OF j(1)] b] obtain ms where ms: "emitted c1 c' ms"
        "\<forall>m' \<in> set ms. \<exists>b. m' = ?m b" "\<forall>b. r = Inr b \<longrightarrow> ms \<noteq> [] \<and> last ms = ?m b \<and> \<not> b" "r \<noteq> Inl SS_OK"
        by (auto simp: dev)
      then show ?thesis
        using emitted_trans[OF j(1) ms(1)] em by (intro exI[of _ "replicate j (h, p) @ ms"]) auto
    qed
  qed
qed

lemma gather_gaps_emitted:
  assumes "gather_gaps c chunks bm h p = Some (e, bm', c')" "ready c"
  shows "emitted c c' []"
proof -
  have "ready c \<longrightarrow> emitted c c' []"
  proof (rule gather_gaps_induct[OF assms(1)])
    fix c c1 :: "'x ss_client" and r
    assume a: "await_reply c = (r, c1)"
    show "ready c \<longrightarrow> emitted c c1 []" using await_reply_emitted[of c] a by simp
  next
    fix c c1 :: "'x ss_client" and h1 p1
    assume a: "await_reply c = (Inr (h1, p1), c1)"
    show "ready c \<longrightarrow> emitted c (snd (note_nack c1 h1 p1)) []"
      using await_reply_emitted[of c] a note_nack_emitted[of c1 h1 p1] emitted_ready[of c c1 "[]"]
        emitted_trans[of c c1 "[]" "snd (note_nack c1 h1 p1)" "[]"] by auto
  next
    fix c c1 c' :: "'x ss_client" and h1 p1
    assume a: "await_reply c = (Inr (h1, p1), c1)" and ih: "ready c1 \<longrightarrow> emitted c1 c' []"
    show "ready c \<longrightarrow> emitted c c' []"
      using await_reply_emitted[of c] a ih emitted_ready[of c c1 "[]"] emitted_trans[of c c1 "[]" c' "[]"] by auto
  qed
  then show ?thesis using assms(2) by simp
qed

lemma push_round_emitted:
  assumes c: "ready c" and dg: "length digest \<le> 1024"
    and r: "push_round c g s img n parent t digest chunks bm = Some (e, bm', c')"
  defines "cs \<equiv> map (chunk_message (cl_device_id c) g s t img n) (filter (ss_bitmap_test bm 0) (all_chunks chunks))"
    and "en \<equiv> end_message (cl_device_id c) g s n parent t digest"
  shows "(\<exists>j. emitted c c' (take j cs) \<and> (\<exists>rc. e = PushDone rc None \<and> rc \<noteq> SS_OK)) \<or> emitted c c' (cs @ [en])"
proof -
  obtain rc1 c1 where sc: "send_chunks c g s t img n bm chunks = (rc1, c1)" by fastforce
  then obtain j where j: "emitted c c1 (take j cs)" "rc1 = SS_OK \<longrightarrow> j = length cs" "rc1 \<in> {SS_OK, SS_ERR_TRANSPORT}"
    using send_chunks_from_emitted[OF c, of g s t img n bm "all_chunks chunks" rc1 c1]
    unfolding send_chunks_def all_chunks_def[symmetric] cs_def by auto
  show ?thesis
  proof (cases "rc1 = SS_OK")
    case False
    then have "e = PushDone rc1 None" "c' = c1" using r sc by (auto simp: push_round_def)
    then show ?thesis using j False by auto
  next
    case ok: True
    obtain h p where m: "end_message (cl_device_id c1) g s n parent t digest = (h, p)" by fastforce
    have dev: "cl_device_id c1 = cl_device_id c" using j(1) by (simp add: emitted_def follows_def)
    have en: "en = (h, p)" using m by (simp add: en_def dev)
    have "wf_message (h, p)" using wf_messages(2)[OF dg, of "cl_device_id c1" g s n parent t] m by simp
    then obtain rc2 c2 where e2: "emit c1 h p = (rc2, c2)" "emitted c1 c2 [(h, p)]"
      using emit_emitted(1)[OF emitted_ready[OF j(1)]] by (cases "emit c1 h p") fastforce
    have em2: "emitted c c2 (cs @ [en])" using emitted_trans[OF j(1) e2(2)] j(2) ok by (simp add: en)
    obtain r3 c3 where a: "await_reply c2 = (r3, c3)" by fastforce
    have em3: "emitted c c3 (cs @ [en])"
      using emitted_trans[OF em2] await_reply_emitted[OF emitted_ready[OF em2]] by (fastforce simp: a)
    have nn: "emitted c (snd (note_nack c3 h3 p3)) (cs @ [en])" for h3 p3
      using emitted_trans[OF em3 note_nack_emitted[OF emitted_ready[OF em3]]] by simp
    have gg: "emitted c c4 (cs @ [en])" if "gather_gaps c3 ch b4 h3 p3 = Some (e4, b5, c4)" for ch b4 h3 p3 e4 b5 c4
      using emitted_trans[OF em3 gather_gaps_emitted[OF that emitted_ready[OF em3]]] by simp
    have "emitted c c' (cs @ [en])"
    proof (cases "rc2 = SS_OK")
      case False
      then have "c' = c2" using r sc ok m e2(1) by (auto simp: push_round_def)
      then show ?thesis using em2 by simp
    next
      case True
      note r' = r[unfolded push_round_def Let_def sc prod.case m e2(1) a]
      show ?thesis
      proof (cases r3)
        case (Inl rc)
        then have "c' = c3" using r' ok True by auto
        then show ?thesis using em3 by simp
      next
        case (Inr hp)
        obtain h3 p3 where hp: "hp = (h3, p3)" by fastforce
        obtain rc4 c4 where n4: "note_nack c3 h3 p3 = (rc4, c4)" by fastforce
        have "c' = c3 \<or> c' = c4 \<or> gather_gaps c3 chunks (memset bm 0 ((unat chunks + 7) div 8)) h3 p3 = Some (e, bm', c')"
          using r' ok True Inr hp n4 by (auto split: if_splits)
        then show ?thesis using em3 nn[of h3 p3] gg n4 by auto
      qed
    qed
    then show ?thesis by simp
  qed
qed

lemma push_rounds_emitted:
  assumes "ready c" "length digest \<le> 1024"
    and "push_rounds k c g s img n parent t digest chunks bm = Some (rc, v, bm', c')"
  defines "cm \<equiv> chunk_message (cl_device_id c) g s t img n"
    and "en \<equiv> end_message (cl_device_id c) g s n parent t digest"
  shows "\<exists>ms. emitted c c' ms \<and> set ms \<subseteq> cm ` {i. i < chunks} \<union> {en} \<and>
    (rc = SS_OK \<longrightarrow> (\<exists>rest. ms = map cm (filter (ss_bitmap_test bm 0) (all_chunks chunks)) @ [en] @ rest))"
  using assms(1,3) unfolding cm_def en_def
proof (induction k arbitrary: c bm)
  case 0
  then show ?case by (intro exI[of _ "[]"]) (auto simp: emitted_refl)
next
  case (Suc k)
  let ?cm = "chunk_message (cl_device_id c) g s t img n" and ?en = "end_message (cl_device_id c) g s n parent t digest"
  let ?cs = "map ?cm (filter (ss_bitmap_test bm 0) (all_chunks chunks))"
  have sub: "set ?cs \<subseteq> ?cm ` {i. i < chunks}" by (auto simp: in_all_chunks)
  obtain e b1 c1 where r: "push_round c g s img n parent t digest chunks bm = Some (e, b1, c1)"
    using Suc.prems(2) by (auto split: option.splits)
  note re = push_round_emitted[OF Suc.prems(1) assms(2) r]
  show ?case
  proof (cases e)
    case (PushDone rc1 v1)
    then have eq: "rc = rc1" "c' = c1" using Suc.prems(2) r by auto
    from re show ?thesis
    proof (elim disjE exE conjE)
      fix j rc2 assume j: "emitted c c1 (take j ?cs)" "e = PushDone rc2 None" "rc2 \<noteq> SS_OK"
      have "set (take j ?cs) \<subseteq> ?cm ` {i. i < chunks}" by (rule subset_trans[OF set_take_subset sub])
      then show ?thesis using eq PushDone j
        by (intro exI[of _ "take j ?cs"]) blast
    next
      assume "emitted c c1 (?cs @ [?en])"
      then show ?thesis using eq sub by (intro exI[of _ "?cs @ [?en]"]) auto
    qed
  next
    case PushAgain
    then have em: "emitted c c1 (?cs @ [?en])" using re by auto
    have dev: "cl_device_id c1 = cl_device_id c" using em by (simp add: emitted_def follows_def)
    have "push_rounds k c1 g s img n parent t digest chunks b1 = Some (rc, v, bm', c')"
      using Suc.prems(2) r PushAgain by simp
    from Suc.IH[OF emitted_ready[OF em] this] obtain ms where
      "emitted c1 c' ms" "set ms \<subseteq> ?cm ` {i. i < chunks} \<union> {?en}" unfolding dev by auto
    then show ?thesis using emitted_trans[OF em] sub by (intro exI[of _ "(?cs @ [?en]) @ ms"]) auto
  qed
qed

text \<open>
  The whole transfer. On success the chunks sent before the first PUSH_END are all of them, or, if the server took the
  transfer as a delta, exactly the dirty ones after they were declared.
\<close>

lemma push_once_emitted:
  assumes c: "ready c" and r: "push_once c g s img n parent t dirty bm = Some (rc, v, bm', c')"
    and dlen: "\<And>d. dirty = Some d \<Longrightarrow> (unat (ss_chunk_count n) + 7) div 8 \<le> length d"
  defines "cm \<equiv> chunk_message (cl_device_id c) g s t img n" and "chunks \<equiv> ss_chunk_count n"
    and "en \<equiv> end_message (cl_device_id c) g s n parent t (sha256 (take (unat n) img))"
    and "bg \<equiv> begin_message (cl_device_id c) g s n parent t"
  shows "\<exists>ms. emitted c c' ms \<and> (\<forall>m \<in> set ms. push_message (cl_device_id c) g s img n parent t dirty m) \<and>
    (rc = SS_OK \<longrightarrow> (\<exists>bs ws sel rest. ms = bs @ ws @ map cm sel @ [en] @ rest \<and> bs \<noteq> [] \<and>
       (last bs = bg False \<and> ws = [] \<and> sel = all_chunks chunks \<or>
        (\<exists>d. dirty = Some d \<and> last bs = bg True \<and> sel = filter (\<lambda>i. bitmap_bit d (unat i)) (all_chunks chunks) \<and>
           (\<forall>k. k * 8192 < unat chunks \<and> window_length d (unat chunks) k \<noteq> 0 \<longrightarrow>
             window_message (cl_device_id c) g s t n d (unat chunks) k \<in> set ws)))))"
proof -
  let ?needed = "(unat chunks + 7) div 8"
  let ?pm = "push_message (cl_device_id c) g s img n parent t dirty"
  let ?dg = "sha256 (take (unat n) img)"
  define c0 where "c0 = c\<lparr>cl_last_digest := ?dg\<rparr>"
  have e0: "emitted c c0 []" using c by (simp add: emitted_def c0_def ready_def follows_def sent_def)
  obtain b c1 where bg1: "begin_attempts 2 c0 g s n parent t (dirty \<noteq> None) = (b, c1)" by fastforce
  obtain bs where bs: "emitted c0 c1 bs" "\<forall>m \<in> set bs. \<exists>b. m = bg b"
    "\<forall>d. b = Inr d \<longrightarrow> bs \<noteq> [] \<and> last bs = bg d \<and> (d \<longrightarrow> dirty \<noteq> None)" "b \<noteq> Inl SS_OK"
    using begin_attempts_emitted[OF emitted_ready[OF e0] bg1] unfolding bg_def by (auto simp: c0_def)
  have em1: "emitted c c1 bs" using emitted_trans[OF e0 bs(1)] by simp
  have pmb: "\<forall>m \<in> set bs. ?pm m" using bs(2) unfolding push_message_def bg_def by blast
  note r' = r[unfolded push_once_def Let_def chunks_def[symmetric] c0_def[symmetric] bg1 prod.case]
  consider (early) "c' = c" "rc \<noteq> SS_OK"
    | (failed) rcb where "b = Inl rcb" "rc = rcb" "c' = c1"
    | (begun) delta where "b = Inr delta" "?needed \<le> length bm" "n \<noteq> 0"
      "(let (rc1, c2) = (if delta then declare_delta c1 g s t n (the dirty) chunks else (SS_OK, c1))
        in if rc1 \<noteq> SS_OK then Some (rc1, None, bm, c2)
           else push_rounds (nat (cl_max_rounds c2)) c2 g s img n parent t ?dg chunks
             (if delta then blit (memset bm 0 ?needed) 0 (take ?needed (the dirty))
              else fold (\<lambda>i bm. ss_bitmap_set bm 0 (of_nat i)) [0..<unat chunks] (memset bm 0 ?needed))) =
       Some (rc, v, bm', c')"
    using r' by (cases b) (auto simp: not_less split: if_splits)
  then show ?thesis
  proof cases
    case early
    then show ?thesis using emitted_refl[OF c] by (intro exI[of _ "[]"]) simp
  next
    case failed
    then show ?thesis using em1 pmb bs(4) by (intro exI[of _ bs]) auto
  next
    case begun
    obtain rc1 c2 where d1: "(if delta then declare_delta c1 g s t n (the dirty) chunks else (SS_OK, c1)) = (rc1, c2)"
      by fastforce
    have dev1: "cl_device_id c1 = cl_device_id c" using em1 by (simp add: emitted_def follows_def)
    have "\<exists>ws. emitted c1 c2 ws \<and> (\<forall>m \<in> set ws. ?pm m) \<and> (delta \<or> ws = []) \<and> (rc1 = SS_OK \<and> delta \<longrightarrow>
        (\<forall>k. k * 8192 < unat chunks \<and> window_length (the dirty) (unat chunks) k \<noteq> 0 \<longrightarrow>
             window_message (cl_device_id c) g s t n (the dirty) (unat chunks) k \<in> set ws))"
    proof (cases delta)
      case False
      then show ?thesis using d1 emitted_refl[OF emitted_ready[OF em1]] by (intro exI[of _ "[]"]) auto
    next
      case True
      then obtain d where d: "dirty = Some d" using bs(3) begun(1) by auto
      obtain ws where ws: "emitted c1 c2 ws"
        "set ws \<subseteq> window_message (cl_device_id c) g s t n d (unat chunks) ` {..<(unat chunks + 8191) div 8192}"
        "rc1 = SS_OK \<longrightarrow> (\<forall>k < (unat chunks + 8191) div 8192. window_length d (unat chunks) k \<noteq> 0 \<longrightarrow>
           window_message (cl_device_id c) g s t n d (unat chunks) k \<in> set ws)"
        using declare_windows_emitted[OF emitted_ready[OF em1], of g s t n d "unat chunks"
            "[0..<(unat chunks + 8191) div 8192]" rc1 c2] d1 True
        by (auto simp: d declare_delta_def SS_MAX_PAYLOAD_def dev1 atLeast0LessThan)
      have "k < (unat chunks + 8191) div 8192" if "k * 8192 < unat chunks" for k
        using that block_le by simp
      then show ?thesis using ws d True unfolding push_message_def chunks_def by (intro exI[of _ ws]) auto
    qed
    then obtain ws where ws: "emitted c1 c2 ws" "\<forall>m \<in> set ws. ?pm m" "delta \<or> ws = []"
      "rc1 = SS_OK \<and> delta \<longrightarrow> (\<forall>k. k * 8192 < unat chunks \<and> window_length (the dirty) (unat chunks) k \<noteq> 0 \<longrightarrow>
             window_message (cl_device_id c) g s t n (the dirty) (unat chunks) k \<in> set ws)" by blast
    have em2: "emitted c c2 (bs @ ws)" by (rule emitted_trans[OF em1 ws(1)])
    have dev2: "cl_device_id c2 = cl_device_id c" using em2 by (simp add: emitted_def follows_def)
    show ?thesis
    proof (cases "rc1 = SS_OK")
      case False
      then have "rc = rc1" "c' = c2" using begun(4) d1 by auto
      then show ?thesis using em2 pmb ws(2) False by (intro exI[of _ "bs @ ws"]) auto
    next
      case ok: True
      let ?bm = "if delta then blit (memset bm 0 ?needed) 0 (take ?needed (the dirty))
          else fold (\<lambda>i bm. ss_bitmap_set bm 0 (of_nat i)) [0..<unat chunks] (memset bm 0 ?needed)"
      have pr: "push_rounds (nat (cl_max_rounds c2)) c2 g s img n parent t ?dg chunks ?bm = Some (rc, v, bm', c')"
        using begun(4) d1 ok by simp
      have dl: "length ?dg \<le> 1024" by simp
      obtain ms where ms: "emitted c2 c' ms" "set ms \<subseteq> cm ` {i. i < chunks} \<union> {en}"
        "rc = SS_OK \<longrightarrow> (\<exists>rest. ms = map cm (filter (ss_bitmap_test ?bm 0) (all_chunks chunks)) @ [en] @ rest)"
        using push_rounds_emitted[OF emitted_ready[OF em2] dl pr] by (auto simp: dev2 cm_def en_def)
      have "\<forall>m \<in> set ms. ?pm m" using ms(2) unfolding push_message_def cm_def en_def chunks_def by blast
      moreover have lt: "unat chunks < 2 ^ 32" by (rule unat_u32_lt)
      have "unat chunks \<le> 8 * ?needed" by presburger
      then have fit: "unat chunks \<le> 8 * length (memset bm 0 ?needed)" "?needed \<le> length bm"
        using begun(2) by (simp, linarith)
      have sel: "filter (ss_bitmap_test ?bm 0) (all_chunks chunks) =
          (if delta then filter (\<lambda>i. bitmap_bit (the dirty) (unat i)) (all_chunks chunks) else all_chunks chunks)"
      proof (cases delta)
        case False
        have "ss_bitmap_test ?bm 0 i" if "i < chunks" for i
          using that False bitmap_fill(2)[OF fit(1) lt, of "unat i"]
          by (simp add: ss_bitmap_test_bit word_less_nat_alt)
        then show ?thesis using False by (simp add: filter_id_conv in_all_chunks)
      next
        case True
        then obtain d where d: "dirty = Some d" using bs(3) begun(1) by auto
        have "ss_bitmap_test ?bm 0 i \<longleftrightarrow> bitmap_bit d (unat i)" if "i < chunks" for i
        proof -
          have "unat i < 8 * ?needed" using that \<open>unat chunks \<le> 8 * ?needed\<close> by (simp add: word_less_nat_alt)
          then show ?thesis
            using True d fit(2) dlen[OF d]
            by (simp add: ss_bitmap_test_bit bitmap_bit_blit_front bitmap_bit_take chunks_def)
        qed
        then show ?thesis using True d by (auto simp: in_all_chunks intro!: filter_cong)
      qed
      moreover have b: "bs \<noteq> []" "last bs = bg delta" "delta \<longrightarrow> dirty \<noteq> None" using bs(3) begun(1) by auto
      ultimately have pms: "\<forall>m \<in> set ((bs @ ws) @ ms). ?pm m" using pmb ws(2) by auto
      define sl where "sl = filter (ss_bitmap_test ?bm 0) (all_chunks chunks)"
      have final: "last bs = bg False \<and> ws = [] \<and> sl = all_chunks chunks \<or>
        (\<exists>d. dirty = Some d \<and> last bs = bg True \<and> sl = filter (\<lambda>i. bitmap_bit d (unat i)) (all_chunks chunks) \<and>
           (\<forall>k. k * 8192 < unat chunks \<and> window_length d (unat chunks) k \<noteq> 0 \<longrightarrow>
             window_message (cl_device_id c) g s t n d (unat chunks) k \<in> set ws))"
        using b ws(3,4) sel ok unfolding sl_def by (cases delta) auto
      show ?thesis
      proof (rule exI[of _ "(bs @ ws) @ ms"], intro conjI impI)
        show "emitted c c' ((bs @ ws) @ ms)" by (rule emitted_trans[OF em2 ms(1)])
        show "\<forall>m \<in> set ((bs @ ws) @ ms). ?pm m" by (rule pms)
        assume "rc = SS_OK"
        then obtain rest where rest: "ms = map cm sl @ [en] @ rest" using ms(3) unfolding sl_def by blast
        show "\<exists>bs' ws' sel rest. (bs @ ws) @ ms = bs' @ ws' @ map cm sel @ [en] @ rest \<and> bs' \<noteq> [] \<and>
          (last bs' = bg False \<and> ws' = [] \<and> sel = all_chunks chunks \<or>
           (\<exists>d. dirty = Some d \<and> last bs' = bg True \<and> sel = filter (\<lambda>i. bitmap_bit d (unat i)) (all_chunks chunks) \<and>
           (\<forall>k. k * 8192 < unat chunks \<and> window_length d (unat chunks) k \<noteq> 0 \<longrightarrow>
             window_message (cl_device_id c) g s t n d (unat chunks) k \<in> set ws')))"
          using b(1) final rest by - (rule exI[of _ bs], rule exI[of _ ws], rule exI[of _ sl], rule exI[of _ rest], simp)
      qed
    qed
  qed
qed

end

subsection \<open>A push returns\<close>

lemma send_chunks_from_kept:
  "send_chunks_from c g s t img n bm is = (rc, c') \<Longrightarrow> kept c' = kept c"
proof (induction "is" arbitrary: c)
  case (Cons i "is")
  obtain h p where m: "chunk_message (cl_device_id c) g s t img n i = (h, p)" by fastforce
  obtain rc1 c1 where e: "emit c h p = (rc1, c1)" by fastforce
  show ?case
    using Cons.prems Cons.IH[of c] Cons.IH[of c1] emit_kept[OF e] by (auto simp: m e split: if_splits)
qed simp

lemma declare_window_kept:
  "declare_window c g s t n dirty base len = (rc, c') \<Longrightarrow> kept c' = kept c"
  by (auto simp: declare_window_def Let_def split: if_splits prod.splits sum.splits
      dest!: control_exchange_kept note_nack_kept)

lemma declare_windows_kept:
  "declare_windows c g s t n dirty chunks ks = (rc, c') \<Longrightarrow> kept c' = kept c"
proof (induction ks arbitrary: c)
  case (Cons k ks)
  obtain rc1 c1 where d: "declare_window c g s t n dirty (of_nat (k * 8192)) ((min (chunks - k * 8192) 8192 + 7) div 8) = (rc1, c1)"
    by fastforce
  show ?case
    using Cons.prems Cons.IH[of c1] declare_window_kept[OF d] d by (auto simp: SS_MAX_PAYLOAD_def split: if_splits)
qed simp

lemma begin_attempts_kept:
  "begin_attempts k c g s n parent t delta = (r, c') \<Longrightarrow> kept c' = kept c"
proof (induction k arbitrary: c delta)
  case (Suc k)
  obtain h p where m: "begin_message (cl_device_id c) g s n parent t delta = (h, p)" by fastforce
  obtain r1 c1 where x: "control_exchange c h p = (r1, c1)" by fastforce
  show ?case
    using Suc.prems Suc.IH[of c1 False] control_exchange_kept[OF x]
    by (auto simp: m x split: sum.splits if_splits prod.splits dest!: note_nack_kept)
qed simp

lemma gather_gaps_kept:
  fixes c c' :: "'x ss_client"
  assumes "gather_gaps c chunks bm h p = Some (e, bm', c')"
  shows "kept c' = kept c"
proof (rule gather_gaps_induct[OF assms])
  fix c c1 :: "'x ss_client" and r
  assume "await_reply c = (r, c1)"
  then show "kept c1 = kept c" by (rule await_reply_kept)
next
  fix c c1 :: "'x ss_client" and h1 p1
  assume "await_reply c = (Inr (h1, p1), c1)"
  then show "kept (snd (note_nack c1 h1 p1)) = kept c"
    using await_reply_kept note_nack_kept by (metis prod.collapse)
next
  fix c c1 c' :: "'x ss_client" and h1 p1
  assume "await_reply c = (Inr (h1, p1), c1)" "kept c' = kept c1"
  then show "kept c' = kept c" using await_reply_kept by fastforce
qed

lemma push_round_kept:
  assumes r: "push_round c g s img n parent t digest chunks bm = Some (e, bm', c')"
  shows "kept c' = kept c"
proof -
  obtain rc1 c1 where sc: "send_chunks c g s t img n bm chunks = (rc1, c1)" by fastforce
  obtain h p where m: "end_message (cl_device_id c1) g s n parent t digest = (h, p)" by fastforce
  obtain rc2 c2 where e2: "emit c1 h p = (rc2, c2)" by fastforce
  obtain r3 c3 where a: "await_reply c2 = (r3, c3)" by fastforce
  have eq: "kept c1 = kept c" "kept c2 = kept c"
    "kept c3 = kept c"
    using send_chunks_from_kept[OF sc[unfolded send_chunks_def]] emit_kept[OF e2] await_reply_kept[OF a] by simp_all
  have nn: "kept (snd (note_nack c3 h3 p3)) = kept c3" for h3 p3
    using note_nack_kept by (metis prod.collapse)
  have "c' \<in> {c1, c2, c3} \<or> (\<exists>h3 p3. c' = snd (note_nack c3 h3 p3)) \<or>
      (\<exists>b4 h3 p3. gather_gaps c3 chunks b4 h3 p3 = Some (e, bm', c'))"
  proof (cases r3)
    case (Inl rc)
    then show ?thesis using r by (auto simp: push_round_def Let_def sc m e2 a split: if_splits)
  next
    case (Inr hp)
    obtain h3 p3 where hp: "hp = (h3, p3)" by fastforce
    obtain rc4 c4 where n4: "note_nack c3 h3 p3 = (rc4, c4)" by fastforce
    have "\<exists>h p. c4 = snd (note_nack c3 h p)" by (metis n4 snd_conv)
    then show ?thesis
      using r unfolding push_round_def Let_def sc prod.case m e2 a Inr hp sum.case n4 by (auto split: if_splits)
  qed
  then show ?thesis using eq nn gather_gaps_kept by fastforce
qed

lemma push_rounds_kept:
  "push_rounds k c g s img n parent t digest chunks bm = Some (rc, v, bm', c') \<Longrightarrow>
   kept c' = kept c"
proof (induction k arbitrary: c bm)
  case (Suc k)
  obtain e b1 c1 where r: "push_round c g s img n parent t digest chunks bm = Some (e, b1, c1)"
    using Suc.prems by (auto split: option.splits)
  show ?case using Suc.prems Suc.IH[of c1 b1] push_round_kept[OF r] by (cases e) (simp_all add: r)
qed simp

lemma push_once_kept:
  assumes "push_once c g s img n parent t dirty bm = Some (rc, v, bm', c')"
  shows "c' = c \<and> rc \<noteq> SS_OK \<or> kept c' = (tp_recv (transport c), sha256 (take (unat n) img))"
proof -
  let ?c = "c\<lparr>cl_last_digest := sha256 (take (unat n) img)\<rparr>"
  obtain b c1 where b: "begin_attempts 2 ?c g s n parent t (dirty \<noteq> None) = (b, c1)" by fastforce
  obtain rc2 c2 where d: "declare_delta c1 g s t n (the dirty) (ss_chunk_count n) = (rc2, c2)" by fastforce
  have k: "kept c1 = kept ?c" "kept c2 = kept ?c"
    using begin_attempts_kept[OF b] declare_windows_kept[OF d[unfolded declare_delta_def Let_def]] by simp_all
  have "c' = c \<and> rc \<noteq> SS_OK \<or> kept c' = kept ?c"
    using assms push_rounds_kept k unfolding push_once_def Let_def b prod.case d
    by (fastforce split: sum.splits if_splits option.splits)
  then show ?thesis by (simp add: kept_def)
qed

text \<open>The digest a push that got as far as its first message leaves for the caller is the card's.\<close>

lemma ss_push_delta_digest:
  assumes "ss_push_delta c g s img n parent t dirty bm = Some (rc, v, bm', c')"
  shows "c' = c \<and> rc \<noteq> SS_OK \<or> cl_last_digest c' = sha256 (take (unat n) img)"
proof -
  obtain rc1 v1 b1 c1 where p: "push_once c g s img n parent t dirty bm = Some (rc1, v1, b1, c1)"
    using assms by (auto simp: ss_push_delta_def split: option.splits)
  show ?thesis
  proof (cases "dirty \<noteq> None \<and> rc1 = SS_ERR_SERVER \<and> cl_last_error_code c1 = SS_NACK_CHECKSUM")
    case True
    then have p2: "push_once c1 g s img n parent t None b1 = Some (rc, v, bm', c')"
      using assms by (simp add: ss_push_delta_def p)
    show ?thesis using push_once_kept[OF p] push_once_kept[OF p2] by (auto simp: kept_def)
  next
    case False
    then have "c' = c1 \<and> rc = rc1" using assms by (auto simp: ss_push_delta_def p split: if_splits)
    then show ?thesis using push_once_kept[OF p] by (auto simp: kept_def)
  qed
qed

context ending_bursts
begin

lemma gather_gaps_returns: "receives c \<Longrightarrow> gather_gaps c chunks bm h p \<noteq> None"
proof (induction "pending c" arbitrary: c bm h p rule: less_induct)
  case less
  obtain r c1 where a: "await_reply c = (r, c1)" by fastforce
  show ?case
  proof (cases r)
    case (Inl rc)
    then show ?thesis by (subst gather_gaps.simps) (simp add: a Let_def)
  next
    case (Inr hp)
    obtain h1 p1 where hp: "hp = (h1, p1)" by fastforce
    have "receives c1" "pending c1 < pending c"
      using await_reply_pending[OF less.prems, of hp c1] a Inr by auto
    then have "gather_gaps c1 chunks bm1 h1 p1 \<noteq> None" for bm1 using less.hyps by blast
    then show ?thesis by (subst gather_gaps.simps) (simp add: a Inr hp Let_def split: prod.split)
  qed
qed

lemma push_round_returns:
  assumes "receives c"
  shows "push_round c g s img n parent t digest chunks bm \<noteq> None"
proof -
  obtain rc1 c1 where sc: "send_chunks c g s t img n bm chunks = (rc1, c1)" by fastforce
  obtain h p where m: "end_message (cl_device_id c1) g s n parent t digest = (h, p)" by fastforce
  obtain rc2 c2 where e2: "emit c1 h p = (rc2, c2)" by fastforce
  obtain r3 c3 where a: "await_reply c2 = (r3, c3)" by fastforce
  have "receives c3"
    using assms send_chunks_from_kept[OF sc[unfolded send_chunks_def]] emit_kept[OF e2] await_reply_kept[OF a]
    by (simp add: receives_def kept_def)
  then show ?thesis
    using gather_gaps_returns[of c3]
    by (auto simp: push_round_def Let_def sc m e2 a split: sum.split prod.split)
qed

lemma push_rounds_returns: "receives c \<Longrightarrow> push_rounds k c g s img n parent t digest chunks bm \<noteq> None"
proof (induction k arbitrary: c bm)
  case (Suc k)
  obtain e b1 c1 where r: "push_round c g s img n parent t digest chunks bm = Some (e, b1, c1)"
    using push_round_returns[OF Suc.prems] by fastforce
  have "receives c1" using push_round_kept[OF r] Suc.prems by (simp add: receives_def kept_def)
  then show ?case using Suc.IH[of c1 b1] by (cases e) (simp_all add: r)
qed simp

lemma push_once_returns:
  assumes c: "receives c"
  shows "push_once c g s img n parent t dirty bm \<noteq> None"
proof -
  obtain b c1 where b: "begin_attempts 2 (c\<lparr>cl_last_digest := sha256 (take (unat n) img)\<rparr>) g s n parent t (dirty \<noteq> None) = (b, c1)"
    by fastforce
  obtain rc2 c2 where d: "declare_delta c1 g s t n (the dirty) (ss_chunk_count n) = (rc2, c2)" by fastforce
  have "receives c1" using c begin_attempts_kept[OF b] by (simp add: receives_def kept_def)
  moreover have "receives c2"
    using calculation declare_windows_kept[OF d[unfolded declare_delta_def Let_def]] by (simp add: receives_def kept_def)
  ultimately show ?thesis
    using push_rounds_returns[of c1] push_rounds_returns[of c2]
    unfolding push_once_def Let_def b prod.case d
    by (simp split: sum.split option.split)
qed

lemma ss_push_delta_returns:
  assumes c: "receives c"
  shows "ss_push_delta c g s img n parent t dirty bm \<noteq> None"
proof -
  obtain rc v b1 c1 where p: "push_once c g s img n parent t dirty bm = Some (rc, v, b1, c1)"
    using push_once_returns[OF c] by (metis not_None_eq prod.exhaust)
  have "receives c1" using push_once_kept[OF p] c by (auto simp: receives_def kept_def)
  then show ?thesis using push_once_returns[of c1] by (simp add: ss_push_delta_def p)
qed

end

subsection \<open>Gap reports\<close>

lemma mark_gaps_bits:
  assumes "unat chunks \<le> 8 * length bm"
  shows "length (mark_gaps chunks base p bm) = length bm"
    and "bitmap_bit (mark_gaps chunks base p bm) j \<longleftrightarrow> bitmap_bit bm j \<or>
      (j < unat chunks \<and> (\<exists>k. bitmap_bit (drop 1 p) k \<and> j = unat (base + of_nat k)))"
proof -
  define set1 where "set1 = (\<lambda>i b bm. if p ! i AND push_bit b 1 \<noteq> 0
         then (let index = base + of_nat ((i - 1) * 8 + b)
               in if index < chunks then ss_bitmap_set bm 0 index else bm) else bm)"
  define Q where "Q = (\<lambda>i b j. bit (p ! i) b \<and> j = unat (base + of_nat ((i - 1) * 8 + b)) \<and> j < unat chunks)"
  have 1: "length (set1 i b bm1) = length bm \<and> (\<forall>j. bitmap_bit (set1 i b bm1) j \<longleftrightarrow> bitmap_bit bm1 j \<or> Q i b j)"
    if l: "length bm1 = length bm" for i b bm1
  proof -
    let ?x = "base + of_nat ((i - 1) * 8 + b)"
    have "?x < chunks \<Longrightarrow> unat ?x div 8 < length bm1" using assms l by (simp add: word_less_nat_alt)
    then show ?thesis
      using l unfolding set1_def Q_def bit_iff_and_push_bit_not_eq_0 Let_def
      by (auto simp: bitmap_bit_set word_less_nat_alt)
  qed
  have 2: "length (fold (set1 i) [0..<8] bm1) = length bm \<and>
      (\<forall>j. bitmap_bit (fold (set1 i) [0..<8] bm1) j \<longleftrightarrow> bitmap_bit bm1 j \<or> (\<exists>b \<in> set [0..<8]. Q i b j))"
    if "length bm1 = length bm" for i bm1
    by (rule bitmap_fold[OF 1 that])
  have mg: "mark_gaps chunks base p bm = fold (\<lambda>i. fold (set1 i) [0..<8]) [1..<length p] bm"
    by (simp only: mark_gaps_def set1_def)
  have 3: "length (mark_gaps chunks base p bm) = length bm \<and>
      (\<forall>j. bitmap_bit (mark_gaps chunks base p bm) j \<longleftrightarrow>
        bitmap_bit bm j \<or> (\<exists>i \<in> set [1..<length p]. \<exists>b \<in> set [0..<8]. Q i b j))"
    unfolding mg by (rule bitmap_fold[OF 2 refl])
  then show "length (mark_gaps chunks base p bm) = length bm" by simp
  have "(\<exists>i \<in> set [1..<length p]. \<exists>b \<in> set [0..<8]. Q i b j) \<longleftrightarrow>
      (j < unat chunks \<and> (\<exists>k. bitmap_bit (drop 1 p) k \<and> j = unat (base + of_nat k)))"
  proof
    assume "\<exists>i \<in> set [1..<length p]. \<exists>b \<in> set [0..<8]. Q i b j"
    then obtain i b where ib: "1 \<le> i" "i < length p" "b < 8" "Q i b j" by auto
    have "((i - 1) * 8 + b) div 8 = i - 1" "((i - 1) * 8 + b) mod 8 = b" using ib(3) by simp_all
    then have "bitmap_bit (drop 1 p) ((i - 1) * 8 + b)"
      using ib by (simp add: bitmap_bit_def Q_def)
    then show "j < unat chunks \<and> (\<exists>k. bitmap_bit (drop 1 p) k \<and> j = unat (base + of_nat k))"
      using ib(4) unfolding Q_def by blast
  next
    assume "j < unat chunks \<and> (\<exists>k. bitmap_bit (drop 1 p) k \<and> j = unat (base + of_nat k))"
    then obtain k where k: "j < unat chunks" "bitmap_bit (drop 1 p) k" "j = unat (base + of_nat k)" by blast
    have lt: "k div 8 + 1 < length p" and "bit (p ! (k div 8 + 1)) (k mod 8)" using k(2) by (auto simp: bitmap_bit_def)
    moreover have "(k div 8 + 1 - 1) * 8 + k mod 8 = k" by simp
    ultimately have "Q (k div 8 + 1) (k mod 8) j" unfolding Q_def using k by simp
    moreover have "k div 8 + 1 \<in> set [1..<length p]" "k mod 8 \<in> set [0..<8]"
      using lt by simp_all
    ultimately show "\<exists>i \<in> set [1..<length p]. \<exists>b \<in> set [0..<8]. Q i b j" by blast
  qed
  then show "bitmap_bit (mark_gaps chunks base p bm) j \<longleftrightarrow> bitmap_bit bm j \<or>
      (j < unat chunks \<and> (\<exists>k. bitmap_bit (drop 1 p) k \<and> j = unat (base + of_nat k)))"
    using 3 by blast
qed

subsection \<open>A push against a server that repeats itself\<close>

lemma echoing_send_chunks:
  assumes "echoing c h p"
  shows "\<exists>c1. send_chunks_from c g s t img n bm is = (SS_OK, c1) \<and> echoing c1 h p \<and> cl_max_rounds c1 = cl_max_rounds c"
  using assms
proof (induction "is" arbitrary: c)
  case (Cons i "is")
  show ?case
  proof (cases "ss_bitmap_test bm 0 i")
    case True
    obtain h1 p1 where m: "chunk_message (cl_device_id c) g s t img n i = (h1, p1)" by fastforce
    have wf: "wf_message (h1, p1)" using wf_chunk_message[of "cl_device_id c" g s t img n i] by (simp add: m)
    obtain c1 where c1: "emit c h1 p1 = (SS_OK, c1)" "echoing c1 h p" "follows c c1 1"
      by (rule echoing_emit[OF Cons.prems wf])
    then show ?thesis using Cons.IH[OF c1(2)] True m by (auto simp: follows_def)
  qed (use Cons in simp)
qed simp

lemma echoing_declare_windows:
  assumes "echoing c h p" "h_msg_type h = SS_ACK" "0 < cl_max_rounds c"
  shows "\<exists>c1. declare_windows c g s t n dirty chunks ks = (SS_OK, c1) \<and> echoing c1 h p \<and> cl_max_rounds c1 = cl_max_rounds c"
  using assms
proof (induction ks arbitrary: c)
  case (Cons k ks)
  let ?b = "of_nat (k * 8192) :: u32" and ?len = "(min (chunks - k * 8192) 8192 + 7) div 8"
  let ?l = "trim_window dirty (unat (drop_bit 3 ?b)) ?len"
  have "\<exists>c1. declare_window c g s t n dirty ?b ?len = (SS_OK, c1) \<and> echoing c1 h p \<and> cl_max_rounds c1 = cl_max_rounds c"
  proof (cases "?l = 0")
    case True
    then show ?thesis using Cons.prems by (simp add: declare_window_def Let_def)
  next
    case False
    obtain h1 p1 where m: "delta_message (cl_device_id c) g s t n dirty ?b ?l = (h1, p1)" by fastforce
    have "?l \<le> 1024" by (rule order_trans[OF trim_window_le window_le])
    then have wf: "wf_message (h1, p1)" using wf_messages(3)[of ?l "cl_device_id c" g s t n dirty ?b] by (simp only: m)
    obtain c1 where "control_exchange c h1 p1 = (Inr (h, p), c1)" "echoing c1 h p" "follows c c1 1"
      by (rule echoing_exchange[OF Cons.prems(1) wf Cons.prems(3)])
    then show ?thesis using False m Cons.prems(2) by (simp add: declare_window_def Let_def msg_types follows_def)
  qed
  then obtain c1 where "declare_window c g s t n dirty ?b ?len = (SS_OK, c1)" "echoing c1 h p" "cl_max_rounds c1 = cl_max_rounds c"
    by blast
  then show ?case using Cons.IH[of c1] Cons.prems by (simp add: SS_MAX_PAYLOAD_def)
qed simp

text \<open>An ACK, whatever it acknowledged, ends each of the exchanges a push waits in.\<close>

lemma push_accepts_ack:
  assumes e: "echoing c h p" and ack: "h_msg_type h = SS_ACK" and r: "0 < cl_max_rounds c"
    and n: "n \<noteq> 0" and bm: "(unat (ss_chunk_count n) + 7) div 8 \<le> length bm"
    and d: "case dirty of None \<Rightarrow> True | Some d \<Rightarrow> \<not> declares_past_the_end d (ss_chunk_count n)"
  shows "\<exists>bm' c'. push_once c g s img n parent t dirty bm = Some (SS_OK, Some (h_card_version h), bm', c')"
proof -
  let ?dg = "sha256 (take (unat n) img)" and ?ch = "ss_chunk_count n" and ?delta = "dirty \<noteq> None"
  let ?c0 = "c\<lparr>cl_last_digest := ?dg\<rparr>"
  have e0: "echoing ?c0 h p" "0 < cl_max_rounds ?c0" using e r by (auto simp: echoing_def)
  obtain h1 p1 where m1: "begin_message (cl_device_id ?c0) g s n parent t ?delta = (h1, p1)" by fastforce
  have wf1: "wf_message (h1, p1)" using wf_messages(1)[of "cl_device_id ?c0" g s n parent t ?delta] by (simp only: m1)
  obtain c1 where x: "control_exchange ?c0 h1 p1 = (Inr (h, p), c1)" "echoing c1 h p" "follows ?c0 c1 1"
    by (rule echoing_exchange[OF e0(1) wf1 e0(2)])
  have r1: "0 < cl_max_rounds c1" using x(3) r by (simp add: follows_def)
  have b: "begin_attempts 2 ?c0 g s n parent t ?delta = (Inr ?delta, c1)"
    using m1 x(1) ack by (simp add: numeral_2_eq_2)
  have "\<exists>c2. (if ?delta then declare_delta c1 g s t n (the dirty) ?ch else (SS_OK, c1)) = (SS_OK, c2) \<and>
      echoing c2 h p \<and> 0 < cl_max_rounds c2"
  proof (cases ?delta)
    case True
    then show ?thesis
      using echoing_declare_windows[OF x(2) ack r1] r1 unfolding declare_delta_def Let_def by (simp only: if_True) metis
  next
    case False
    then show ?thesis using x(2) r1 by simp
  qed
  then obtain c2 where dc: "(if ?delta then declare_delta c1 g s t n (the dirty) ?ch else (SS_OK, c1)) = (SS_OK, c2)"
    "echoing c2 h p" "0 < cl_max_rounds c2" by blast
  obtain k where k: "nat (cl_max_rounds c2) = Suc k" using dc(3) by (cases "nat (cl_max_rounds c2)") auto
  define bm0 where "bm0 = memset bm 0 ((unat ?ch + 7) div 8)"
  define bm1 where "bm1 = (if ?delta then blit bm0 0 (take ((unat ?ch + 7) div 8) (the dirty))
    else fold (\<lambda>i bm. ss_bitmap_set bm 0 (of_nat i)) [0..<unat ?ch] bm0)"
  obtain c3 where sc: "send_chunks_from c2 g s t img n bm1 (all_chunks ?ch) = (SS_OK, c3)" "echoing c3 h p"
    using echoing_send_chunks[OF dc(2)] by blast
  obtain h3 p3 where m3: "end_message (cl_device_id c3) g s n parent t ?dg = (h3, p3)" by fastforce
  have wf3: "wf_message (h3, p3)" using wf_messages(2)[of ?dg "cl_device_id c3" g s n parent t] m3 by simp
  obtain c4 where c4: "emit c3 h3 p3 = (SS_OK, c4)" "echoing c4 h p" by (rule echoing_emit[OF sc(2) wf3])
  obtain c5 where c5: "await_reply c4 = (Inr (h, p), c5)" by (rule echoing_await[OF c4(2)])
  have "push_round c2 g s img n parent t ?dg ?ch bm1 = Some (PushDone SS_OK (Some (h_card_version h)), bm1, c5)"
    using sc(1) m3 c4(1) c5 ack by (simp add: push_round_def send_chunks_def all_chunks_def[symmetric])
  then have pr: "push_rounds (nat (cl_max_rounds c2)) c2 g s img n parent t ?dg ?ch bm1 =
      Some (SS_OK, Some (h_card_version h), bm1, c5)" by (simp add: k)
  have "push_once c g s img n parent t dirty bm = Some (SS_OK, Some (h_card_version h), bm1, c5)"
    using n bm d pr unfolding push_once_def Let_def b dc(1) prod.case sum.case bm0_def[symmetric] bm1_def[symmetric]
    by (auto split: option.splits)
  then show ?thesis by blast
qed

subsection \<open>The messages of a whole push\<close>

lemma push_message_wf: "push_message d g s img n parent t dirty m \<Longrightarrow> wf_message m"
proof -
  have "window_length dt ch k \<le> 1024" for dt ch k
    unfolding window_length_def by (rule order_trans[OF trim_window_le window_le])
  then have w: "wf_message (window_message d g s t n dt ch k)" for dt ch k
    unfolding window_message_def by (rule wf_messages(3))
  show "push_message d g s img n parent t dirty m \<Longrightarrow> wf_message m"
    by (auto simp: push_message_def wf_messages wf_chunk_message w)
qed

text \<open>What the receiver of a message of this transfer can rely on.\<close>

definition message_sound :: "byte list \<Rightarrow> u32 \<Rightarrow> u32 \<Rightarrow> u32 \<Rightarrow> ss_header \<times> byte list \<Rightarrow> bool" where
  "message_sound img n parent t m \<longleftrightarrow>
     h_card_version (fst m) = t \<and> h_total_size (fst m) = n \<and>
     (h_msg_type (fst m) = SS_PUSH_CHUNK \<longrightarrow>
        unat (h_offset (fst m)) = 1024 * unat (h_sequence (fst m)) \<and> snd m \<noteq> [] \<and>
        unat (h_offset (fst m)) + length (snd m) \<le> unat n \<and>
        snd m = bytes_at (take (unat n) img) (unat (h_offset (fst m))) 1024) \<and>
     (h_msg_type (fst m) = SS_PUSH_BEGIN \<longrightarrow> h_parent_version (fst m) = parent) \<and>
     (h_msg_type (fst m) = SS_PUSH_END \<longrightarrow>
        h_parent_version (fst m) = parent \<and> snd m = sha256 (take (unat n) img))"

lemma push_message_sound:
  assumes m: "push_message d g s img n parent t dirty m" and n: "unat n \<le> length img" "unat n + 1023 < 2 ^ 32"
  shows "message_sound img n parent t m"
proof -
  have "message_sound img n parent t (chunk_message d g s t img n i)" if i: "i < ss_chunk_count n" for i
  proof -
    have k: "unat i * 1024 < unat n"
      using chunk_count_covers[OF n(2), of "unat i"] i by (simp add: word_less_nat_alt)
    show ?thesis
      using chunk_message_fields[OF k n(1), of d g s t] k n(1)
      by (auto simp: message_sound_def msg_types simp flip: length_greater_0_conv)
  qed
  then show ?thesis
    using m unfolding push_message_def
    by (auto simp: message_sound_def begin_message_def end_message_def window_message_def delta_message_def
        ss_header_init_def msg_types)
qed

lemma net_follows_transport:
  "transport c = net_transport accepts delivers es \<Longrightarrow> follows c c' k \<Longrightarrow>
   transport c' = net_transport accepts delivers (tp_ctx (transport c'))"
  by (simp add: net_transport_def follows_def)

lemma push_message_whole: "push_message d g s img n parent t None m \<Longrightarrow> push_message d g s img n parent t dirty m"
  by (auto simp: push_message_def)

lemma ss_push_delta_emitted:
  assumes c: "net.ready accepts delivers c"
    and r: "ss_push_delta c g s img n parent t dirty bm = Some (rc, v, bm', c')"
    and dlen: "\<And>d. dirty = Some d \<Longrightarrow> (unat (ss_chunk_count n) + 7) div 8 \<le> length d"
  shows "\<exists>ms. net.emitted accepts delivers c c' ms \<and>
    (\<forall>m \<in> set ms. push_message (cl_device_id c) g s img n parent t dirty m)"
proof -
  obtain rc1 v1 b1 c1 where p: "push_once c g s img n parent t dirty bm = Some (rc1, v1, b1, c1)"
    using r by (auto simp: ss_push_delta_def split: option.splits)
  obtain ms where ms: "net.emitted accepts delivers c c1 ms"
    "\<forall>m \<in> set ms. push_message (cl_device_id c) g s img n parent t dirty m"
    using net.push_once_emitted[OF c p dlen] by blast
  show ?thesis
  proof (cases "dirty \<noteq> None \<and> rc1 = SS_ERR_SERVER \<and> cl_last_error_code c1 = SS_NACK_CHECKSUM")
    case False
    then have "c' = c1" using r p by (auto simp: ss_push_delta_def split: if_splits)
    then show ?thesis using ms by blast
  next
    case True
    then have p2: "push_once c1 g s img n parent t None b1 = Some (rc, v, bm', c')"
      using r p by (simp add: ss_push_delta_def)
    have dev: "cl_device_id c1 = cl_device_id c" using net.emitted_follows[OF ms(1)] by (simp add: follows_def)
    obtain ns where ns: "net.emitted accepts delivers c1 c' ns"
      "\<forall>m \<in> set ns. push_message (cl_device_id c) g s img n parent t None m"
      using net.push_once_emitted[OF net.emitted_ready[OF ms(1)] p2] unfolding dev by blast
    have "\<forall>m \<in> set ns. push_message (cl_device_id c) g s img n parent t dirty m"
      using ns(2) push_message_whole by blast
    then show ?thesis using net.emitted_trans[OF ms(1) ns(1)] ms(2) by (intro exI[of _ "ms @ ns"]) auto
  qed
qed

lemma all_chunk_messages:
  fixes d :: u64 and g img :: "byte list" and s :: byte and t n :: u32
  assumes n: "unat n \<le> length img" "unat n + 1023 < 2 ^ 32"
  defines "cs \<equiv> map (chunk_message d g s t img n) (all_chunks (ss_chunk_count n))"
  shows "length cs = unat (ss_chunk_count n)"
    and "k < length cs \<Longrightarrow> h_msg_type (fst (cs ! k)) = SS_PUSH_CHUNK \<and> unat (h_offset (fst (cs ! k))) = k * 1024 \<and>
      unat (h_sequence (fst (cs ! k))) = k \<and> h_card_version (fst (cs ! k)) = t"
    and "concat (map snd cs) = take (unat n) img"
proof -
  show l: "length cs = unat (ss_chunk_count n)" by (simp add: cs_def all_chunks_def)
  have nth: "cs ! k = chunk_message d g s t img n (of_nat k)" "k * 1024 < unat n" if "k < length cs" for k
    using that l chunk_count_covers[OF n(2), of k] by (simp_all add: cs_def all_chunks_def)
  show "h_msg_type (fst (cs ! k)) = SS_PUSH_CHUNK \<and> unat (h_offset (fst (cs ! k))) = k * 1024 \<and>
      unat (h_sequence (fst (cs ! k))) = k \<and> h_card_version (fst (cs ! k)) = t" if "k < length cs"
    unfolding nth(1)[OF that] using chunk_message_fields[OF nth(2)[OF that] n(1)] by blast
  have "map snd cs = map (\<lambda>k. bytes_at (take (unat n) img) (k * 1024) 1024) [0..<length cs]"
    by (rule nth_equalityI) (use nth chunk_message_fields(6)[OF _ n(1)] in simp_all)
  then have "concat (map snd cs) = take (unat (ss_chunk_count n) * 1024) (take (unat n) img)"
    by (simp only: concat_windows l)
  moreover have "unat n \<le> unat (ss_chunk_count n) * 1024"
    using chunk_count_covers[OF n(2), of "unat (ss_chunk_count n)"] by simp
  ultimately show "concat (map snd cs) = take (unat n) img" by (simp add: min_def)
qed

context logged_transport
begin

text \<open>What a successful push sends, over any transport that is on record.\<close>

lemma push_sends_whole:
  assumes "ready c" "unat n \<le> length img" "unat n + 1023 < 2 ^ 32" "ss_push c g s img n parent t bm = Some (SS_OK, v, bm', c')"
  shows "\<exists>bs cs rest. emitted c c' (bs @ cs @ [end_message (cl_device_id c) g s n parent t (sha256 (take (unat n) img))] @ rest) \<and>
    bs \<noteq> [] \<and> last bs = begin_message (cl_device_id c) g s n parent t False \<and>
    length cs = unat (ss_chunk_count n) \<and>
    (\<forall>k < length cs. h_msg_type (fst (cs ! k)) = SS_PUSH_CHUNK \<and> unat (h_offset (fst (cs ! k))) = k * 1024 \<and>
       unat (h_sequence (fst (cs ! k))) = k \<and> h_card_version (fst (cs ! k)) = t) \<and>
    concat (map snd cs) = take (unat n) img"
proof -
  let ?cs = "map (chunk_message (cl_device_id c) g s t img n) (all_chunks (ss_chunk_count n))"
  let ?en = "end_message (cl_device_id c) g s n parent t (sha256 (take (unat n) img))"
  obtain ms bs ws rest where ms: "emitted c c' ms" "ms = bs @ ?cs @ [?en] @ rest" "bs \<noteq> []"
    "last bs = begin_message (cl_device_id c) g s n parent t False"
    using push_once_emitted[OF assms(1) assms(4)[unfolded ss_push_def]] by auto
  show ?thesis
    using ms all_chunk_messages[OF assms(2,3), where d = "cl_device_id c" and g = g and s = s and t = t]
    by (intro exI[of _ bs] exI[of _ ?cs] exI[of _ rest]) auto
qed

end

subsection \<open>Properties\<close>

text \<open>
  C2: if \<open>ss_push\<close> reports success then, whatever the network did, before the first PUSH_END it sent
  PUSH_BEGIN naming the parent and every chunk of the card in order, each at its own offset; their payloads put together
  are the card, whose digest PUSH_END carries.
\<close>

theorem push_sends_card:
  assumes "transport c = net_transport accepts delivers es" "length (cl_nonce_seed c) = 8"
    and "unat n \<le> length img" "unat n + 1023 < 2 ^ 32"
    and "ss_push c g s img n parent t bm = Some (SS_OK, v, bm', c')"
  shows "\<exists>bs cs rest.
    sent_of (tp_ctx (transport c')) = sent_of es @ datagrams c (bs @ cs @
      [end_message (cl_device_id c) g s n parent t (sha256 (take (unat n) img))] @ rest) \<and>
    bs \<noteq> [] \<and> last bs = begin_message (cl_device_id c) g s n parent t False \<and>
    length cs = unat (ss_chunk_count n) \<and>
    (\<forall>k < length cs. h_msg_type (fst (cs ! k)) = SS_PUSH_CHUNK \<and> unat (h_offset (fst (cs ! k))) = k * 1024 \<and>
       unat (h_sequence (fst (cs ! k))) = k \<and> h_card_version (fst (cs ! k)) = t) \<and>
    concat (map snd cs) = take (unat n) img"
  using net.push_sends_whole[OF net_ready[OF assms(1,2)] assms(3-5)] net_emitted[OF _ assms(1)] by meson

text \<open>The run the witnesses below look at: a three-byte card against a network that answers everything with one ACK.\<close>

definition example_ack :: ss_header where
  "example_ack = (ss_header_init SS_ACK 7 (ascii ''GALE01'') 0)\<lparr>h_card_version := 5\<rparr>"

lemma example_echo: "echoing (echo_client example_ack []) example_ack []"
  by (rule echoing_echo_client) (simp_all add: example_ack_def wf_header_def ss_header_init_def SS_NONCE_SIZE_def)

lemma example_push:
  assumes "case dirty of None \<Rightarrow> True | Some d \<Rightarrow> d = [1]"
  shows "\<exists>bm' c'. push_once (echo_client example_ack []) g s [1, 2, 3] 3 4 5 dirty [0] = Some (SS_OK, Some 5, bm', c')"
proof -
  have "h_msg_type example_ack = SS_ACK" "h_card_version example_ack = 5" "ss_chunk_count 3 = 1"
    by (simp_all add: example_ack_def ss_header_init_def ss_chunk_count_def SS_MAX_PAYLOAD_def)
  moreover have "\<not> declares_past_the_end [1] 1"
    by (simp add: declares_past_the_end_def upt_rec)
  ultimately show ?thesis
    using push_accepts_ack[OF example_echo, of 3 "[0]" dirty g s "[1, 2, 3]" 4 5] assms
    by (auto simp: echo_client_fields split: option.splits)
qed

theorem push_sends_card_witness:
  "\<exists>v bm' c' bs cs rest. ss_push (echo_client example_ack []) (ascii ''GALE01'') 0 [1, 2, 3] 3 4 5 [0] = Some (SS_OK, v, bm', c') \<and>
     sent_of (tp_ctx (transport c')) = datagrams (echo_client example_ack []) (bs @ cs @
      [end_message 7 (ascii ''GALE01'') 0 3 4 5 (sha256 [1, 2, 3])] @ rest) \<and> concat (map snd cs) = [1, 2, 3]"
proof -
  let ?c = "echo_client example_ack []"
  obtain v bm' c' where r: "ss_push ?c (ascii ''GALE01'') 0 [1, 2, 3] 3 4 5 [0] = Some (SS_OK, v, bm', c')"
    using example_push[of None "ascii ''GALE01''" 0] unfolding ss_push_def by auto
  show ?thesis
    using push_sends_card[OF echo_client_fields(5) _ _ _ r] r
    by (fastforce simp: echo_client_fields)
qed





text \<open>
  A gap report adds to the bitmap exactly the chunks it names, bit \<open>k\<close> after its code byte standing for chunk
  \<open>base + k\<close>, and only those the card has.
\<close>

lemma gaps_exact:
  assumes "unat chunks \<le> 8 * length bm"
  shows "bitmap_bit (mark_gaps chunks base p bm) j \<longleftrightarrow> bitmap_bit bm j \<or>
    (j < unat chunks \<and> (\<exists>k. bitmap_bit (drop 1 p) k \<and> j = unat (base + of_nat k)))"
  by (rule mark_gaps_bits(2)[OF assms])

text \<open>
  C27: however the environment behaves, as long as it delivers only finitely many datagrams in a row between two of the
  client's sends, \<open>ss_push_delta\<close> returns.
\<close>

theorem push_returns:
  assumes "transport c = net_transport accepts (capped b delivers) es"
  shows "\<exists>rc v bm' c'. ss_push_delta c g s img n parent t dirty bm = Some (rc, v, bm', c')"
proof -
  have "capped.receives b delivers c" using assms by (simp add: capped.receives_def net_transport_def)
  from capped.ss_push_delta_returns[OF this, of g s img n parent t dirty bm] show ?thesis by fastforce
qed

theorem push_returns_witness:
  "\<exists>rc v bm' c'. ss_push_delta (ss_client_init (net_transport (\<lambda>_ _. True) (capped 3 (\<lambda>_. RecvData [])) [])
     (ascii ''key'') 7 None) (ascii ''GALE01'') 0 [1, 2, 3] 3 4 5 None [0] = Some (rc, v, bm', c')"
  by (rule push_returns) (simp add: ss_client_init_def)

text \<open>
  C36: nothing ties a reply to the request it answers: when every datagram received is one and the same authentic
  ACK (a late duplicate of the ACK to PUSH_BEGIN, say), a whole-card push reports success and returns that
  ACK's version as the one the server committed.
\<close>

theorem push_takes_any_ack:
  assumes "echoing c h p" "h_msg_type h = SS_ACK" "0 < cl_max_rounds c" "n \<noteq> 0"
    and "(unat (ss_chunk_count n) + 7) div 8 \<le> length bm"
  shows "\<exists>bm' c'. ss_push c g s img n parent t bm = Some (SS_OK, Some (h_card_version h), bm', c')"
  using push_accepts_ack[OF assms, of None] by (simp add: ss_push_def)

theorem push_takes_any_ack_witness:
  "\<exists>bm' c'. ss_push (echo_client example_ack []) (ascii ''GALE01'') 0 [1, 2, 3] 3 4 5 [0] = Some (SS_OK, Some 5, bm', c')"
proof -
  have "h_msg_type example_ack = SS_ACK" "h_card_version example_ack = 5" "ss_chunk_count 3 = 1"
    by (simp_all add: example_ack_def ss_header_init_def ss_chunk_count_def SS_MAX_PAYLOAD_def)
  then show ?thesis
    using push_takes_any_ack[OF example_echo, of 3 "[0]"] by (simp add: echo_client_fields)
qed

text \<open>
  An empty card, a scratch bitmap too small for the card, or a dirty bit past the card's last chunk is
  refused before anything is sent: the client and the bitmap are as they were.
\<close>

lemma push_refuses:
  "n = 0 \<or> length bm < (unat (ss_chunk_count n) + 7) div 8 \<or>
   (\<exists>d. dirty = Some d \<and> declares_past_the_end d (ss_chunk_count n)) \<Longrightarrow>
   push_once c g s img n parent t dirty bm =
     Some (if n \<noteq> 0 \<and> length bm < (unat (ss_chunk_count n) + 7) div 8 then SS_ERR_TOO_BIG else SS_ERR_PROTOCOL,
       None, bm, c)"
  by (auto simp: push_once_def Let_def)

end
