(* ===== verification/SS_Memcard.thy ===== *)
theory SS_Memcard
  imports SS_Protocol
begin

text \<open>
  \<open>wii/core/memcard.c\<close>: the six-character id a card is keyed by. Nintendont knows four of the
  characters; the maker code is read off the card's directory block.
\<close>

definition SS_DIR_OFFSET :: nat where "SS_DIR_OFFSET = 0x2000"
definition SS_DIR_ENTRIES :: nat where "SS_DIR_ENTRIES = 127"
definition SS_DENTRY_SIZE :: nat where "SS_DENTRY_SIZE = 0x40"

lemmas memcard_consts = SS_DIR_OFFSET_def SS_DIR_ENTRIES_def SS_DENTRY_SIZE_def

text \<open>The \<open>for\<close> loop over the directory: the maker code of the first entry of this game.\<close>

fun scan_directory :: "byte list \<Rightarrow> byte list \<Rightarrow> nat list \<Rightarrow> byte list option" where
  "scan_directory img code4 [] = None"
| "scan_directory img code4 (i # is) =
     (let entry = drop (SS_DIR_OFFSET + i * SS_DENTRY_SIZE) img
      in if entry ! 0 = 0xFF \<and> entry ! 1 = 0xFF \<and> entry ! 2 = 0xFF \<and> entry ! 3 = 0xFF
         then scan_directory img code4 is
         else if take 4 entry \<noteq> code4 then scan_directory img code4 is
         else Some [entry ! 4, entry ! 5])"

text \<open>\<open>img = None\<close> is the NULL pointer. The result pairs the return value with \<open>out\<close>.\<close>

definition ss_card_game_id :: "byte list option \<Rightarrow> u32 \<Rightarrow> byte list \<Rightarrow> bool \<times> byte list" where
  "ss_card_game_id img card_size code4 =
     (let padded = code4 @ [0x20, 0x20]
      in case img of
           None \<Rightarrow> (False, padded)
         | Some c \<Rightarrow>
             if card_size < of_nat (SS_DIR_OFFSET + 0x2000) then (False, padded)
             else (case scan_directory c code4 [0..<SS_DIR_ENTRIES] of
                     None \<Rightarrow> (False, padded)
                   | Some maker \<Rightarrow> (True, code4 @ maker)))"

text \<open>The game and maker code of directory entry \<open>i\<close>.\<close>

definition entry_id :: "byte list \<Rightarrow> nat \<Rightarrow> byte list" where
  "entry_id img i = bytes_at img (0x2000 + i * 0x40) 6"

definition entry_of :: "byte list \<Rightarrow> byte list \<Rightarrow> nat \<Rightarrow> bool" where
  "entry_of img code4 i \<longleftrightarrow> take 4 (entry_id img i) = code4 \<and> code4 \<noteq> replicate 4 0xFF"

lemma find_SomeD: "find P xs = Some x \<Longrightarrow> P x"
  by (auto simp: find_Some_iff)

lemma length_6: "length xs = 6 \<Longrightarrow> \<exists>a b c d e f. xs = [a, b, c, d, e, f]"
  and length_4: "length ys = 4 \<Longrightarrow> \<exists>a b c d. ys = [a, b, c, d]"
  by (auto simp: eval_nat_numeral length_Suc_conv)

lemma replicate_4: "replicate 4 x = [x, x, x, x]"
  by (simp add: eval_nat_numeral)

lemma scan_directory_step:
  assumes len: "0x2000 + i * 0x40 + 6 \<le> length img" and "length code4 = 4"
  shows "scan_directory img code4 (i # is) =
    (if entry_of img code4 i then Some (drop 4 (entry_id img i)) else scan_directory img code4 is)"
proof -
  let ?d = "drop (0x2000 + i * 0x40) img"
  have "length (entry_id img i) = 6" using len by (simp add: entry_id_def)
  then obtain a b c d e f where id: "entry_id img i = [a, b, c, d, e, f]" using length_6 by blast
  have nth: "?d ! j = entry_id img i ! j" if "j < 6" for j
    using that len by (simp add: entry_id_def nth_bytes_at)
  have nths: "?d ! 0 = a" "?d ! 1 = b" "?d ! 2 = c" "?d ! 3 = d" "?d ! 4 = e" "?d ! 5 = f"
    by (simp_all only: nth id nth_Cons_0 nth_Cons_numeral One_nat_def nth_Cons_Suc, simp_all)
  have t: "take 4 ?d = [a, b, c, d]"
    using take_nths(2)[of ?d] len nths by simp
  obtain w x y z where c: "code4 = [w, x, y, z]" using length_4[OF assms(2)] by blast
  show ?thesis
    unfolding scan_directory.simps memcard_consts Let_def nths t c entry_of_def replicate_4 id by auto
qed

lemma scan_directory_find:
  assumes "\<forall>i \<in> set is. 0x2000 + i * 0x40 + 6 \<le> length img" "length code4 = 4"
  shows "scan_directory img code4 is =
    map_option (\<lambda>i. drop 4 (entry_id img i)) (find (entry_of img code4) is)"
  using assms(1)
proof (induction "is")
  case Nil
  then show ?case by simp
next
  case (Cons i "is")
  then show ?case using assms(2) by (simp add: scan_directory_step del: scan_directory.simps)
qed

lemma ss_card_game_id_find:
  assumes "unat sz \<le> length img" "length code4 = 4"
  shows "ss_card_game_id (Some img) sz code4 =
    (case (if 0x4000 \<le> unat sz then find (entry_of img code4) [0..<127] else None) of
       None \<Rightarrow> (False, code4 @ [0x20, 0x20])
     | Some i \<Rightarrow> (True, entry_id img i))"
proof (cases "0x4000 \<le> unat sz")
  case False
  then show ?thesis by (simp add: ss_card_game_id_def Let_def memcard_consts word_less_nat_alt)
next
  case True
  have sc: "scan_directory img code4 [0..<127] =
      map_option (\<lambda>i. drop 4 (entry_id img i)) (find (entry_of img code4) [0..<127])"
    using True assms by (intro scan_directory_find) auto
  have eq: "code4 @ drop 4 (entry_id img i) = entry_id img i" if "entry_of img code4 i" for i
    using that by (metis append_take_drop_id entry_of_def)
  show ?thesis
    using True sc eq
    by (cases "find (entry_of img code4) [0..<127]")
      (auto simp: ss_card_game_id_def Let_def memcard_consts word_less_nat_alt dest: find_SomeD)
qed

lemma length_ss_card_game_id:
  assumes "unat sz \<le> length img" "length code4 = 4"
  shows "length (snd (ss_card_game_id (Some img) sz code4)) = 6"
  using assms by (auto simp: ss_card_game_id_find entry_id_def find_Some_iff split: option.splits)

subsection \<open>Properties\<close>

text \<open>
  The six-character id is reported as found exactly when the directory block is there
  and one of its 127 entries carries this game's code; it is then the code and maker of the first such entry,
  and a space-padded code otherwise. An unused entry (\<open>FF FF FF FF\<close>) never matches.
\<close>

lemma card_game_id_found:
  assumes "unat sz \<le> length img" "length code4 = 4"
  shows "ss_card_game_id (Some img) sz code4 =
    (case (if 0x4000 \<le> unat sz then find (entry_of img code4) [0..<127] else None) of
       None \<Rightarrow> (False, code4 @ [0x20, 0x20])
     | Some i \<Rightarrow> (True, entry_id img i))"
  by (rule ss_card_game_id_find[OF assms])

end
