(* ===== verification/SS_Logic.thy ===== *)
theory SS_Logic
  imports SS_Memcard
begin

text \<open>
  \<open>nintendont/kernel/SlotSyncLogic.c\<close>: the configuration file, the lineage file the launcher writes, and
  the decision when a card is due a push. A \<open>const char *\<close> is the list of bytes from there on;
  functions that advance a cursor return the rest of the list.
\<close>

definition SSL_GAME_ID_LEN :: nat where "SSL_GAME_ID_LEN = 6"
definition SSL_PSK_MAX :: nat where "SSL_PSK_MAX = 128"
definition SSL_MAX_DEADLINE_MS :: u64 where "SSL_MAX_DEADLINE_MS = 600000"

subsection \<open>Numbers and addresses\<close>

definition ssl_is_space :: "byte \<Rightarrow> bool" where
  "ssl_is_space c \<longleftrightarrow> c = 0x20 \<or> c = 0x09 \<or> c = 0x0D \<or> c = 0x0A"

text \<open>\<open>while (*s == ' ' || *s == '\t') s++;\<close>\<close>

fun skip_blanks :: "byte list \<Rightarrow> byte list" where
  "skip_blanks [] = []"
| "skip_blanks (c # s) = (if c = 0x20 \<or> c = 0x09 then skip_blanks s else c # s)"

definition base_digit :: "u64 \<Rightarrow> byte \<Rightarrow> u64 option" where
  "base_digit base c =
     (if 0x30 \<le> c \<and> c \<le> 0x39 then Some (ucast (c - 0x30))
      else if base = 16 \<and> 0x61 \<le> c \<and> c \<le> 0x66 then Some (ucast (c - 0x61 + 10))
      else if base = 16 \<and> 0x41 \<le> c \<and> c \<le> 0x46 then Some (ucast (c - 0x41 + 10))
      else None)"

fun parse_digits :: "u64 \<Rightarrow> u64 \<Rightarrow> byte list \<Rightarrow> u64 \<times> byte list" where
  "parse_digits base v [] = (v, [])"
| "parse_digits base v (c # s) =
     (case base_digit base c of
        None \<Rightarrow> (v, c # s)
      | Some digit \<Rightarrow> parse_digits base (v * base + digit) s)"

definition ssl_parse_u64 :: "byte list \<Rightarrow> u64 \<times> byte list" where
  "ssl_parse_u64 s =
     (let s = skip_blanks s
      in if peek s 0 = 0x30 \<and> (peek s 1 = 0x78 \<or> peek s 1 = 0x58)
         then parse_digits 16 0 (drop 2 s) else parse_digits 10 0 s)"

text \<open>The end of an octet, at \<open>'.'\<close> or the terminating NUL: the address so far.\<close>

definition ipv4_octet :: "u32 \<Rightarrow> nat \<Rightarrow> nat \<Rightarrow> nat \<Rightarrow> u32 option" where
  "ipv4_octet addr octet digits v =
     (if digits = 0 \<or> 3 < octet then None else Some (push_bit 8 addr OR of_nat v))"

definition ipv4_end :: "u32 \<Rightarrow> nat \<Rightarrow> nat \<Rightarrow> nat \<Rightarrow> u32 option" where
  "ipv4_end addr octet digits v =
     (case ipv4_octet addr octet digits v of
        None \<Rightarrow> None
      | Some addr' \<Rightarrow> if octet + 1 \<noteq> 4 then None else Some addr')"

fun ipv4_loop :: "u32 \<Rightarrow> nat \<Rightarrow> nat \<Rightarrow> nat \<Rightarrow> byte list \<Rightarrow> u32 option" where
  "ipv4_loop addr octet digits v [] = ipv4_end addr octet digits v"
| "ipv4_loop addr octet digits v (c # s) =
     (if 0x30 \<le> c \<and> c \<le> 0x39
      then let v' = v * 10 + unat (c - 0x30)
           in if 255 < v' \<or> 3 < digits + 1 then None else ipv4_loop addr octet (digits + 1) v' s
      else if c = 0x2E
      then (case ipv4_octet addr octet digits v of
              None \<Rightarrow> None
            | Some addr' \<Rightarrow> ipv4_loop addr' (octet + 1) 0 0 s)
      else if c = 0 then ipv4_end addr octet digits v
      else None)"

definition ssl_parse_ipv4 :: "byte list \<Rightarrow> u32 option" where
  "ssl_parse_ipv4 text = ipv4_loop 0 0 0 0 text"

subsection \<open>The configuration file\<close>

fun ssl_next_line :: "byte list \<Rightarrow> byte list" where
  "ssl_next_line [] = []"
| "ssl_next_line (c # p) = (if c = 0 then c # p else if c = 0x0A then p else ssl_next_line p)"

definition ssl_match_key :: "byte list \<Rightarrow> byte list \<Rightarrow> byte list option" where
  "ssl_match_key line key =
     (let line = skip_blanks line
      in if \<exists>i \<in> set [0..<length key]. peek line i \<noteq> key ! i then None
         else let line = skip_blanks (drop (length key) line)
              in if peek line 0 \<noteq> 0x3D then None else Some (skip_blanks (drop 1 line)))"

definition ssl_copy_value :: "byte list \<Rightarrow> nat \<Rightarrow> byte list" where
  "ssl_copy_value v cap =
     rev (dropWhile ssl_is_space
       (rev (takeWhile (\<lambda>c. c \<noteq> 0 \<and> c \<noteq> 0x0A \<and> c \<noteq> 0x0D) (take (cap - 1) v))))"

definition ssl_clamp_ms :: "u64 \<Rightarrow> u32 \<Rightarrow> u32" where
  "ssl_clamp_ms v fallback =
     (if v = 0 then fallback
      else if SSL_MAX_DEADLINE_MS < v then ucast SSL_MAX_DEADLINE_MS
      else ucast v)"

text \<open>\<open>c_psk\<close> is the string without its NUL. An \<open>int\<close> field holds the signed value.\<close>

record ssl_config =
  c_enabled :: int
  c_server :: u32
  c_port :: u16
  c_psk :: "byte list"
  c_psk_len :: u32
  c_device_id :: u64
  c_timeout_ms :: int
  c_rounds :: int
  c_quiet_ms :: u32
  c_cooldown_ms :: u32
  c_net_timeout_ms :: u32
  c_pace_every :: u32
  c_pace_us :: u32
  c_have_server :: bool

definition ssl_config_defaults :: ssl_config where
  "ssl_config_defaults =
     \<lparr>c_enabled = 1, c_server = 0, c_port = 9977, c_psk = [], c_psk_len = 0, c_device_id = 0,
      c_timeout_ms = 2000, c_rounds = 12, c_quiet_ms = 4000, c_cooldown_ms = 30000,
      c_net_timeout_ms = 20000, c_pace_every = 64, c_pace_us = 160000, c_have_server = False\<rparr>"

text \<open>The conversion \<open>(int)\<close> of a 64-bit value: its low 32 bits, read as signed.\<close>

definition as_int :: "u64 \<Rightarrow> int" where "as_int v = sint (ucast v :: u32)"

text \<open>One arm of the \<open>else if\<close> chain per key: what it does with the value.\<close>

definition config_keys :: "(byte list \<times> (byte list \<Rightarrow> ssl_config \<Rightarrow> ssl_config)) list" where
  "config_keys =
     [(ascii ''server'', \<lambda>v cfg.
         case ssl_parse_ipv4 (ssl_copy_value v SSL_PSK_MAX) of
           None \<Rightarrow> cfg
         | Some a \<Rightarrow> cfg\<lparr>c_server := a, c_have_server := True\<rparr>),
      (ascii ''port'', \<lambda>v cfg. cfg\<lparr>c_port := ucast (fst (ssl_parse_u64 v))\<rparr>),
      (ascii ''psk'', \<lambda>v cfg.
         let psk = ssl_copy_value v SSL_PSK_MAX
         in cfg\<lparr>c_psk := psk, c_psk_len := of_nat (length psk)\<rparr>),
      (ascii ''device_id'', \<lambda>v cfg. cfg\<lparr>c_device_id := fst (ssl_parse_u64 v)\<rparr>),
      (ascii ''timeout_ms'', \<lambda>v cfg.
         cfg\<lparr>c_timeout_ms := sint (ssl_clamp_ms (fst (ssl_parse_u64 v)) 2000)\<rparr>),
      (ascii ''rounds'', \<lambda>v cfg. cfg\<lparr>c_rounds := as_int (fst (ssl_parse_u64 v))\<rparr>),
      (ascii ''runtime_sync'', \<lambda>v cfg. cfg\<lparr>c_enabled := as_int (fst (ssl_parse_u64 v))\<rparr>),
      (ascii ''runtime_quiet_ms'', \<lambda>v cfg.
         cfg\<lparr>c_quiet_ms := ssl_clamp_ms (fst (ssl_parse_u64 v)) 4000\<rparr>),
      (ascii ''runtime_cooldown_ms'', \<lambda>v cfg.
         cfg\<lparr>c_cooldown_ms := ssl_clamp_ms (fst (ssl_parse_u64 v)) 30000\<rparr>),
      (ascii ''runtime_net_timeout_ms'', \<lambda>v cfg.
         cfg\<lparr>c_net_timeout_ms := ssl_clamp_ms (fst (ssl_parse_u64 v)) 20000\<rparr>),
      (ascii ''runtime_pace_every'', \<lambda>v cfg. cfg\<lparr>c_pace_every := ucast (fst (ssl_parse_u64 v))\<rparr>),
      (ascii ''runtime_pace_us'', \<lambda>v cfg. cfg\<lparr>c_pace_us := ucast (fst (ssl_parse_u64 v))\<rparr>)]"

text \<open>The chain itself: the first key the line matches.\<close>

fun config_line ::
    "(byte list \<times> (byte list \<Rightarrow> ssl_config \<Rightarrow> ssl_config)) list \<Rightarrow> byte list \<Rightarrow> ssl_config \<Rightarrow> ssl_config" where
  "config_line [] p cfg = cfg"
| "config_line ((key, set_value) # arms) p cfg =
     (case ssl_match_key p key of
        Some v \<Rightarrow> set_value v cfg
      | None \<Rightarrow> config_line arms p cfg)"

lemma length_next_line: "length (ssl_next_line p) \<le> length p"
  by (induction p rule: ssl_next_line.induct) auto

lemma next_line_shorter: "c \<noteq> 0 \<Longrightarrow> length (ssl_next_line (c # p)) < length (c # p)"
  using length_next_line[of p] by auto

function config_lines :: "byte list \<Rightarrow> ssl_config \<Rightarrow> ssl_config" where
  "config_lines p cfg =
     (if peek p 0 = 0 then cfg else config_lines (ssl_next_line p) (config_line config_keys p cfg))"
  by pat_completeness auto
termination
proof (relation "measure (\<lambda>(p, cfg). length p)")
  show "peek p 0 \<noteq> 0 \<Longrightarrow> ((ssl_next_line p, config_line config_keys p cfg), p, cfg) \<in> measure (\<lambda>(p, cfg). length p)"
    for p cfg by (cases p) (use next_line_shorter in auto)
qed simp

declare config_lines.simps [simp del]

text \<open>The boolean is the return value: \<open>True\<close> for 0 (usable), \<open>False\<close> for -1.\<close>

definition ssl_config_parse :: "byte list \<Rightarrow> bool \<times> ssl_config" where
  "ssl_config_parse text =
     (let cfg = config_lines text ssl_config_defaults;
          cfg = (if c_rounds cfg \<le> 0 then cfg\<lparr>c_rounds := 12\<rparr> else cfg)
      in (\<not> (c_enabled cfg = 0 \<or> \<not> c_have_server cfg \<or> c_psk_len cfg = 0), cfg))"

subsection \<open>The lineage file\<close>

definition ssl_hex :: "byte \<Rightarrow> byte option" where
  "ssl_hex c =
     (if 0x30 \<le> c \<and> c \<le> 0x39 then Some (c - 0x30)
      else if 0x61 \<le> c \<and> c \<le> 0x66 then Some (c - 0x61 + 10)
      else if 0x41 \<le> c \<and> c \<le> 0x46 then Some (c - 0x41 + 10)
      else None)"

text \<open>The digest field: \<open>n\<close> pairs of hex digits, or nothing if one is malformed.\<close>

fun read_digest :: "byte list \<Rightarrow> nat \<Rightarrow> byte list option" where
  "read_digest cursor 0 = Some []"
| "read_digest cursor (Suc n) =
     (case (ssl_hex (peek cursor 0), ssl_hex (peek cursor 1)) of
        (Some hi, Some lo) \<Rightarrow> map_option ((#) (push_bit 4 hi OR lo)) (read_digest (drop 2 cursor) n)
      | _ \<Rightarrow> None)"

text \<open>The body of the loop: what the line at \<open>p\<close> says of this card, if it is about this card.\<close>

definition state_line :: "byte list \<Rightarrow> byte list \<Rightarrow> byte \<Rightarrow> (u32 \<times> byte list) option" where
  "state_line p game_id slot =
     (let cursor = skip_blanks p
      in if (\<exists>i \<in> set [0..<SSL_GAME_ID_LEN]. peek cursor i \<noteq> peek game_id i)
           \<or> \<not> ssl_is_space (peek cursor SSL_GAME_ID_LEN) then None
         else let (line_slot, cursor) = ssl_parse_u64 (drop SSL_GAME_ID_LEN cursor)
              in if ucast line_slot \<noteq> slot then None
                 else let (version, cursor) = ssl_parse_u64 cursor
                      in Some (ucast version,
                           case read_digest (skip_blanks cursor) 32 of
                             None \<Rightarrow> replicate 32 0
                           | Some sha \<Rightarrow> sha))"

text \<open>\<open>None\<close> is -1. The \<open>sha256\<close> argument is given; a caller that passes NULL ignores the digest.\<close>

function ssl_state_find :: "byte list \<Rightarrow> byte list \<Rightarrow> byte \<Rightarrow> (u32 \<times> byte list) option" where
  "ssl_state_find p game_id slot =
     (if peek p 0 = 0 then None
      else case state_line p game_id slot of
             Some r \<Rightarrow> Some r
           | None \<Rightarrow> ssl_state_find (ssl_next_line p) game_id slot)"
  by pat_completeness auto
termination
proof (relation "measure (\<lambda>(p, game_id, slot). length p)")
  show "peek p 0 \<noteq> 0 \<Longrightarrow> ((ssl_next_line p, game_id, slot), p, game_id, slot) \<in> measure (\<lambda>(p, game_id, slot). length p)"
    for p game_id slot by (cases p) (use next_line_shorter in auto)
qed simp

declare ssl_state_find.simps [simp del]

subsection \<open>The card's key and the push decision\<close>

definition ssl_game_id :: "byte list option \<Rightarrow> u32 \<Rightarrow> u32 \<Rightarrow> bool \<times> byte list" where
  "ssl_game_id img card_size nin_game_id =
     ss_card_game_id img card_size
       [ucast (drop_bit 24 nin_game_id AND 0xFF), ucast (drop_bit 16 nin_game_id AND 0xFF),
        ucast (drop_bit 8 nin_game_id AND 0xFF), ucast (nin_game_id AND 0xFF)]"

definition ssl_should_push :: "bool \<Rightarrow> bool \<Rightarrow> u32 \<Rightarrow> u32 \<Rightarrow> bool \<Rightarrow> u32 \<Rightarrow> u32 \<Rightarrow> bool" where
  "ssl_should_push dirty halted since_dirty since_push pushed_ever quiet_ticks cooldown_ticks =
     (if halted \<or> \<not> dirty then False
      else if since_dirty < quiet_ticks then False
      else if pushed_ever \<and> since_push < cooldown_ticks then False
      else True)"

subsection \<open>Numbers\<close>

text \<open>The decimal text \<open>printf("%u")\<close> writes.\<close>

fun dec :: "nat \<Rightarrow> byte list" where
  "dec n = (if n < 10 then [of_nat (48 + n)] else dec (n div 10) @ [of_nat (48 + n mod 10)])"

declare dec.simps [simp del]

lemma less_10_cases: "(d :: nat) < 10 \<Longrightarrow> d \<in> {0, 1, 2, 3, 4, 5, 6, 7, 8, 9}"
  by auto

lemma base_digit_dec: "d < 10 \<Longrightarrow> base_digit b (48 + of_nat d) = Some (of_nat d)"
  by (drule less_10_cases) (elim insertE emptyE; simp add: base_digit_def)

lemma parse_digits_dec:
  "parse_digits 10 v (dec n @ rest) = parse_digits 10 (v * 10 ^ length (dec n) + of_nat n) rest"
proof (induction n arbitrary: v rest rule: dec.induct)
  case (1 n)
  show ?case
  proof (cases "n < 10")
    case True
    then show ?thesis by (subst (1 2) dec.simps) (simp add: base_digit_dec)
  next
    case False
    have n: "of_nat n = of_nat (n div 10) * (10 :: u64) + of_nat (n mod 10)"
      by (metis div_mult_mod_eq of_nat_add of_nat_mult of_nat_numeral)
    have d: "dec n = dec (n div 10) @ [of_nat (48 + n mod 10)]" using False by (subst dec.simps) simp
    have "parse_digits 10 v (dec n @ rest) =
        parse_digits 10 ((v * 10 ^ length (dec (n div 10)) + of_nat (n div 10)) * 10 + of_nat (n mod 10)) rest"
      unfolding d using 1[OF False, of v "of_nat (48 + n mod 10) # rest"]
      by (simp add: base_digit_dec)
    then show ?thesis by (simp add: d n algebra_simps)
  qed
qed

lemma dec_digits: "c \<in> set (dec n) \<Longrightarrow> 0x30 \<le> c \<and> c \<le> 0x39"
proof (induction n rule: dec.induct)
  case (1 n)
  have dig: "0x30 \<le> (of_nat (48 + d) :: byte) \<and> of_nat (48 + d) \<le> (0x39 :: byte)" if "d < 10" for d
    using less_10_cases[OF that] by auto
  show ?case
    using 1 dig[of n] dig[of "n mod 10"] by (subst (asm) (2) dec.simps) (auto split: if_splits)
qed

lemma dec_not_Nil: "dec n \<noteq> []"
  by (subst dec.simps) simp

lemma skip_blanks_id: "s = [] \<or> hd s \<noteq> 0x20 \<and> hd s \<noteq> 0x09 \<Longrightarrow> skip_blanks s = s"
  by (cases s) auto

lemma dec_head: "hd (dec n @ rest) = 0x30 \<longleftrightarrow> n = 0"
proof (induction n arbitrary: rest rule: dec.induct)
  case (1 n)
  show ?case
  proof (cases "n < 10")
    case True
    show ?thesis using less_10_cases[OF True] True by (subst dec.simps) auto
  next
    case False
    have d: "dec n = dec (n div 10) @ [of_nat (48 + n mod 10)]" using False by (subst dec.simps) simp
    show ?thesis unfolding d append_assoc using 1[OF False] False by simp
  qed
qed

text \<open>Reading a decimal back, when no digit (nor the \<open>x\<close> of a hex prefix) follows.\<close>

lemma parse_dec:
  assumes "base_digit 10 (peek rest 0) = None" "peek rest 0 \<noteq> 0x78" "peek rest 0 \<noteq> 0x58"
  shows "ssl_parse_u64 (0x20 # dec n @ rest) = (of_nat n, rest)"
    and "ssl_parse_u64 (dec n @ rest) = (of_nat n, rest)"
proof -
  have stop: "parse_digits 10 v rest = (v, rest)" for v using assms(1) by (cases rest) auto
  have "hd (dec n @ rest) \<in> set (dec n)" using dec_not_Nil[of n] by (cases "dec n") auto
  from dec_digits[OF this] have "hd (dec n @ rest) \<noteq> 0x20 \<and> hd (dec n @ rest) \<noteq> 0x09" by auto
  then have sk: "skip_blanks (dec n @ rest) = dec n @ rest" by (intro skip_blanks_id) simp
  have "\<not> (peek (dec n @ rest) 0 = 0x30 \<and> (peek (dec n @ rest) 1 = 0x78 \<or> peek (dec n @ rest) 1 = 0x58))"
  proof (cases "n = 0")
    case True
    then show ?thesis using assms(2,3) by (subst (1 2 3) dec.simps) simp
  next
    case False
    then show ?thesis using dec_head[of n rest] dec_not_Nil[of n] by (simp add: peek_def hd_conv_nth)
  qed
  then show "ssl_parse_u64 (dec n @ rest) = (of_nat n, rest)"
    unfolding ssl_parse_u64_def Let_def sk by (simp only: if_False parse_digits_dec stop) simp
  then show "ssl_parse_u64 (0x20 # dec n @ rest) = (of_nat n, rest)"
    by (simp add: ssl_parse_u64_def)
qed

subsection \<open>Dotted quads\<close>

definition is_digit :: "byte \<Rightarrow> bool" where "is_digit c \<longleftrightarrow> 0x30 \<le> c \<and> c \<le> 0x39"

definition octet_value :: "nat \<Rightarrow> byte list \<Rightarrow> nat" where
  "octet_value v ds = foldl (\<lambda>v c. v * 10 + unat (c - 0x30)) v ds"

text \<open>One to three decimal digits of a value that fits a byte.\<close>

definition octet_text :: "byte list \<Rightarrow> bool" where
  "octet_text ds \<longleftrightarrow> ds \<noteq> [] \<and> length ds \<le> 3 \<and> list_all is_digit ds \<and> octet_value 0 ds \<le> 255"

fun join_dots :: "byte list list \<Rightarrow> byte list" where
  "join_dots [] = []"
| "join_dots [p] = p"
| "join_dots (p # ps) = p @ 0x2E # join_dots ps"

text \<open>The octets side by side, the first one highest.\<close>

definition quad :: "u32 \<Rightarrow> byte list list \<Rightarrow> u32" where
  "quad a ps = fold (\<lambda>p a. push_bit 8 a OR of_nat (octet_value 0 p)) ps a"

lemma octet_value_ge: "v \<le> octet_value v ds"
proof (induction ds arbitrary: v)
  case (Cons c ds)
  have "v \<le> v * 10 + unat (c - 0x30)" by simp
  also have "\<dots> \<le> octet_value (v * 10 + unat (c - 0x30)) ds" by (rule Cons.IH)
  finally show ?case by (simp add: octet_value_def)
qed (simp add: octet_value_def)

lemma octet_value_Cons: "octet_value v (c # ds) = octet_value (v * 10 + unat (c - 0x30)) ds"
  by (simp add: octet_value_def)

lemma ipv4_digits:
  "list_all is_digit ds \<Longrightarrow> k \<le> 3 \<Longrightarrow> v \<le> 255 \<Longrightarrow>
   ipv4_loop a oc k v (ds @ rest) =
     (if k + length ds \<le> 3 \<and> octet_value v ds \<le> 255
      then ipv4_loop a oc (k + length ds) (octet_value v ds) rest else None)"
proof (induction ds arbitrary: k v)
  case Nil
  then show ?case by (simp add: octet_value_def)
next
  case (Cons c ds)
  let ?v = "v * 10 + unat (c - 0x30)"
  have c: "0x30 \<le> c" "c \<le> 0x39" using Cons.prems(1) by (simp_all add: is_digit_def)
  show ?case
  proof (cases "?v \<le> 255 \<and> k + 1 \<le> 3")
    case True
    with Cons c show ?thesis by (simp add: octet_value_Cons Let_def)
  next
    case False
    then have "\<not> (k + length (c # ds) \<le> 3 \<and> octet_value v (c # ds) \<le> 255)"
      using octet_value_ge[of ?v ds] unfolding octet_value_Cons by auto
    with False c show ?thesis by (auto simp: Let_def)
  qed
qed

lemma split_digits: "\<exists>ds rest. s = ds @ rest \<and> list_all is_digit ds \<and> (rest = [] \<or> \<not> is_digit (hd rest))"
proof (intro exI conjI)
  show "s = takeWhile is_digit s @ dropWhile is_digit s" by simp
  show "list_all is_digit (takeWhile is_digit s)" by (auto simp: list_all_iff dest: set_takeWhileD)
  show "dropWhile is_digit s = [] \<or> \<not> is_digit (hd (dropWhile is_digit s))"
    using hd_dropWhile[of is_digit s] by auto
qed

lemma ipv4_loop_parts:
  assumes "0 \<notin> set s" "ipv4_loop a oc 0 0 s = Some r"
  shows "\<exists>ps. ps \<noteq> [] \<and> s = join_dots ps \<and> list_all octet_text ps \<and> oc + length ps = 4 \<and> r = quad a ps"
  using assms
proof (induction s arbitrary: a oc rule: length_induct)
  case (1 s)
  obtain ds rest where s: "s = ds @ rest" and ds: "list_all is_digit ds"
    and rest: "rest = [] \<or> \<not> is_digit (hd rest)" using split_digits by blast
  have l: "length ds \<le> 3" "octet_value 0 ds \<le> 255"
    and lp: "ipv4_loop a oc (length ds) (octet_value 0 ds) rest = Some r"
    using "1.prems"(2) ipv4_digits[OF ds, of 0 0] by (auto simp: s split: if_splits)
  let ?a = "push_bit 8 a OR of_nat (octet_value 0 ds) :: u32"
  show ?case
  proof (cases rest)
    case Nil
    then show ?thesis
      using lp l ds
      by (intro exI[of _ "[ds]"]) (auto simp: s ipv4_end_def ipv4_octet_def octet_text_def quad_def split: if_splits)
  next
    case (Cons c t)
    have "c \<noteq> 0" using "1.prems"(1) by (auto simp: s Cons)
    then have c: "c = 0x2E" and o: "ds \<noteq> []" and lt: "ipv4_loop ?a (oc + 1) 0 0 t = Some r"
      using lp rest by (auto simp: Cons is_digit_def ipv4_octet_def split: if_splits)
    have "length t < length s" "0 \<notin> set t" using "1.prems"(1) by (auto simp: s Cons)
    with "1.IH" lt obtain ps where ps: "ps \<noteq> []" "t = join_dots ps" "list_all octet_text ps"
      "oc + 1 + length ps = 4" "r = quad ?a ps" by meson
    obtain q qs where q: "ps = q # qs" using ps(1) by (cases ps) auto
    have "octet_text ds" using o l ds by (simp add: octet_text_def)
    with ps show ?thesis
      by (intro exI[of _ "ds # ps"]) (simp add: s Cons c q quad_def)
  qed
qed

lemma ipv4_parts_loop:
  assumes "ps \<noteq> []" "list_all octet_text ps" "oc + length ps = 4"
  shows "ipv4_loop a oc 0 0 (join_dots ps) = Some (quad a ps)"
  using assms
proof (induction ps arbitrary: a oc rule: join_dots.induct)
  case 1
  then show ?case by simp
next
  case (2 p)
  then show ?case
    using ipv4_digits[of p 0 0 a oc "[]"] by (simp add: octet_text_def ipv4_end_def ipv4_octet_def quad_def)
next
  case (3 p q ps)
  have "ipv4_loop (push_bit 8 a OR of_nat (octet_value 0 p)) (oc + 1) 0 0 (join_dots (q # ps)) =
      Some (quad (push_bit 8 a OR of_nat (octet_value 0 p)) (q # ps))"
    using "3.prems" by (intro "3.IH") simp_all
  with "3.prems" show ?case
    using ipv4_digits[of p 0 0 a oc "0x2E # join_dots (q # ps)"]
    by (simp add: octet_text_def ipv4_octet_def quad_def)
qed

lemma ssl_parse_ipv4_iff:
  assumes "0 \<notin> set text"
  shows "ssl_parse_ipv4 text = Some a \<longleftrightarrow>
    (\<exists>ps. text = join_dots ps \<and> length ps = 4 \<and> list_all octet_text ps \<and> a = quad 0 ps)"
  using ipv4_loop_parts[OF assms, of 0 0 a] ipv4_parts_loop[of _ 0 0] unfolding ssl_parse_ipv4_def
  by (metis add_0 list.size(3) zero_neq_numeral)

subsection \<open>Configuration\<close>

text \<open>What every reading of the file leaves: bounded deadlines, a psk that fits its buffer.\<close>

definition deadline_ok :: "u32 \<Rightarrow> bool" where
  "deadline_ok t \<longleftrightarrow> 0 < t \<and> t \<le> 600000"

definition wf_config :: "ssl_config \<Rightarrow> bool" where
  "wf_config cfg \<longleftrightarrow>
     deadline_ok (c_quiet_ms cfg) \<and> deadline_ok (c_cooldown_ms cfg) \<and> deadline_ok (c_net_timeout_ms cfg) \<and>
     0 < c_timeout_ms cfg \<and> c_timeout_ms cfg \<le> 600000 \<and>
     length (c_psk cfg) < SSL_PSK_MAX \<and> 0 \<notin> set (c_psk cfg) \<and> c_psk_len cfg = of_nat (length (c_psk cfg))"

lemma clamp_ok: "deadline_ok fallback \<Longrightarrow> deadline_ok (ssl_clamp_ms v fallback)"
proof -
  assume f: "deadline_ok fallback"
  have "unat (ucast v :: u32) = unat v" if "v \<le> 600000"
    using that by (simp add: unsigned_ucast_eq take_bit_nat_eq_self_iff word_le_nat_alt order_le_less_trans)
  moreover have "0 < unat v" if "v \<noteq> 0" using that by (simp add: unat_gt_0)
  ultimately show ?thesis
    using f by (cases "v = 0"; cases "v \<le> 600000")
      (simp_all add: ssl_clamp_ms_def deadline_ok_def SSL_MAX_DEADLINE_MS_def word_le_nat_alt word_less_nat_alt)
qed

lemma deadline_signed: "deadline_ok t \<Longrightarrow> 0 < sint t \<and> sint t \<le> 600000"
proof -
  assume t: "deadline_ok t"
  then have v: "0 < uint t" "uint t \<le> 600000" by (simp_all add: deadline_ok_def word_le_def word_less_def)
  then have "sint t = uint t"
    unfolding sint_uint by (intro signed_take_bit_int_eq_self) simp_all
  with v show ?thesis by simp
qed

lemma length_copy_value: "0 < cap \<Longrightarrow> length (ssl_copy_value v cap) < cap"
proof -
  assume c: "0 < cap"
  let ?p = "\<lambda>c. c \<noteq> 0 \<and> c \<noteq> 0x0A \<and> c \<noteq> (0x0D :: byte)"
  have "length (ssl_copy_value v cap) \<le> length (takeWhile ?p (take (cap - 1) v))"
    unfolding ssl_copy_value_def length_rev
    by (rule order_trans[OF length_dropWhile_le]) (simp only: length_rev)
  also have "\<dots> \<le> cap - 1" by (rule order_trans[OF length_takeWhile_le]) simp
  finally show ?thesis using c by simp
qed

lemma copy_value_no_nul: "0 \<notin> set (ssl_copy_value v cap)"
  unfolding ssl_copy_value_def using set_dropWhileD set_takeWhileD by fastforce

lemma wf_config_defaults: "wf_config ssl_config_defaults"
  by (simp add: wf_config_def ssl_config_defaults_def deadline_ok_def SSL_PSK_MAX_def)

lemma config_line_invariant:
  assumes "list_all (\<lambda>(key, set_value). \<forall>v cfg. P cfg \<longrightarrow> P (set_value v cfg)) arms" "P cfg"
  shows "P (config_line arms p cfg)"
  using assms by (induction arms p cfg rule: config_line.induct) (auto split: option.splits)

lemma wf_config_arms: "list_all (\<lambda>(key, set_value). \<forall>v cfg. wf_config cfg \<longrightarrow> wf_config (set_value v cfg)) config_keys"
proof -
  have d: "deadline_ok (ssl_clamp_ms v 2000)" "deadline_ok (ssl_clamp_ms v 4000)"
    "deadline_ok (ssl_clamp_ms v 30000)" "deadline_ok (ssl_clamp_ms v 20000)" for v
    by (rule clamp_ok, simp add: deadline_ok_def)+
  have l: "length (ssl_copy_value v SSL_PSK_MAX) < SSL_PSK_MAX" for v
    by (rule length_copy_value) (simp add: SSL_PSK_MAX_def)
  show ?thesis
    unfolding config_keys_def list.pred_inject prod.case
    by (intro conjI allI impI TrueI)
      (simp_all add: wf_config_def d l copy_value_no_nul deadline_signed Let_def split: option.split)
qed

lemma config_lines_invariant:
  assumes "list_all (\<lambda>(key, set_value). \<forall>v cfg. P cfg \<longrightarrow> P (set_value v cfg)) config_keys" "P cfg"
  shows "P (config_lines p cfg)"
  using assms(2)
proof (induction p cfg rule: config_lines.induct)
  case (1 p cfg)
  then show ?case
    using config_line_invariant[where P = P, OF assms(1)] by (subst config_lines.simps) auto
qed

lemma wf_config_parse: "wf_config (snd (ssl_config_parse text))" "0 < c_rounds (snd (ssl_config_parse text))"
proof -
  have "wf_config (config_lines text ssl_config_defaults)"
    by (rule config_lines_invariant[OF wf_config_arms wf_config_defaults])
  then show "wf_config (snd (ssl_config_parse text))"
    by (simp add: ssl_config_parse_def Let_def wf_config_def)
  show "0 < c_rounds (snd (ssl_config_parse text))"
    by (simp add: ssl_config_parse_def Let_def)
qed

subsection \<open>Lines of the lineage file\<close>

lemma next_line_text:
  "0 \<notin> set l \<Longrightarrow> 0x0A \<notin> set l \<Longrightarrow> ssl_next_line (l @ 0x0A # rest) = rest"
proof (induction l)
  case (Cons c l)
  then have "c \<noteq> 0" "c \<noteq> 0x0A" by auto
  with Cons show ?case by simp
qed simp

lemma peek_prefix_full:
  assumes "length a = n" "length g = n"
  shows "(\<exists>i \<in> set [0..<n]. peek (a @ r) i \<noteq> peek g i) \<longleftrightarrow> a \<noteq> g"
proof -
  have "peek (a @ r) i = a ! i" "peek g i = g ! i" if "i < n" for i
    using that assms by (simp_all add: peek_def nth_append)
  then have "(\<exists>i \<in> set [0..<n]. peek (a @ r) i \<noteq> peek g i) \<longleftrightarrow> (\<exists>i < n. a ! i \<noteq> g ! i)" by auto
  then show ?thesis using assms by (auto simp: list_eq_iff_nth_eq)
qed

text \<open>A line \<open>GAMEID SLOT VERSION\<close> and what follows it.\<close>

lemma state_line_parse:
  assumes gid: "length gid = 6" "hd gid \<noteq> 0x20" "hd gid \<noteq> 0x09" and g: "length game_id = 6"
    and rest: "rest = [] \<or> rest = 0x0A # r \<or> rest = 0x20 # r"
  shows "state_line (gid @ 0x20 # dec s @ 0x20 # dec v @ rest) game_id slot =
    (if gid = game_id \<and> of_nat s = slot
     then Some (of_nat v, case read_digest (skip_blanks rest) 32 of None \<Rightarrow> replicate 32 0 | Some sha \<Rightarrow> sha)
     else None)"
proof -
  have id0: "gid \<noteq> []" using gid(1) by auto
  let ?l = "gid @ 0x20 # dec s @ 0x20 # dec v @ rest"
  have sk: "skip_blanks ?l = ?l" using gid id0 by (intro skip_blanks_id) (simp add: hd_append)
  have p1: "ssl_parse_u64 (0x20 # dec s @ 0x20 # dec v @ rest) = (of_nat s, 0x20 # dec v @ rest)"
    by (rule parse_dec) (simp_all add: base_digit_def)
  have p2: "ssl_parse_u64 (0x20 # dec v @ rest) = (of_nat v, rest)"
    by (rule parse_dec) (use rest in \<open>auto simp: base_digit_def\<close>)
  have d: "drop 6 ?l = 0x20 # dec s @ 0x20 # dec v @ rest" "peek ?l 6 = 0x20"
    using gid(1) by (simp_all add: peek_append)
  have u: "ucast (of_nat s :: u64) = (of_nat s :: byte)" "ucast (of_nat v :: u64) = (of_nat v :: u32)"
    by (rule bit_word_eqI, simp add: bit_simps)+
  show ?thesis
    unfolding state_line_def Let_def sk SSL_GAME_ID_LEN_def d peek_prefix_full[OF gid(1) g] p1 prod.case
    by (auto simp: ssl_is_space_def p2 u)
qed

lemma state_find_step:
  assumes "l \<noteq> []" "0 \<notin> set l" "0x0A \<notin> set l"
  shows "ssl_state_find (l @ 0x0A # rest) game_id slot =
    (case state_line (l @ 0x0A # rest) game_id slot of
       Some r \<Rightarrow> Some r
     | None \<Rightarrow> ssl_state_find rest game_id slot)"
proof -
  have "peek (l @ 0x0A # rest) 0 \<noteq> 0" using assms(1,2) by (cases l) auto
  then show ?thesis by (subst ssl_state_find.simps) (simp add: next_line_text[OF assms(2,3)] split: option.split)
qed

subsection \<open>Properties\<close>

text \<open>
  \<open>ssl_parse_ipv4\<close> accepts exactly the texts of four dot-separated octets of one to three
  digits and value at most 255, and returns the octets with the first one in the highest byte.
\<close>

lemma parse_ipv4_exact:
  assumes "0 \<notin> set text"
  shows "ssl_parse_ipv4 text = Some a \<longleftrightarrow>
    (\<exists>ps. text = join_dots ps \<and> length ps = 4 \<and> list_all octet_text ps \<and> a = quad 0 ps)"
  by (rule ssl_parse_ipv4_iff[OF assms])

text \<open>
  C39: whatever the configuration file says, every deadline is between 1 ms and ten minutes (so in ticks
  of 1899 to the millisecond it does not overflow 32 bits), the psk is a NUL-free string that
  fits its buffer, rounds is positive; and the result is usable exactly when runtime sync is on, a
  server address parsed and there is a psk.
\<close>

theorem config_bounds:
  "let (usable, cfg) = ssl_config_parse text in
     unat (c_quiet_ms cfg) * 1899 < 2 ^ 32 \<and> unat (c_cooldown_ms cfg) * 1899 < 2 ^ 32 \<and>
     unat (c_net_timeout_ms cfg) * 1899 < 2 ^ 32 \<and>
     c_quiet_ms cfg \<noteq> 0 \<and> c_cooldown_ms cfg \<noteq> 0 \<and> c_net_timeout_ms cfg \<noteq> 0 \<and>
     0 < c_timeout_ms cfg \<and> c_timeout_ms cfg \<le> 600000 \<and> 0 < c_rounds cfg \<and>
     length (c_psk cfg) < 128 \<and> 0 \<notin> set (c_psk cfg) \<and> unat (c_psk_len cfg) = length (c_psk cfg) \<and>
     (usable \<longleftrightarrow> c_enabled cfg \<noteq> 0 \<and> c_have_server cfg \<and> c_psk cfg \<noteq> [])"
proof -
  obtain usable cfg where p: "ssl_config_parse text = (usable, cfg)" by (cases "ssl_config_parse text")
  have wf: "wf_config cfg" "0 < c_rounds cfg" using wf_config_parse[of "text"] by (simp_all add: p)
  have ticks: "unat t * 1899 < 2 ^ 32 \<and> t \<noteq> 0" if "deadline_ok t" for t
    using that by (auto simp: deadline_ok_def word_le_nat_alt)
  have len: "unat (c_psk_len cfg) = length (c_psk cfg)" "length (c_psk cfg) < 128"
    using wf(1) by (auto simp: wf_config_def SSL_PSK_MAX_def intro!: unat_of_nat_u32)
  have "usable \<longleftrightarrow> c_enabled cfg \<noteq> 0 \<and> c_have_server cfg \<and> c_psk_len cfg \<noteq> 0"
    using p by (auto simp: ssl_config_parse_def Let_def)
  moreover have "c_psk_len cfg \<noteq> 0 \<longleftrightarrow> c_psk cfg \<noteq> []"
    using len(1) by (metis length_0_conv unat_eq_0)
  ultimately show ?thesis
    unfolding p Let_def prod.case using wf len ticks by (simp add: wf_config_def)
qed

end
