(* ===== verification/SS_Fingerprint.thy ===== *)
theory SS_Fingerprint
  imports SS_Memcard
begin

text \<open>
  \<open>wii/core/fingerprint.c\<close>: one FNV-1a fingerprint per 8 KiB block, the scan that turns a card and a
  table into the chunk bitmap of a delta push, and the file both clients keep their tables in.
\<close>

definition SS_FP_BLOCK_SIZE :: u32 where "SS_FP_BLOCK_SIZE = 8192"
definition SS_FP_CHUNK_SIZE :: u32 where "SS_FP_CHUNK_SIZE = 1024"
definition SS_FP_CHUNKS_PER_BLOCK :: u32 where
  "SS_FP_CHUNKS_PER_BLOCK = SS_FP_BLOCK_SIZE div SS_FP_CHUNK_SIZE"
definition SS_FP_MAGIC :: "byte list" where "SS_FP_MAGIC = [0x53, 0x53, 0x46, 0x50]"
definition SS_FP_FORMAT :: byte where "SS_FP_FORMAT = 1"
definition SS_FP_HEADER_SIZE :: nat where "SS_FP_HEADER_SIZE = 16"
definition SS_FP_RECORD_SIZE :: nat where "SS_FP_RECORD_SIZE = 56"
definition SS_FP_DIGEST_SIZE :: nat where "SS_FP_DIGEST_SIZE = 32"

lemmas fp_consts =
  SS_FP_BLOCK_SIZE_def SS_FP_CHUNK_SIZE_def SS_FP_CHUNKS_PER_BLOCK_def SS_FP_FORMAT_def
  SS_FP_HEADER_SIZE_def SS_FP_RECORD_SIZE_def SS_FP_DIGEST_SIZE_def SS_GAME_ID_LEN_def

subsection \<open>Fingerprints and the scan\<close>

definition ss_fp_blocks :: "u32 \<Rightarrow> u32" where
  "ss_fp_blocks n = (if n = 0 then 0 else (n + SS_FP_BLOCK_SIZE - 1) div SS_FP_BLOCK_SIZE)"

text \<open>\<open>data\<close> is the \<open>len\<close> bytes hashed.\<close>

definition ss_fp_hash :: "byte list \<Rightarrow> u32" where
  "ss_fp_hash data = fold (\<lambda>b hash. (hash XOR ucast b) * 16777619) data 2166136261"

text \<open>\<open>dirty[chunk >> 3] |= 1u << (chunk & 7u); marked++\<close>, chunk after chunk.\<close>

definition mark_chunk :: "nat \<Rightarrow> byte list \<times> u32 \<Rightarrow> byte list \<times> u32" where
  "mark_chunk chunk = (\<lambda>(dirty, marked).
     (dirty[chunk div 8 := dirty ! (chunk div 8) OR push_bit (chunk mod 8) 1], marked + 1))"

text \<open>The body of the loop over blocks, at \<open>block\<close>.\<close>

definition scan_block ::
    "byte list \<Rightarrow> u32 \<Rightarrow> u32 \<Rightarrow> nat \<Rightarrow> u32 list \<times> byte list \<times> u32 \<Rightarrow> u32 list \<times> byte list \<times> u32" where
  "scan_block img n chunks block = (\<lambda>(fp, dirty, marked).
     let offset = of_nat block * SS_FP_BLOCK_SIZE;
         left = n - offset;
         len = (if left < SS_FP_BLOCK_SIZE then left else SS_FP_BLOCK_SIZE);
         hash = ss_fp_hash (bytes_at img (unat offset) (unat len))
     in if hash = fp ! block then (fp, dirty, marked)
        else let first = offset div SS_FP_CHUNK_SIZE;
                 last = min (unat (first + SS_FP_CHUNKS_PER_BLOCK)) (unat chunks)
             in (fp[block := hash], fold mark_chunk [unat first..<last] (dirty, marked)))"

text \<open>
  The pointers are never NULL here, and \<open>fp_entries\<close> and \<open>dirty_bytes\<close> are the lengths of the two
  arrays. \<open>None\<close> is \<open>-1\<close>; otherwise the table, the bitmap and the return value afterwards.
\<close>

definition ss_fp_scan ::
    "byte list \<Rightarrow> u32 \<Rightarrow> u32 list \<Rightarrow> byte list \<Rightarrow> (u32 list \<times> byte list \<times> u32) option" where
  "ss_fp_scan img n fp dirty =
     (if n = 0 then None
      else let blocks = ss_fp_blocks n;
               chunks = (n + SS_FP_CHUNK_SIZE - 1) div SS_FP_CHUNK_SIZE;
               needed = (chunks + 7) div 8
           in if length fp < unat blocks \<or> length dirty < unat needed then None
              else Some (fold (scan_block img n chunks) [0..<unat blocks]
                     (fp, memset dirty 0 (unat needed), 0)))"

definition ss_fp_worthwhile :: "u32 \<Rightarrow> u32 \<Rightarrow> bool" where
  "ss_fp_worthwhile marked chunks \<longleftrightarrow> 0 < chunks \<and> marked * 2 < chunks"

subsection \<open>The store\<close>

text \<open>\<open>f_game_id\<close> is the six bytes of the C field; its terminating NUL is always there.\<close>

record ss_fp_record =
  f_game_id :: "byte list"
  f_slot :: byte
  f_version :: u32
  f_size :: u32
  f_blocks :: u32
  f_sha256 :: "byte list"

definition ss_fp_store_count :: "byte list \<Rightarrow> nat option" where
  "ss_fp_store_count store =
     (if length store < SS_FP_HEADER_SIZE then None
      else if take 4 store \<noteq> SS_FP_MAGIC then None
      else if store ! 4 \<noteq> SS_FP_FORMAT then None
      else if ss_get_u32 (drop 8 store) \<noteq> SS_FP_BLOCK_SIZE then None
      else Some (unat (ss_get_u16 (drop 6 store))))"

definition ss_fp_get_record :: "byte list \<Rightarrow> ss_fp_record option" where
  "ss_fp_get_record p =
     (let r = \<lparr>f_game_id = take SS_GAME_ID_LEN p, f_slot = p ! 6, f_version = ss_get_u32 (drop 8 p),
               f_size = ss_get_u32 (drop 12 p), f_blocks = ss_get_u32 (drop 16 p),
               f_sha256 = bytes_at p 20 SS_FP_DIGEST_SIZE\<rparr>
      in if f_blocks r = 0 \<or> f_blocks r \<noteq> ss_fp_blocks (f_size r) then None else Some r)"

definition ss_fp_get_values :: "u32 list \<Rightarrow> byte list \<Rightarrow> nat \<Rightarrow> u32 list" where
  "ss_fp_get_values fp p n = fold (\<lambda>i fp. fp[i := ss_get_u32 (drop (i * 4) p)]) [0..<n] fp"

text \<open>One step of a walk: the record, where its values start, and where the next record does.\<close>

datatype fp_walk = FP_BAD | FP_END | FP_NEXT ss_fp_record nat nat

definition ss_fp_store_next :: "byte list \<Rightarrow> nat \<Rightarrow> fp_walk" where
  "ss_fp_store_next store cursor =
     (if cursor = 0 \<and> ss_fp_store_count store = None then FP_BAD
      else let offset = (if cursor = 0 then SS_FP_HEADER_SIZE else cursor)
           in if length store < offset \<or> length store - offset < SS_FP_RECORD_SIZE
              then (if length store = offset then FP_END else FP_BAD)
              else (case ss_fp_get_record (drop offset store) of
                      None \<Rightarrow> FP_BAD
                    | Some r \<Rightarrow>
                        let offset = offset + SS_FP_RECORD_SIZE
                        in if of_nat (length store - offset) div 4 < f_blocks r then FP_BAD
                           else FP_NEXT r offset (offset + unat (f_blocks r) * 4)))"

text \<open>The loop over the records, \<open>n\<close> of them left. The table is \<open>fp_entries = length fp\<close> long.\<close>

fun find_record :: "byte list \<Rightarrow> byte list \<Rightarrow> byte \<Rightarrow> u32 list \<Rightarrow> nat \<Rightarrow> nat \<Rightarrow> (ss_fp_record \<times> u32 list) option" where
  "find_record store game_id slot fp 0 cursor = None"
| "find_record store game_id slot fp (Suc n) cursor =
     (case ss_fp_store_next store cursor of
        FP_NEXT r values cursor' \<Rightarrow>
          if f_slot r = slot \<and> strn_eq (f_game_id r) game_id SS_GAME_ID_LEN
          then (if length fp < unat (f_blocks r) then None
                else Some (r, ss_fp_get_values fp (drop values store) (unat (f_blocks r))))
          else find_record store game_id slot fp n cursor'
      | _ \<Rightarrow> None)"

definition ss_fp_store_find :: "byte list \<Rightarrow> byte list \<Rightarrow> byte \<Rightarrow> u32 list \<Rightarrow> (ss_fp_record \<times> u32 list) option" where
  "ss_fp_store_find store game_id slot fp =
     (case ss_fp_store_count store of
        None \<Rightarrow> None
      | Some records \<Rightarrow> find_record store game_id slot fp records 0)"

definition ss_fp_put_header :: "u16 \<Rightarrow> byte list" where
  "ss_fp_put_header records =
     (let out = replicate SS_FP_HEADER_SIZE 0;
          out = blit out 0 SS_FP_MAGIC;
          out = blit out 4 [SS_FP_FORMAT];
          out = blit out 6 (ss_put_u16 records)
      in blit out 8 (ss_put_u32 SS_FP_BLOCK_SIZE))"

definition ss_fp_put_record :: "ss_fp_record \<Rightarrow> byte list" where
  "ss_fp_put_record r =
     (let out = replicate SS_FP_RECORD_SIZE 0;
          out = blit out 0 (space_pad_id (f_game_id r));
          out = blit out 6 [f_slot r];
          out = blit out 8 (ss_put_u32 (f_version r));
          out = blit out 12 (ss_put_u32 (f_size r));
          out = blit out 16 (ss_put_u32 (f_blocks r))
      in blit out 20 (take SS_FP_DIGEST_SIZE (f_sha256 r)))"

definition ss_fp_put_values :: "u32 list \<Rightarrow> nat \<Rightarrow> byte list" where
  "ss_fp_put_values fp n = concat (map (\<lambda>i. ss_put_u32 (fp ! i)) [0..<n])"

subsection \<open>One byte always shows in the hash\<close>

abbreviation fnv_step :: "byte \<Rightarrow> u32 \<Rightarrow> u32" where
  "fnv_step b hash \<equiv> (hash XOR ucast b) * 16777619"

text \<open>The multiplier is odd; its inverse modulo \<open>2 ^ 32\<close> undoes a step.\<close>

lemma fnv_prime_cancel: "(x :: u32) * 16777619 = y * 16777619 \<longleftrightarrow> x = y"
proof
  assume "x * 16777619 = y * 16777619"
  then have "x * (16777619 * 899433627) = y * (16777619 * 899433627)"
    by (simp only: mult.assoc[symmetric])
  moreover have "(16777619 * 899433627 :: u32) = 1" by simp
  ultimately show "x = y" by (simp only: mult_1_right)
qed simp

lemma xor_cancel: "(a XOR c) = (b XOR c) \<longleftrightarrow> a = (b :: 'a::len word)"
  by (metis xor.assoc xor.right_neutral xor_self_eq)

lemma fnv_step_inj: "fnv_step b x = fnv_step b y \<longleftrightarrow> x = y"
  by (simp add: fnv_prime_cancel xor_cancel)

lemma ucast_byte_inj: "(ucast (a :: byte) :: u32) = ucast b \<longleftrightarrow> a = b"
  using bit_imp_le_length[of a] bit_imp_le_length[of b] by (fastforce simp: bit_eq_iff bit_simps)

lemma fnv_step_byte: "fnv_step a x = fnv_step b x \<longleftrightarrow> a = b"
  by (simp add: fnv_prime_cancel xor_cancel xor.commute[of x] ucast_byte_inj)

lemma fnv_fold_inj: "fold fnv_step ds x = fold fnv_step ds y \<longleftrightarrow> x = y"
  by (induction ds arbitrary: x y) (simp_all add: fnv_step_inj)

lemma ss_fp_hash_update:
  assumes "i < length data"
  shows "ss_fp_hash (data[i := b]) = ss_fp_hash data \<longleftrightarrow> b = data ! i"
  using assms
  by (simp add: ss_fp_hash_def upd_conv_take_nth_drop fnv_fold_inj fnv_step_byte
      arg_cong[OF id_take_nth_drop[OF assms], of "\<lambda>d. fold fnv_step d _"])

subsection \<open>What the scan computes\<close>

text \<open>The fingerprint of block \<open>b\<close> of a card of \<open>n\<close> bytes, and the chunks whose block changed.\<close>

definition block_hash :: "byte list \<Rightarrow> nat \<Rightarrow> nat \<Rightarrow> u32" where
  "block_hash img n b = ss_fp_hash (bytes_at (take n img) (b * 8192) 8192)"

definition block_count :: "nat \<Rightarrow> nat" where "block_count n = (n + 8191) div 8192"
definition chunk_count :: "nat \<Rightarrow> nat" where "chunk_count n = (n + 1023) div 1024"

definition stale :: "byte list \<Rightarrow> nat \<Rightarrow> u32 list \<Rightarrow> nat \<Rightarrow> bool" where
  "stale img n fp k \<longleftrightarrow> fp ! (k div 8) \<noteq> block_hash img n (k div 8)"

definition dirty_chunks :: "byte list \<Rightarrow> nat \<Rightarrow> u32 list \<Rightarrow> nat set" where
  "dirty_chunks img n fp = {k. k < chunk_count n \<and> stale img n fp k}"

lemma block_count_iff: "b < block_count n \<longleftrightarrow> b * 8192 < n"
  unfolding block_count_def Suc_le_eq[symmetric] by (subst less_eq_div_iff_mult_less_eq) auto

lemma chunk_count_iff: "k < chunk_count n \<longleftrightarrow> k * 1024 < n"
  unfolding chunk_count_def Suc_le_eq[symmetric] by (subst less_eq_div_iff_mult_less_eq) auto

lemma chunks_in_blocks: "chunk_count n \<le> 8 * block_count n"
proof (rule ccontr)
  assume "\<not> ?thesis"
  then have "block_count n * 8192 < n" using chunk_count_iff[of "8 * block_count n" n] by simp
  then show False using block_count_iff[of "block_count n" n] by simp
qed

lemma unat_fp_counts:
  assumes "unat n + 8191 < 2 ^ 32"
  shows "unat (ss_fp_blocks n) = block_count (unat n)"
    and "unat ((n + SS_FP_CHUNK_SIZE - 1) div SS_FP_CHUNK_SIZE) = chunk_count (unat n)"
    and "unat (((n + SS_FP_CHUNK_SIZE - 1) div SS_FP_CHUNK_SIZE + 7) div 8) = (chunk_count (unat n) + 7) div 8"
proof -
  have s: "unat (8191 + n) = unat n + 8191" "unat (1023 + n) = unat n + 1023"
    using assms by (simp_all add: unat_add_u32)
  show "unat (ss_fp_blocks n) = block_count (unat n)"
    using s(1) by (simp add: ss_fp_blocks_def fp_consts unat_div block_count_def unat_eq_0)
  show c: "unat ((n + SS_FP_CHUNK_SIZE - 1) div SS_FP_CHUNK_SIZE) = chunk_count (unat n)"
    using s(2) by (simp add: fp_consts unat_div chunk_count_def)
  have "chunk_count (unat n) + 7 < 2 ^ 32" using assms by (simp add: chunk_count_def)
  then show "unat (((n + SS_FP_CHUNK_SIZE - 1) div SS_FP_CHUNK_SIZE + 7) div 8) = (chunk_count (unat n) + 7) div 8"
    using c by (simp add: unat_div unat_add_u32)
qed

lemma mark_chunks:
  assumes "\<forall>k \<in> set ks. k div 8 < length d"
  shows "length (fst (fold mark_chunk ks (d, m))) = length d"
    and "bitmap_bit (fst (fold mark_chunk ks (d, m))) j \<longleftrightarrow> bitmap_bit d j \<or> j \<in> set ks"
    and "snd (fold mark_chunk ks (d, m)) = m + of_nat (length ks)"
  using assms
  by (induction ks arbitrary: d m) (auto simp: mark_chunk_def bitmap_bit_update)

lemma scan_block_eq:
  assumes n: "unat n + 8191 < 2 ^ 32" "unat n \<le> length img"
    and b: "b * 8192 < unat n" and ch: "unat chunks = chunk_count (unat n)"
  shows "scan_block img n chunks b (fp, d, m) =
    (if block_hash img (unat n) b = fp ! b then (fp, d, m)
     else (fp[b := block_hash img (unat n) b],
           fold mark_chunk [8 * b..<min (8 * b + 8) (chunk_count (unat n))] (d, m)))"
proof -
  define N where "N = unat n"
  define off :: u32 where "off = of_nat b * SS_FP_BLOCK_SIZE"
  have "off = of_nat (b * 8192)" by (simp add: off_def fp_consts)
  then have off: "unat off = b * 8192" using b n(1) by (simp only: unat_of_nat_u32)
  then have le: "off \<le> n" using b by (simp add: word_le_nat_alt)
  have left: "unat (n - off) = N - b * 8192" using unat_sub_u32[OF le] off by (simp add: N_def)
  let ?len = "if n - off < SS_FP_BLOCK_SIZE then n - off else SS_FP_BLOCK_SIZE"
  have len: "unat ?len = min (N - b * 8192) 8192"
    using left by (auto simp: word_less_nat_alt fp_consts)
  have blk: "bytes_at img (unat off) (unat ?len) = bytes_at (take N img) (b * 8192) 8192"
    unfolding len off using b n(2) by (intro bytes_at_take) (simp_all add: N_def)
  have first: "unat (off div SS_FP_CHUNK_SIZE) = 8 * b"
    using off by (simp add: fp_consts unat_div)
  have last: "unat (off div SS_FP_CHUNK_SIZE + SS_FP_CHUNKS_PER_BLOCK) = 8 * b + 8"
    using first b n(1) by (simp add: fp_consts unat_add_u32)
  show ?thesis
    unfolding scan_block_def prod.case off_def[symmetric] Let_def blk first last ch
      block_hash_def N_def[symmetric] by simp
qed

text \<open>The state of the scan after the first \<open>B\<close> blocks.\<close>

definition scanned ::
    "byte list \<Rightarrow> nat \<Rightarrow> u32 list \<Rightarrow> byte list \<Rightarrow> nat \<Rightarrow> u32 list \<times> byte list \<times> u32 \<Rightarrow> bool" where
  "scanned img n fp d B = (\<lambda>(fp', d', m).
     length fp' = length fp \<and> length d' = length d \<and>
     (\<forall>b < length fp. fp' ! b = (if b < B then block_hash img n b else fp ! b)) \<and>
     (\<forall>j. bitmap_bit d' j \<longleftrightarrow> bitmap_bit d j \<or> (j < min (8 * B) (chunk_count n) \<and> stale img n fp j)) \<and>
     m = of_nat (length (filter (stale img n fp) [0..<min (8 * B) (chunk_count n)])))"

lemma filter_block:
  assumes "8 * b < C"
  shows "filter (stale img n fp) [0..<min (8 * Suc b) C] =
    filter (stale img n fp) [0..<min (8 * b) C] @
      (if stale img n fp (8 * b) then [8 * b..<min (8 * b + 8) C] else [])"
proof -
  let ?ks = "[8 * b..<min (8 * b + 8) C]"
  have split: "[0..<min (8 * Suc b) C] = [0..<min (8 * b) C] @ ?ks"
    using assms upt_add_eq_append[of 0 "8 * b" "min (8 * b + 8) C - 8 * b"] by (simp add: add.commute)
  have "filter (stale img n fp) ?ks = filter (\<lambda>k. stale img n fp (8 * b)) ?ks"
  proof (rule filter_cong[OF refl])
    fix k assume "k \<in> set ?ks"
    then have "k div 8 = b" by auto
    then show "stale img n fp k \<longleftrightarrow> stale img n fp (8 * b)" by (simp add: stale_def)
  qed
  then show ?thesis unfolding split by simp
qed

lemma scanned_step:
  assumes n: "unat n + 8191 < 2 ^ 32" "unat n \<le> length img"
    and b: "B * 8192 < unat n" and ch: "unat chunks = chunk_count (unat n)"
    and fit: "block_count (unat n) \<le> length fp" "chunk_count (unat n) \<le> 8 * length d"
    and sc: "scanned img (unat n) fp d B s"
  shows "scanned img (unat n) fp d (Suc B) (scan_block img n chunks B s)"
proof -
  obtain fp' d' m where s: "s = (fp', d', m)" by (cases s)
  let ?C = "chunk_count (unat n)" and ?S = "stale img (unat n) fp"
  let ?ks = "[8 * B..<min (8 * B + 8) ?C]"
  have sc1: "length fp' = length fp" "length d' = length d"
    and sc2: "\<And>b. b < length fp \<Longrightarrow> fp' ! b = (if b < B then block_hash img (unat n) b else fp ! b)"
    and sc3: "\<And>j. bitmap_bit d' j \<longleftrightarrow> bitmap_bit d j \<or> (j < min (8 * B) ?C \<and> ?S j)"
    and sc4: "m = of_nat (length (filter ?S [0..<min (8 * B) ?C]))"
    using sc by (auto simp: scanned_def s)
  have B: "B < length fp" using b fit(1) block_count_iff by (metis order_less_le_trans)
  have C: "8 * B < ?C" using b by (simp add: chunk_count_iff)
  have fpB: "fp' ! B = fp ! B" using sc2[OF B] by simp
  have st: "?S (8 * B) \<longleftrightarrow> block_hash img (unat n) B \<noteq> fp ! B" by (auto simp: stale_def)
  have mem: "k div 8 = B" "k div 8 < length d'" if "k \<in> set ?ks" for k
    using that fit(2) by (auto simp: sc1)
  have new: "j < min (8 * Suc B) ?C \<and> ?S j \<longleftrightarrow>
      (j < min (8 * B) ?C \<and> ?S j) \<or> (j \<in> set ?ks \<and> ?S (8 * B))" for j
  proof -
    have "j \<in> set ?ks \<Longrightarrow> ?S j \<longleftrightarrow> ?S (8 * B)" using mem(1)[of j] by (simp add: stale_def)
    moreover have "j < min (8 * Suc B) ?C \<longleftrightarrow> j < min (8 * B) ?C \<or> j \<in> set ?ks" using C by auto
    ultimately show ?thesis by blast
  qed
  show ?thesis
  proof (cases "?S (8 * B)")
    case True
    obtain d2 m2 where M: "fold mark_chunk ?ks (d', m) = (d2, m2)" by fastforce
    have M2: "length d2 = length d'" "\<And>j. bitmap_bit d2 j \<longleftrightarrow> bitmap_bit d' j \<or> j \<in> set ?ks"
      "m2 = m + of_nat (length ?ks)"
      using mark_chunks[of ?ks d' m] mem(2) unfolding M by auto
    have r: "scan_block img n chunks B s = (fp'[B := block_hash img (unat n) B], d2, m2)"
      using True by (simp add: s scan_block_eq[OF n b ch] M fpB st)
    have 1: "fp'[B := block_hash img (unat n) B] ! i =
        (if i < Suc B then block_hash img (unat n) i else fp ! i)" if "i < length fp" for i
      using sc1(1) sc2[OF that] that by (auto simp: nth_list_update less_Suc_eq)
    have 2: "m2 = of_nat (length (filter ?S [0..<min (8 * Suc B) ?C]))"
      unfolding filter_block[OF C] M2(3) sc4 using True by simp
    show ?thesis
      unfolding scanned_def r prod.case new M2(2) sc3 using 1 2 True sc1 M2(1) by auto
  next
    case False
    have r: "scan_block img n chunks B s = (fp', d', m)"
      using False by (simp add: s scan_block_eq[OF n b ch] fpB st)
    have 1: "fp' ! i = (if i < Suc B then block_hash img (unat n) i else fp ! i)" if "i < length fp" for i
      using sc2[OF that] False st by (auto simp: less_Suc_eq)
    have 2: "m = of_nat (length (filter ?S [0..<min (8 * Suc B) ?C]))"
      unfolding filter_block[OF C] sc4 using False by simp
    show ?thesis
      unfolding scanned_def r prod.case new sc3 using 1 2 False sc1 by auto
  qed
qed

lemma scanned_blocks:
  assumes n: "unat n + 8191 < 2 ^ 32" "unat n \<le> length img"
    and ch: "unat chunks = chunk_count (unat n)"
    and fit: "block_count (unat n) \<le> length fp" "chunk_count (unat n) \<le> 8 * length d"
  shows "B \<le> block_count (unat n) \<Longrightarrow>
    scanned img (unat n) fp d B (fold (scan_block img n chunks) [0..<B] (fp, d, 0))"
proof (induction B)
  case 0
  then show ?case by (simp add: scanned_def)
next
  case (Suc B)
  then have "B < block_count (unat n)" by simp
  then have "B * 8192 < unat n" by (simp only: block_count_iff)
  then show ?case using scanned_step[OF n _ ch fit] Suc by simp
qed

text \<open>
  The scan succeeds exactly when both arrays are large enough; then it leaves the fingerprints of the
  card in the table, marks exactly the chunks of the changed blocks, and counts them.
\<close>

lemma ss_fp_scan_spec:
  assumes n: "unat n + 8191 < 2 ^ 32" "unat n \<le> length img" "n \<noteq> 0"
  shows "ss_fp_scan img n fp dirty = None \<longleftrightarrow>
      length fp < block_count (unat n) \<or> length dirty < (chunk_count (unat n) + 7) div 8"
    and "ss_fp_scan img n fp dirty = Some (fp', dirty', marked) \<Longrightarrow>
      length fp' = length fp \<and> length dirty' = length dirty \<and>
      (\<forall>b < length fp. fp' ! b = (if b < block_count (unat n) then block_hash img (unat n) b else fp ! b)) \<and>
      (\<forall>k < chunk_count (unat n). bitmap_bit dirty' k \<longleftrightarrow> stale img (unat n) fp k) \<and>
      unat marked = card (dirty_chunks img (unat n) fp)"
proof -
  let ?N = "unat n" and ?C = "chunk_count (unat n)"
  let ?chunks = "(n + SS_FP_CHUNK_SIZE - 1) div SS_FP_CHUNK_SIZE"
  let ?d = "memset dirty 0 ((?C + 7) div 8)"
  note cnt = unat_fp_counts[OF n(1)]
  have sc: "ss_fp_scan img n fp dirty =
    (if length fp < block_count ?N \<or> length dirty < (?C + 7) div 8 then None
     else Some (fold (scan_block img n ?chunks) [0..<block_count ?N] (fp, ?d, 0)))"
    unfolding ss_fp_scan_def Let_def cnt using n(3) by simp
  then show "ss_fp_scan img n fp dirty = None \<longleftrightarrow>
      length fp < block_count ?N \<or> length dirty < (?C + 7) div 8" by simp
  assume "ss_fp_scan img n fp dirty = Some (fp', dirty', marked)"
  then have fit: "block_count ?N \<le> length fp" "(?C + 7) div 8 \<le> length dirty"
    and r: "fold (scan_block img n ?chunks) [0..<block_count ?N] (fp, ?d, 0) = (fp', dirty', marked)"
    unfolding sc by (auto split: if_splits)
  have ld: "length ?d = length dirty" using fit(2) by simp
  have "?C \<le> 8 * ((?C + 7) div 8)" by presburger
  then have c8: "?C \<le> 8 * length ?d" using fit(2) ld by linarith
  have s: "scanned img ?N fp ?d (block_count ?N) (fp', dirty', marked)"
    using scanned_blocks[OF n(1,2) cnt(2) fit(1) c8, of "block_count ?N"] unfolding r by simp
  have all: "min (8 * block_count ?N) ?C = ?C"
    using chunks_in_blocks[of ?N] by simp
  have clear: "\<not> bitmap_bit ?d k" if "k < ?C" for k
    using that fit(2) by (subst bitmap_bit_memset0) auto
  have fin: "card (dirty_chunks img ?N fp) = length (filter (stale img ?N fp) [0..<?C])"
    by (simp add: dirty_chunks_def distinct_length_filter Int_def conj_commute)
  also have "\<dots> < 2 ^ 32"
    using length_filter_le[of "stale img ?N fp" "[0..<?C]"] n(1) by (simp add: chunk_count_def)
  finally have "unat (of_nat (card (dirty_chunks img ?N fp)) :: u32) = card (dirty_chunks img ?N fp)"
    by (rule unat_of_nat_u32)
  then show "length fp' = length fp \<and> length dirty' = length dirty \<and>
      (\<forall>b < length fp. fp' ! b = (if b < block_count ?N then block_hash img ?N b else fp ! b)) \<and>
      (\<forall>k < ?C. bitmap_bit dirty' k \<longleftrightarrow> stale img ?N fp k) \<and>
      unat marked = card (dirty_chunks img ?N fp)"
    using s clear ld unfolding scanned_def prod.case all fin by simp
qed

subsection \<open>Putting the named chunks onto the parent\<close>

text \<open>Writing chunks \<open>ks\<close> of \<open>img\<close> into \<open>base\<close>, each at its own offset.\<close>

definition apply_chunks :: "byte list \<Rightarrow> nat list \<Rightarrow> byte list \<Rightarrow> byte list" where
  "apply_chunks img ks base = fold (\<lambda>k b. blit b (k * 1024) (bytes_at img (k * 1024) 1024)) ks base"

lemma length_put_chunk [simp]:
  "length base = length img \<Longrightarrow> k * 1024 < length img \<Longrightarrow>
   length (blit base (k * 1024) (bytes_at img (k * 1024) 1024)) = length img"
  by (subst length_blit) auto

lemma length_apply_chunks [simp]:
  assumes "length base = length img" "\<forall>k \<in> set ks. k * 1024 < length img"
  shows "length (apply_chunks img ks base) = length img"
  using assms by (induction ks arbitrary: base) (simp_all add: apply_chunks_def)

lemma chunk_after_blit:
  assumes "length base = length img" "k * 1024 < length img" "j * 1024 < length img"
  shows "bytes_at (blit base (k * 1024) (bytes_at img (k * 1024) 1024)) (j * 1024) 1024 =
    (if j = k then bytes_at img (k * 1024) 1024 else bytes_at base (j * 1024) 1024)"
proof -
  let ?s = "bytes_at img (k * 1024) 1024"
  consider "j = k" | "j < k" | "k < j" by linarith
  then show ?thesis
  proof cases
    case 1
    have "bytes_at (blit base (k * 1024) ?s) (k * 1024) 1024 = ?s"
      using assms by (intro nth_equalityI) (auto simp: nth_bytes_at nth_blit)
    with 1 show ?thesis by simp
  next
    case 2
    then have "j * 1024 + 1024 \<le> k * 1024" by simp
    with 2 assms show ?thesis by (simp add: bytes_at_blit_before)
  next
    case 3
    then have "k * 1024 + length ?s \<le> j * 1024" by simp
    with 3 assms show ?thesis by (simp add: bytes_at_blit_after)
  qed
qed

lemma chunk_apply_chunks:
  assumes "length base = length img" "\<forall>k \<in> set ks. k * 1024 < length img" "j * 1024 < length img"
  shows "bytes_at (apply_chunks img ks base) (j * 1024) 1024 =
    (if j \<in> set ks then bytes_at img (j * 1024) 1024 else bytes_at base (j * 1024) 1024)"
  using assms
proof (induction ks arbitrary: base)
  case Nil
  then show ?case by (simp add: apply_chunks_def)
next
  case (Cons k ks)
  let ?b = "blit base (k * 1024) (bytes_at img (k * 1024) 1024)"
  have "length ?b = length img" using Cons.prems by simp
  from Cons.IH[OF this] Cons.prems show ?case
    by (auto simp: apply_chunks_def chunk_after_blit)
qed

lemma apply_chunks_complete:
  assumes "length base = length img" "\<forall>k \<in> set ks. k * 1024 < length img"
    and "\<And>k. k * 1024 < length img \<Longrightarrow> k \<notin> set ks \<Longrightarrow> bytes_at base (k * 1024) 1024 = bytes_at img (k * 1024) 1024"
  shows "apply_chunks img ks base = img"
proof (rule list_eq_by_windows[where w = 1024])
  show len: "length (apply_chunks img ks base) = length img" using assms(1,2) by simp
  fix k assume "k * 1024 < length (apply_chunks img ks base)"
  then have k: "k * 1024 < length img" unfolding len .
  show "bytes_at (apply_chunks img ks base) (k * 1024) 1024 = bytes_at img (k * 1024) 1024"
    unfolding chunk_apply_chunks[OF assms(1,2) k] using assms(3)[OF k] by simp
qed simp

text \<open>A chunk the scan leaves unmarked lies in a block whose fingerprint did not change.\<close>

lemma unmarked_chunk_same:
  assumes len: "length base = n" "length img = n" and k: "k * 1024 < n"
    and fp: "fp ! (k div 8) = block_hash base n (k div 8)" and st: "\<not> stale img n fp k"
    and nocoll: "block_hash base n (k div 8) = block_hash img n (k div 8) \<Longrightarrow>
      bytes_at base (k div 8 * 8192) 8192 = bytes_at img (k div 8 * 8192) 8192"
  shows "bytes_at base (k * 1024) 1024 = bytes_at img (k * 1024) 1024"
proof -
  let ?o = "k mod 8 * 1024"
  have o: "?o + 1024 \<le> 8192" using mod_less_divisor[of 8 k] by simp
  have ke: "k div 8 * 8192 + ?o = k * 1024"
    using div_mult_mod_eq[of k 8] by linarith
  have "bytes_at (bytes_at base (k div 8 * 8192) 8192) ?o 1024 = bytes_at (bytes_at img (k div 8 * 8192) 8192) ?o 1024"
    using nocoll fp st by (simp add: stale_def)
  then show ?thesis unfolding bytes_at_bytes_at[OF o] ke .
qed

subsection \<open>The store\<close>

lemma blit_gap:
  "length pre \<le> off \<Longrightarrow> off + length src \<le> length pre + k \<Longrightarrow>
   blit (pre @ replicate k 0) off src =
     (pre @ replicate (off - length pre) 0 @ src) @ replicate (length pre + k - off - length src) 0"
  by (auto simp: blit_def min_def)

lemma ss_fp_put_record_eq:
  assumes "length (f_sha256 r) = 32"
  shows "ss_fp_put_record r = space_pad_id (f_game_id r) @ [f_slot r, 0] @ ss_put_u32 (f_version r)
    @ ss_put_u32 (f_size r) @ ss_put_u32 (f_blocks r) @ f_sha256 r @ replicate 4 0"
proof -
  have "ss_fp_put_record r = ((((((space_pad_id (f_game_id r)) @ [f_slot r]) @ [0] @ ss_put_u32 (f_version r))
    @ ss_put_u32 (f_size r)) @ ss_put_u32 (f_blocks r)) @ f_sha256 r) @ replicate 4 0"
    using assms
    by (simp add: ss_fp_put_record_def fp_consts blit_gap blit_first Let_def del: append_assoc append_Cons)
  then show ?thesis by simp
qed

lemma ss_fp_put_header_eq:
  "ss_fp_put_header n = SS_FP_MAGIC @ [1, 0] @ ss_put_u16 n @ ss_put_u32 8192 @ replicate 4 0"
proof -
  have "ss_fp_put_header n = (((SS_FP_MAGIC @ [1]) @ [0] @ ss_put_u16 n) @ ss_put_u32 8192) @ replicate 4 0"
    by (simp add: ss_fp_put_header_def fp_consts SS_FP_MAGIC_def blit_gap blit_first Let_def
        del: append_assoc append_Cons)
  then show ?thesis by simp
qed

text \<open>A card's record with its table, as the writers keep them, and the file they make of a list of them.\<close>

definition wf_entry :: "ss_fp_record \<times> u32 list \<Rightarrow> bool" where
  "wf_entry e \<longleftrightarrow> (case e of (r, vs) \<Rightarrow>
     full_id (f_game_id r) \<and> length (f_sha256 r) = 32 \<and> f_blocks r \<noteq> 0 \<and>
     f_blocks r = ss_fp_blocks (f_size r) \<and> length vs = unat (f_blocks r))"

definition encode_entry :: "ss_fp_record \<times> u32 list \<Rightarrow> byte list" where
  "encode_entry e = (case e of (r, vs) \<Rightarrow> ss_fp_put_record r @ ss_fp_put_values vs (length vs))"

definition encode_store :: "(ss_fp_record \<times> u32 list) list \<Rightarrow> byte list" where
  "encode_store es = ss_fp_put_header (of_nat (length es)) @ concat (map encode_entry es)"

lemma put_values_table: "ss_fp_put_values vs (length vs) = concat (map ss_put_u32 vs)"
proof -
  have "map (\<lambda>i. ss_put_u32 (vs ! i)) [0..<length vs] = map ss_put_u32 vs"
    by (rule nth_equalityI) simp_all
  then show ?thesis by (simp only: ss_fp_put_values_def)
qed

lemma get_values_eq:
  "n \<le> length fp \<Longrightarrow>
   ss_fp_get_values fp p n = map (\<lambda>i. ss_get_u32 (drop (i * 4) p)) [0..<n] @ drop n fp"
proof (induction n)
  case 0
  then show ?case by (simp add: ss_fp_get_values_def)
next
  case (Suc n)
  have "drop n fp = fp ! n # drop (Suc n) fp" using Suc.prems by (simp add: Cons_nth_drop_Suc)
  then show ?case using Suc by (simp add: ss_fp_get_values_def list_update_append)
qed

lemma get_values_table:
  assumes "length vs \<le> length fp"
  shows "ss_fp_get_values fp (concat (map ss_put_u32 vs) @ rest) (length vs) = vs @ drop (length vs) fp"
proof -
  have "map (\<lambda>i. ss_get_u32 (drop (i * 4) (concat (map ss_put_u32 vs) @ rest))) [0..<length vs] = vs"
    by (rule nth_equalityI) (simp_all add: u32.get_table del: drop_append)
  then show ?thesis by (simp only: get_values_eq[OF assms])
qed

lemma ss_fp_get_put_record:
  assumes "wf_entry (r, vs)"
  shows "ss_fp_get_record (ss_fp_put_record r @ rest) = Some r"
proof -
  have w: "length (f_sha256 r) = 32" "f_blocks r \<noteq> 0" "f_blocks r = ss_fp_blocks (f_size r)"
    "length (f_game_id r) = 6" "space_pad_id (f_game_id r) = f_game_id r"
    using assms by (auto simp: wf_entry_def space_pad_id_full) (simp add: full_id_def)
  let ?p = "ss_fp_put_record r @ rest"
  have "take 6 ?p = f_game_id r" "?p ! 6 = f_slot r" "ss_get_u32 (drop 8 ?p) = f_version r"
    "ss_get_u32 (drop 12 ?p) = f_size r" "ss_get_u32 (drop 16 ?p) = f_blocks r" "bytes_at ?p 20 32 = f_sha256 r"
    using w by (simp_all add: ss_fp_put_record_eq nth_append get_put_u32 bytes_at_def)
  with w(2,3) show ?thesis by (cases r) (simp add: ss_fp_get_record_def fp_consts)
qed

lemma length_encode_entry: "wf_entry (r, vs) \<Longrightarrow> length (encode_entry (r, vs)) = 56 + 4 * length vs"
  by (simp add: encode_entry_def wf_entry_def ss_fp_put_record_eq put_values_table u32.length_table)

lemma store_next_entry:
  assumes e: "wf_entry (r, vs)" and store: "store = pre @ encode_entry (r, vs) @ post"
    and len: "length store < 2 ^ 32"
    and cur: "cursor = length pre \<and> 0 < cursor \<or> cursor = 0 \<and> length pre = 16 \<and> ss_fp_store_count store \<noteq> None"
  shows "ss_fp_store_next store cursor = FP_NEXT r (length pre + 56) (length pre + length (encode_entry (r, vs)))"
proof -
  have le: "length (encode_entry (r, vs)) = 56 + 4 * length vs" by (rule length_encode_entry[OF e])
  have vs: "length vs = unat (f_blocks r)" using e by (simp add: wf_entry_def)
  have "drop (length pre) store = ss_fp_put_record r @ ss_fp_put_values vs (length vs) @ post"
    by (simp add: store encode_entry_def)
  then have get: "ss_fp_get_record (drop (length pre) store) = Some r"
    using ss_fp_get_put_record[OF e] by simp
  let ?room = "length store - (length pre + 56)"
  have "?room < 2 ^ 32" using len by simp
  then have "unat (of_nat ?room div 4 :: u32) = ?room div 4" by (simp add: unat_div unat_of_nat_u32)
  moreover have "length vs \<le> ?room div 4" using le by (simp add: store)
  ultimately have room: "\<not> (of_nat ?room div 4 :: u32) < f_blocks r"
    by (simp add: word_less_nat_alt vs)
  have off: "(if cursor = 0 then SS_FP_HEADER_SIZE else cursor) = length pre"
    and cnt: "\<not> (cursor = 0 \<and> ss_fp_store_count store = None)"
    using cur by (auto simp: fp_consts)
  have fits: "length pre + 56 \<le> length store" using le by (simp add: store)
  show ?thesis
    unfolding ss_fp_store_next_def off Let_def using cnt fits room le vs
    by (auto simp: get SS_FP_RECORD_SIZE_def)
qed

definition store_lookup ::
    "(ss_fp_record \<times> u32 list) list \<Rightarrow> byte list \<Rightarrow> byte \<Rightarrow> u32 list \<Rightarrow> (ss_fp_record \<times> u32 list) option" where
  "store_lookup es game_id slot fp =
     (case find (\<lambda>(r, vs). f_slot r = slot \<and> f_game_id r = take 6 game_id) es of
        None \<Rightarrow> None
      | Some (r, vs) \<Rightarrow> if length fp < length vs then None else Some (r, vs @ drop (length vs) fp))"

lemma find_record_entries:
  assumes "\<forall>e \<in> set es. wf_entry e" "store = pre @ concat (map encode_entry es)" "length store < 2 ^ 32"
    and "cursor = length pre \<and> 0 < cursor \<or> cursor = 0 \<and> length pre = 16 \<and> ss_fp_store_count store \<noteq> None"
  shows "find_record store game_id slot fp (length es) cursor = store_lookup es game_id slot fp"
  using assms
proof (induction es arbitrary: pre cursor)
  case Nil
  then show ?case by (simp add: store_lookup_def)
next
  case (Cons e es)
  obtain r vs where e: "e = (r, vs)" by (cases e)
  have wf: "wf_entry (r, vs)" using Cons.prems(1) e by simp
  let ?enc = "encode_entry (r, vs)"
  have st: "store = pre @ ?enc @ concat (map encode_entry es)" using Cons.prems(2) e by simp
  have nxt: "ss_fp_store_next store cursor = FP_NEXT r (length pre + 56) (length pre + length ?enc)"
    by (rule store_next_entry[OF wf st Cons.prems(3,4)])
  have id: "strn_eq (f_game_id r) game_id SS_GAME_ID_LEN \<longleftrightarrow> f_game_id r = take 6 game_id"
    using wf strn_eq_full[of "f_game_id r" game_id] by (auto simp: wf_entry_def full_id_def SS_GAME_ID_LEN_def)
  have vals: "drop (length pre + 56) store = concat (map ss_put_u32 vs) @ concat (map encode_entry es)"
    using wf by (simp add: st encode_entry_def put_values_table wf_entry_def ss_fp_put_record_eq)
  have vs: "unat (f_blocks r) = length vs" using wf by (simp add: wf_entry_def)
  have "find_record store game_id slot fp (length es) (length pre + length ?enc) =
      store_lookup es game_id slot fp"
    using Cons.prems(1,3) st length_encode_entry[OF wf]
    by (intro Cons.IH[of "pre @ ?enc"]) auto
  then show ?case
    using get_values_table[of vs fp "concat (map encode_entry es)"]
    by (auto simp: e nxt id vals vs store_lookup_def not_less)
qed

lemma store_count_encode:
  "length es < 2 ^ 16 \<Longrightarrow> ss_fp_store_count (encode_store es) = Some (length es)"
  by (simp add: ss_fp_store_count_def encode_store_def ss_fp_put_header_eq fp_consts SS_FP_MAGIC_def
      get_put_u16 get_put_u32 unat_of_nat take_bit_eq_mod)

lemma ss_fp_store_find_encode:
  assumes "\<forall>e \<in> set es. wf_entry e" "length es < 2 ^ 16" "length (encode_store es) < 2 ^ 32"
  shows "ss_fp_store_find (encode_store es) game_id slot fp = store_lookup es game_id slot fp"
  using find_record_entries[OF assms(1) encode_store_def assms(3)] store_count_encode[OF assms(2)]
  by (simp add: ss_fp_store_find_def ss_fp_put_header_eq SS_FP_MAGIC_def)

lemma ss_fp_get_record_Some:
  "ss_fp_get_record p = Some r \<Longrightarrow> f_blocks r \<noteq> 0 \<and> f_blocks r = ss_fp_blocks (f_size r)"
  by (auto simp: ss_fp_get_record_def Let_def split: if_splits)

lemma store_next_bounds:
  assumes "ss_fp_store_next store cursor = FP_NEXT r values cursor'" "length store < 2 ^ 32"
  shows "cursor + 56 \<le> values" "cursor' = values + 4 * unat (f_blocks r)" "cursor' \<le> length store"
    "f_blocks r \<noteq> 0 \<and> f_blocks r = ss_fp_blocks (f_size r)"
proof -
  define off where "off = (if cursor = 0 then SS_FP_HEADER_SIZE else cursor)"
  let ?room = "length store - (off + 56)"
  have v: "values = off + 56" "cursor' = values + 4 * unat (f_blocks r)" "off + 56 \<le> length store"
    and room: "\<not> (of_nat ?room div 4 :: u32) < f_blocks r"
    and get: "ss_fp_get_record (drop off store) = Some r"
    using assms(1) unfolding ss_fp_store_next_def Let_def off_def[symmetric]
    by (auto simp: SS_FP_RECORD_SIZE_def mult.commute split: if_splits option.splits)
  have "unat (of_nat ?room :: u32) = ?room" using assms(2) by (intro unat_of_nat_u32) simp
  then have "unat (f_blocks r) \<le> ?room div 4" using room by (simp add: word_less_nat_alt unat_div)
  then show "cursor' \<le> length store" using v by linarith
  show "cursor + 56 \<le> values" using v by (simp add: off_def)
  show "cursor' = values + 4 * unat (f_blocks r)" by (rule v)
  show "f_blocks r \<noteq> 0 \<and> f_blocks r = ss_fp_blocks (f_size r)" by (rule ss_fp_get_record_Some[OF get])
qed

text \<open>A scan against the table of an image marks every chunk that differs from it, collisions apart.\<close>

lemma scan_delta_sound:
  assumes "unat n + 8191 < 2 ^ 32" "n \<noteq> 0" "length img = unat n" "length parent = unat n"
    and "ss_fp_scan img n fp dirty = Some (fp', dirty', marked)"
    and "\<forall>b < block_count (unat n). fp ! b = block_hash parent (unat n) b"
    and "\<forall>b < block_count (unat n). block_hash parent (unat n) b = block_hash img (unat n) b \<longrightarrow>
           bytes_at parent (b * 8192) 8192 = bytes_at img (b * 8192) 8192"
  shows "apply_chunks img (filter (bitmap_bit dirty') [0..<chunk_count (unat n)]) parent = img"
proof (rule apply_chunks_complete)
  fix k assume k: "k * 1024 < length img" and "k \<notin> set (filter (bitmap_bit dirty') [0..<chunk_count (unat n)])"
  then have st: "\<not> stale img (unat n) fp k"
    using ss_fp_scan_spec(2)[OF assms(1) _ assms(2,5)] assms(3) by (simp add: chunk_count_iff)
  have "k div 8 * 8192 \<le> k * 1024" by linarith
  then have b: "k div 8 < block_count (unat n)"
    using k assms(3) by (simp add: block_count_iff)
  show "bytes_at parent (k * 1024) 1024 = bytes_at img (k * 1024) 1024"
    using assms(6,7) b st k by (intro unmarked_chunk_same[OF assms(4,3)]) (auto simp: assms(3))
qed (use assms(3,4) in \<open>auto simp: chunk_count_iff\<close>)

subsection \<open>Properties\<close>

text \<open>
  Changing one byte of a block, whatever its position, always changes the fingerprint
  (every step of the hash is a bijection of the 32-bit state).
\<close>

lemma fp_hash_one_byte:
  assumes "i < length data" "b \<noteq> data ! i"
  shows "ss_fp_hash (data[i := b]) \<noteq> ss_fp_hash data"
  using assms by (simp add: ss_fp_hash_update)

text \<open>
  A scan that succeeds leaves the card's own fingerprint for every block of the card
  in the table, marks exactly the chunks lying in a block whose fingerprint changed, and returns
  how many it marked; it gives up exactly when a buffer is too small for the card.
\<close>

lemma fp_scan_marks:
  assumes "unat n + 8191 < 2 ^ 32" "unat n \<le> length img" "n \<noteq> 0"
  shows "case ss_fp_scan img n fp dirty of
      None \<Rightarrow> length fp < block_count (unat n) \<or> length dirty < (chunk_count (unat n) + 7) div 8
    | Some (fp', dirty', marked) \<Rightarrow>
        (\<forall>b. b < block_count (unat n) \<longrightarrow> fp' ! b = block_hash img (unat n) b) \<and>
        (\<forall>k. k < chunk_count (unat n) \<longrightarrow>
           (bitmap_bit dirty' k \<longleftrightarrow> fp ! (k div 8) \<noteq> block_hash img (unat n) (k div 8))) \<and>
        unat marked = card (dirty_chunks img (unat n) fp)"
proof (cases "ss_fp_scan img n fp dirty")
  case None
  then show ?thesis using ss_fp_scan_spec(1)[OF assms, of fp dirty] by simp
next
  case (Some r)
  obtain fp' dirty' marked where r: "r = (fp', dirty', marked)" by (cases r)
  have "block_count (unat n) \<le> length fp"
    using ss_fp_scan_spec(1)[OF assms, of fp dirty] Some by simp
  then show ?thesis
    using ss_fp_scan_spec(2)[OF assms Some[unfolded r]] unfolding Some r option.case prod.case stale_def
    by simp
qed

text \<open>
  C16: if the table holds the fingerprints of an image of the same size and no changed block
  collides with its old fingerprint, then writing just the chunks a scan marks into that image gives the card.
\<close>

theorem fp_delta_sound:
  assumes "unat n + 8191 < 2 ^ 32" "n \<noteq> 0" "length img = unat n" "length parent = unat n"
    and "ss_fp_scan img n fp dirty = Some (fp', dirty', marked)"
    and "\<forall>b < block_count (unat n). fp ! b = block_hash parent (unat n) b"
    and "\<forall>b < block_count (unat n). block_hash parent (unat n) b = block_hash img (unat n) b \<longrightarrow>
           bytes_at parent (b * 8192) 8192 = bytes_at img (b * 8192) 8192"
  shows "apply_chunks img (filter (bitmap_bit dirty') [0..<chunk_count (unat n)]) parent = img"
  by (rule scan_delta_sound[OF assms])

theorem fp_delta_sound_witness:
  "\<exists>fp' dirty' marked. ss_fp_scan [1, 2] 2 [block_hash [1, 3] 2 0] [0] = Some (fp', dirty', marked) \<and>
     apply_chunks [1, 2] (filter (bitmap_bit dirty') [0..<chunk_count 2]) [1, 3] = [1, 2]"
proof -
  have "block_hash [1, 3] 2 0 \<noteq> block_hash [1, 2] 2 0"
    by (simp add: block_hash_def ss_fp_hash_def bytes_at_def)
  moreover obtain fp' dirty' marked where
    s: "ss_fp_scan [1, 2] 2 [block_hash [1, 3] 2 0] [0] = Some (fp', dirty', marked)"
    using ss_fp_scan_spec(1)[of 2 "[1, 2]" "[block_hash [1, 3] 2 0]" "[0]"]
    by (auto simp: block_count_def chunk_count_def not_None_eq)
  ultimately show ?thesis
    using fp_delta_sound[of 2 "[1, 2]" "[1, 3]" "[block_hash [1, 3] 2 0]" "[0]" fp' dirty' marked]
    by (simp add: block_count_def)
qed

text \<open>
  Looking a card up in the file written for a list of cards gives the first record of
  that card, with its table copied over the front of the caller's; nothing when there is none or the
  caller's table cannot hold it.
\<close>

lemma fp_store_round_trip:
  assumes "\<forall>e \<in> set es. wf_entry e" "length es < 2 ^ 16" "length (encode_store es) < 2 ^ 32"
  shows "ss_fp_store_find (encode_store es) game_id slot fp =
    (case find (\<lambda>(r, vs). f_slot r = slot \<and> f_game_id r = take 6 game_id) es of
       None \<Rightarrow> None
     | Some (r, vs) \<Rightarrow> if length fp < length vs then None else Some (r, vs @ drop (length vs) fp))"
  unfolding ss_fp_store_find_encode[OF assms] store_lookup_def ..

text \<open>
  Whatever the file holds, a record the walk returns lies inside it with its whole table,
  its block count is not zero and agrees with its card size, and the walk moves on by at least
  a record.
\<close>

lemma fp_walk_in_bounds:
  assumes "length store < 2 ^ 32" "ss_fp_store_next store cursor = FP_NEXT r values cursor'"
  shows "cursor + 56 \<le> values \<and> cursor' = values + 4 * unat (f_blocks r) \<and> cursor' \<le> length store \<and>
    f_blocks r \<noteq> 0 \<and> f_blocks r = ss_fp_blocks (f_size r)"
  using store_next_bounds[OF assms(2,1)] by blast

end
