(* ===== verification/SS_Kernel.thy ===== *)
theory SS_Kernel
  imports SS_Push SS_Logic SS_Fingerprint
begin

text \<open>
  \<open>nintendont/kernel/SlotSync.c\<close>: runtime sync inside Nintendont's kernel. The statics of the file are one record; the
  functions take it and return it. What the file calls (the timer, FatFs, GCNCard, the formatter, the socket layer) are the
  operations of a \<open>platform\<close>, over a state \<open>'x\<close> that is everything outside the module; \<open>SS_KernelNet\<close> gives a platform the
  socket layer of \<open>SlotSyncNet.c\<close>.
\<close>

definition SS_TICKS_PER_MS :: u32 where "SS_TICKS_PER_MS = 1899"
definition SS_LOG_MAX :: nat where "SS_LOG_MAX = 8192"
definition SS_FP_SLICE :: nat where "SS_FP_SLICE = 512"
definition SS_CFG_MAX :: nat where "SS_CFG_MAX = 2048"
definition SS_INIT_NET_BUDGET_MS :: int where "SS_INIT_NET_BUDGET_MS = 6000"
definition SS_BITMAP_BYTES :: nat where "SS_BITMAP_BYTES = 2048"
definition SS_FP_ENTRIES :: nat where "SS_FP_ENTRIES = 2048"

definition SS_LOG_PATH :: string where "SS_LOG_PATH = ''/slotsync/runtime.log''"
definition SS_CFG_PATH :: string where "SS_CFG_PATH = ''/slotsync/slotsync.cfg''"
definition SS_STATE_PATH :: string where "SS_STATE_PATH = ''/slotsync/state.txt''"
definition SS_HANDOFF_PATH :: string where "SS_HANDOFF_PATH = ''/slotsync/runtime.txt''"
definition SS_FP_PATH :: string where "SS_FP_PATH = ''/slotsync/fingerprints.bin''"
definition SS_FP_HANDOFF_PATH :: string where "SS_FP_HANDOFF_PATH = ''/slotsync/runtime-fp.bin''"

lemmas kernel_consts =
  SS_TICKS_PER_MS_def SS_LOG_MAX_def SS_FP_SLICE_def SS_CFG_MAX_def SS_INIT_NET_BUDGET_MS_def SS_BITMAP_BYTES_def
  SS_FP_ENTRIES_def

subsection \<open>What the module is given\<close>

text \<open>
  A file opened for reading: its size, and the bytes of it that can be read before an I/O error (all of them on a healthy
  card).
\<close>

record fat_file =
  ff_size :: nat
  ff_bytes :: "byte list"

definition f_read :: "fat_file \<Rightarrow> nat \<Rightarrow> nat \<Rightarrow> byte list option" where
  "f_read f pos n =
     (let want = min n (ff_size f - pos)
      in if pos + want \<le> length (ff_bytes f) then Some (bytes_at (ff_bytes f) pos want) else None)"

datatype log_arg = LStr "byte list" | LNum u32

record 'x platform =
  hw_timer :: "'x \<Rightarrow> u32 \<times> 'x"
  timer_diff_ticks :: "u32 \<Rightarrow> 'x \<Rightarrow> u32 \<times> 'x"
  get_current_time :: "'x \<Rightarrow> u32 \<times> 'x"
  mdelay :: "int \<Rightarrow> 'x \<Rightarrow> 'x"
  vsprintf :: "string \<Rightarrow> log_arg list \<Rightarrow> byte list"
  fat_open :: "string \<Rightarrow> 'x \<Rightarrow> fat_file option"
  fat_create :: "string \<Rightarrow> 'x \<Rightarrow> bool \<times> 'x"
  fat_write :: "string \<Rightarrow> byte list \<Rightarrow> 'x \<Rightarrow> 'x"
  card_enabled :: "nat \<Rightarrow> 'x \<Rightarrow> bool"
  card_base :: "nat \<Rightarrow> 'x \<Rightarrow> byte list option"
  card_size :: "nat \<Rightarrow> 'x \<Rightarrow> u32"
  config_game_id :: "'x \<Rightarrow> u32"
  net_bring_up :: "int \<Rightarrow> 'x \<Rightarrow> bool \<times> 'x"
  net_open :: "u32 \<Rightarrow> u16 \<Rightarrow> 'x \<Rightarrow> bool \<times> 'x"
  net_set_pace :: "u32 \<Rightarrow> u32 \<Rightarrow> 'x \<Rightarrow> 'x"
  net_close :: "'x \<Rightarrow> 'x"
  net_live_ip :: "'x \<Rightarrow> u32 \<times> 'x"
  net_dropped :: "'x \<Rightarrow> u32"
  ssnet_send_op :: "'x \<Rightarrow> byte list \<Rightarrow> bool \<times> 'x"
  ssnet_recv_op :: "'x \<Rightarrow> nat \<Rightarrow> int \<Rightarrow> recv_result \<times> 'x"

subsection \<open>The state\<close>

record ss_slot =
  s_game_id :: "byte list"
  s_parent :: u32
  s_dirty :: bool
  s_dirty_at :: u32
  s_pushed_at :: u32
  s_halted :: bool
  s_pushed_any :: bool
  s_lineage :: bool
  s_parent_sha :: "byte list"
  s_fp_valid :: bool

definition empty_slot :: ss_slot where
  "empty_slot = \<lparr>s_game_id = [], s_parent = 0, s_dirty = False, s_dirty_at = 0, s_pushed_at = 0, s_halted = False,
     s_pushed_any = False, s_lineage = False, s_parent_sha = replicate 32 0, s_fp_valid = False\<rparr>"

text \<open>
  The number of slots, 1 or 2, is a build option: it is the length of \<open>kn_slots\<close>. The log is \<open>logBuf\<close> up to
  \<open>logLen\<close>; \<open>kn_last_flush\<close> is the static of \<open>SlotSync_Poll\<close>.
\<close>

record 'x kernel =
  kn_cfg :: ssl_config
  kn_slots :: "ss_slot list"
  kn_client :: "'x ss_client"
  kn_world :: 'x
  kn_bitmap :: "byte list"
  kn_dirty_map :: "byte list"
  kn_fingerprints :: "u32 list"
  kn_log :: "byte list"
  kn_log_dirty :: bool
  kn_net_connected :: bool
  kn_handoff_pending :: bool
  kn_worker_running :: bool
  kn_worker_stop :: bool
  kn_worker_busy :: bool
  kn_boot_time :: u32
  kn_last_flush :: u32

definition update_slot :: "nat \<Rightarrow> (ss_slot \<Rightarrow> ss_slot) \<Rightarrow> 'x kernel \<Rightarrow> 'x kernel" where
  "update_slot i f k = k\<lparr>kn_slots := (kn_slots k)[i := f (kn_slots k ! i)]\<rparr>"

text \<open>Calls out of the module: on its surroundings, and on the client, whose transport's context they are.\<close>

definition outside :: "('x \<Rightarrow> 'a \<times> 'x) \<Rightarrow> 'x kernel \<Rightarrow> 'a \<times> 'x kernel" where
  "outside f k = (let (r, x) = f (kn_world k) in (r, k\<lparr>kn_world := x\<rparr>))"

definition give_client :: "'x kernel \<Rightarrow> 'x ss_client" where
  "give_client k = (kn_client k)\<lparr>transport := (transport (kn_client k))\<lparr>tp_ctx := kn_world k\<rparr>\<rparr>"

definition take_client :: "'x ss_client \<Rightarrow> 'x kernel \<Rightarrow> 'x kernel" where
  "take_client c k = k\<lparr>kn_client := c, kn_world := tp_ctx (transport c)\<rparr>"

subsection \<open>The log and small files\<close>

definition SlotSync_Log :: "'x platform \<Rightarrow> string \<Rightarrow> log_arg list \<Rightarrow> 'x kernel \<Rightarrow> 'x kernel" where
  "SlotSync_Log P fmt args k =
     (let line = vsprintf P fmt args
      in if line = [] then k
         else if length (kn_log k) + length line < SS_LOG_MAX
         then k\<lparr>kn_log := kn_log k @ line, kn_log_dirty := True\<rparr>
         else k)"

text \<open>The formats all end in CR LF.\<close>

definition sslog :: "'x platform \<Rightarrow> string \<Rightarrow> log_arg list \<Rightarrow> 'x kernel \<Rightarrow> 'x kernel" where
  "sslog P fmt args k = SlotSync_Log P (fmt @ [CHR 0x0D, CHR 0x0A]) args k"

definition ss_log_flush :: "'x platform \<Rightarrow> 'x kernel \<Rightarrow> 'x kernel" where
  "ss_log_flush P k =
     (if \<not> kn_log_dirty k \<or> kn_log k = [] then k
      else let (ok, k) = outside (fat_create P SS_LOG_PATH) (k\<lparr>kn_log_dirty := False\<rparr>)
           in if \<not> ok then k
              else k\<lparr>kn_world := fat_write P SS_LOG_PATH (kn_log k) (kn_world k)\<rparr>)"

text \<open>\<open>fileBuf\<close> up to the NUL put after what was read, or -1.\<close>

definition ss_read_file :: "'x platform \<Rightarrow> string \<Rightarrow> 'x kernel \<Rightarrow> byte list option" where
  "ss_read_file P path k =
     (case fat_open P path (kn_world k) of
        None \<Rightarrow> None
      | Some f \<Rightarrow> f_read f 0 (min (ff_size f) (SS_CFG_MAX - 1)))"

definition ss_load_config :: "'x platform \<Rightarrow> 'x kernel \<Rightarrow> bool \<times> 'x kernel" where
  "ss_load_config P k =
     (case ss_read_file P SS_CFG_PATH k of
        None \<Rightarrow> (False, sslog P ''SlotSync: no %s, runtime sync off'' [LStr (ascii SS_CFG_PATH)]
                   (k\<lparr>kn_cfg := ssl_config_defaults\<rparr>))
      | Some buf \<Rightarrow>
          let (usable, cfg) = ssl_config_parse buf;
              k = k\<lparr>kn_cfg := cfg\<rparr>
          in if usable then (True, k)
             else if c_enabled cfg = 0
             then (False, sslog P ''SlotSync: runtime_sync = 0, staying out of the way'' [] k)
             else (False, sslog P ''SlotSync: config needs a dotted-quad `server` and a `psk`'' [] k))"

definition ss_resolve_game_id :: "'x platform \<Rightarrow> nat \<Rightarrow> 'x kernel \<Rightarrow> bool \<times> byte list" where
  "ss_resolve_game_id P slot k =
     ssl_game_id (card_base P slot (kn_world k)) (card_size P slot (kn_world k)) (config_game_id P (kn_world k))"

definition ss_load_parent :: "'x platform \<Rightarrow> byte list \<Rightarrow> nat \<Rightarrow> 'x kernel \<Rightarrow> (u32 \<times> byte list) option" where
  "ss_load_parent P game_id slot k =
     (case ss_read_file P SS_STATE_PATH k of
        None \<Rightarrow> None
      | Some buf \<Rightarrow> ssl_state_find buf game_id (of_nat slot))"

subsection \<open>The fingerprint store\<close>

definition ss_all_zero :: "byte list \<Rightarrow> bool" where
  "ss_all_zero p \<longleftrightarrow> list_all (\<lambda>b. b = 0) p"

definition ss_fp_share :: "'x kernel \<Rightarrow> nat" where
  "ss_fp_share k = SS_FP_ENTRIES div length (kn_slots k)"

text \<open>The slice of the table a slot has: \<open>ss_fp_table\<close> points at its start.\<close>

definition ss_fp_table :: "nat \<Rightarrow> 'x kernel \<Rightarrow> u32 list" where
  "ss_fp_table slot k = bytes_at (kn_fingerprints k) (slot * ss_fp_share k) (ss_fp_share k)"

definition put_fp_table :: "nat \<Rightarrow> u32 list \<Rightarrow> 'x kernel \<Rightarrow> 'x kernel" where
  "put_fp_table slot table k = k\<lparr>kn_fingerprints := blit (kn_fingerprints k) (slot * ss_fp_share k) table\<rparr>"

definition ss_fp_read :: "fat_file \<Rightarrow> nat \<Rightarrow> nat \<Rightarrow> byte list option" where
  "ss_fp_read f pos want =
     (case f_read f pos want of
        None \<Rightarrow> None
      | Some buf \<Rightarrow> if length buf = want then Some buf else None)"

text \<open>\<open>Some\<close> position after the skip, or -1.\<close>

function ss_fp_skip :: "fat_file \<Rightarrow> nat \<Rightarrow> nat \<Rightarrow> nat option" where
  "ss_fp_skip f pos bytes =
     (if bytes = 0 then Some pos
      else let n = min bytes SS_FP_SLICE
           in case ss_fp_read f pos n of
                None \<Rightarrow> None
              | Some buf \<Rightarrow> ss_fp_skip f (pos + n) (bytes - n))"
  by pat_completeness auto
termination by (relation "measure (\<lambda>(f, pos, bytes). bytes)") (auto simp: SS_FP_SLICE_def)

declare ss_fp_skip.simps [simp del]

text \<open>The loop that reads a record's values; the table afterwards, and whether all of them were read.\<close>

function read_values :: "fat_file \<Rightarrow> nat \<Rightarrow> u32 list \<Rightarrow> nat \<Rightarrow> nat \<Rightarrow> u32 list \<times> bool" where
  "read_values f pos table at left =
     (if left = 0 then (table, True)
      else let n = min left (SS_FP_SLICE div 4)
           in case ss_fp_read f pos (n * 4) of
                None \<Rightarrow> (table, False)
              | Some buf \<Rightarrow>
                  read_values f (pos + n * 4) (take at table @ ss_fp_get_values (drop at table) buf n)
                    (at + n) (left - n))"
  by pat_completeness auto
termination by (relation "measure (\<lambda>(f, pos, table, at, left). left)") (auto simp: SS_FP_SLICE_def)

declare read_values.simps [simp del]

text \<open>The loop over the records, \<open>n\<close> of them left.\<close>

fun load_records ::
    "'x platform \<Rightarrow> fat_file \<Rightarrow> nat \<Rightarrow> nat \<Rightarrow> nat \<Rightarrow> byte list \<Rightarrow> u32 \<Rightarrow> u32 \<Rightarrow> byte list \<Rightarrow> 'x kernel \<Rightarrow> bool \<times> 'x kernel" where
  "load_records P f pos 0 slot game_id parent n parent_sha k = (False, k)"
| "load_records P f pos (Suc records) slot game_id parent n parent_sha k =
     (case ss_fp_read f pos SS_FP_RECORD_SIZE of
        None \<Rightarrow> (False, k)
      | Some buf \<Rightarrow>
          (case ss_fp_get_record buf of
             None \<Rightarrow> (False, k)
           | Some rec \<Rightarrow>
               let pos = pos + SS_FP_RECORD_SIZE
               in if f_slot rec \<noteq> of_nat slot \<or> take SS_GAME_ID_LEN (f_game_id rec) \<noteq> take SS_GAME_ID_LEN game_id
                  then (case ss_fp_skip f pos (unat (f_blocks rec * 4)) of
                          None \<Rightarrow> (False, k)
                        | Some pos \<Rightarrow> load_records P f pos records slot game_id parent n parent_sha k)
                  else if f_version rec \<noteq> parent \<or> f_size rec \<noteq> n \<or> of_nat (ss_fp_share k) < f_blocks rec
                  then (False, k)
                  else if \<not> ss_all_zero parent_sha \<and> f_sha256 rec \<noteq> parent_sha
                  then (False, sslog P ''SlotSync: %s fingerprints are for other bytes at v%u; pushing whole''
                          [LStr game_id, LNum parent] k)
                  else let (table, ok) = read_values f pos (ss_fp_table slot k) 0 (unat (f_blocks rec))
                       in (ok, put_fp_table slot table k)))"

definition ss_load_fingerprints ::
    "'x platform \<Rightarrow> nat \<Rightarrow> byte list \<Rightarrow> u32 \<Rightarrow> u32 \<Rightarrow> byte list \<Rightarrow> 'x kernel \<Rightarrow> bool \<times> 'x kernel" where
  "ss_load_fingerprints P slot game_id parent n parent_sha k =
     (if parent = 0 \<or> n = 0 then (False, k)
      else case fat_open P SS_FP_PATH (kn_world k) of
             None \<Rightarrow> (False, k)
           | Some f \<Rightarrow>
               (case ss_fp_read f 0 SS_FP_HEADER_SIZE of
                  None \<Rightarrow> (False, k)
                | Some buf \<Rightarrow>
                    (case ss_fp_store_count buf of
                       None \<Rightarrow> (False, sslog P ''SlotSync: %s is not a fingerprint store'' [LStr (ascii SS_FP_PATH)] k)
                     | Some records \<Rightarrow>
                         load_records P f SS_FP_HEADER_SIZE records slot game_id parent n parent_sha k)))"

subsection \<open>The handoff to the launcher\<close>

text \<open>The values of a record, a slice at a time.\<close>

function write_values :: "'x platform \<Rightarrow> u32 list \<Rightarrow> nat \<Rightarrow> nat \<Rightarrow> 'x \<Rightarrow> 'x" where
  "write_values P table at left x =
     (if left = 0 then x
      else let n = min left (SS_FP_SLICE div 4)
           in write_values P table (at + n) (left - n)
                (fat_write P SS_FP_HANDOFF_PATH (ss_fp_put_values (drop at table) n) x))"
  by pat_completeness auto
termination by (relation "measure (\<lambda>(P, table, at, left, x). left)") (auto simp: SS_FP_SLICE_def)

declare write_values.simps [simp del]

text \<open>
  One slot of the loop that writes the records. \<open>None\<close>: the values are read past the end of \<open>fingerprints\<close>. (Read past the
  slot's share, they are the next slot's.)
\<close>

definition fp_handoff_slot :: "'x platform \<Rightarrow> nat \<Rightarrow> 'x kernel \<Rightarrow> 'x kernel option" where
  "fp_handoff_slot P i k =
     (let s = kn_slots k ! i;
          n = card_size P i (kn_world k)
      in if \<not> s_pushed_any s \<or> \<not> s_fp_valid s \<or> n = 0 then Some k
         else let rec = \<lparr>f_game_id = s_game_id s, f_slot = of_nat i, f_version = s_parent s, f_size = n,
                         f_blocks = ss_fp_blocks n, f_sha256 = s_parent_sha s\<rparr>;
                  table = drop (i * ss_fp_share k) (kn_fingerprints k);
                  x = fat_write P SS_FP_HANDOFF_PATH (ss_fp_put_record rec) (kn_world k)
              in if length table < unat (f_blocks rec) then None
                 else Some (sslog P ''SlotSync: handed %s v%u's fingerprints to the launcher''
                        [LStr (s_game_id s), LNum (s_parent s)]
                        (k\<lparr>kn_world := write_values P table 0 (unat (f_blocks rec)) x\<rparr>)))"

fun fp_handoff_slots :: "'x platform \<Rightarrow> nat list \<Rightarrow> 'x kernel \<Rightarrow> 'x kernel option" where
  "fp_handoff_slots P [] k = Some k"
| "fp_handoff_slots P (i # is) k =
     (case fp_handoff_slot P i k of None \<Rightarrow> None | Some k \<Rightarrow> fp_handoff_slots P is k)"

definition ss_write_fp_handoff :: "'x platform \<Rightarrow> 'x kernel \<Rightarrow> 'x kernel option" where
  "ss_write_fp_handoff P k =
     (let cards = length (filter (\<lambda>s. s_pushed_any s \<and> s_fp_valid s) (kn_slots k))
      in if cards = 0 then Some k
         else let (ok, k) = outside (fat_create P SS_FP_HANDOFF_PATH) k
              in if \<not> ok then Some (sslog P ''SlotSync: cannot write %s'' [LStr (ascii SS_FP_HANDOFF_PATH)] k)
                 else fp_handoff_slots P [0..<length (kn_slots k)]
                   (k\<lparr>kn_world := fat_write P SS_FP_HANDOFF_PATH (ss_fp_put_header (of_nat cards)) (kn_world k)\<rparr>))"

text \<open>\<open>"%s %u %u\n"\<close>\<close>

definition handoff_line :: "byte list \<Rightarrow> nat \<Rightarrow> u32 \<Rightarrow> byte list" where
  "handoff_line game_id slot version =
     game_id @ [0x20] @ dec slot @ [0x20] @ dec (unat version) @ [0x0A]"

definition ss_write_handoff :: "'x platform \<Rightarrow> 'x kernel \<Rightarrow> 'x kernel" where
  "ss_write_handoff P k =
     (if \<not> list_ex s_pushed_any (kn_slots k) then k
      else let (ok, k) = outside (fat_create P SS_HANDOFF_PATH) k
           in if \<not> ok then sslog P ''SlotSync: cannot write %s'' [LStr (ascii SS_HANDOFF_PATH)] k
              else let k = fold (\<lambda>i k.
                         let s = kn_slots k ! i
                         in if \<not> s_pushed_any s then k
                            else k\<lparr>kn_world := fat_write P SS_HANDOFF_PATH
                                     (handoff_line (s_game_id s) i (s_parent s)) (kn_world k)\<rparr>)
                       [0..<length (kn_slots k)] k
                   in sslog P ''SlotSync: wrote %s'' [LStr (ascii SS_HANDOFF_PATH)] k)"

subsection \<open>The connection\<close>

text \<open>The number \<open>%d\<close> prints for a result.\<close>

fun result_code :: "ss_result \<Rightarrow> int" where
  "result_code SS_OK = 0"
| "result_code SS_ERR_TIMEOUT = -1"
| "result_code SS_ERR_TRANSPORT = -2"
| "result_code SS_ERR_PROTOCOL = -3"
| "result_code SS_ERR_SERVER = -4"
| "result_code SS_ERR_CONFLICT = -5"
| "result_code SS_ERR_TOO_BIG = -6"
| "result_code SS_ERR_GAVE_UP = -7"

definition slot_letter :: "nat \<Rightarrow> log_arg" where
  "slot_letter slot = LNum (of_nat (slot + 65))"

definition ip_args :: "u32 \<Rightarrow> log_arg list" where
  "ip_args a = map (\<lambda>n. LNum (drop_bit n a AND 0xFF)) [24, 16, 8, 0]"

text \<open>Four bytes of the boot time and four of the timer, least significant first.\<close>

definition nonce_seed :: "u32 \<Rightarrow> u32 \<Rightarrow> byte list" where
  "nonce_seed boot now = map (\<lambda>i. ucast (drop_bit (i * 8) boot)) [0..<4] @ map (\<lambda>i. ucast (drop_bit (i * 8) now)) [0..<4]"

definition runtime_device :: "ssl_config \<Rightarrow> u64" where
  "runtime_device cfg = c_device_id cfg XOR 0x8000000000000000"

text \<open>The client \<open>ss_connect\<close> sets up, with the clamped deadlines of the HELLO.\<close>

definition hello_client :: "'x platform \<Rightarrow> u32 \<Rightarrow> 'x kernel \<Rightarrow> 'x ss_client" where
  "hello_client P now k =
     (let cfg = kn_cfg k;
          c = ss_client_init \<lparr>tp_send = ssnet_send_op P, tp_recv = ssnet_recv_op P, tp_ctx = kn_world k\<rparr>
                (take (unat (c_psk_len cfg)) (c_psk cfg)) (runtime_device cfg) (Some (nonce_seed (kn_boot_time k) now))
      in c\<lparr>cl_timeout_ms := min (c_timeout_ms cfg) 1000, cl_max_rounds := min (c_rounds cfg) 4\<rparr>)"

text \<open>\<open>True\<close> is 0.\<close>

definition ss_connect :: "'x platform \<Rightarrow> 'x kernel \<Rightarrow> bool \<times> 'x kernel" where
  "ss_connect P k =
     (let cfg = kn_cfg k;
          (now, k) = outside (hw_timer P) k;
          (up, k) = outside (net_bring_up P (sint (c_net_timeout_ms cfg))) k
      in if \<not> up then (False, sslog P ''SlotSync: network did not come up'' [] k)
         else let (opened, k) = outside (net_open P (c_server cfg) (c_port cfg)) k
              in if \<not> opened then (False, sslog P ''SlotSync: cannot open a socket to the server'' [] k)
                 else let k = k\<lparr>kn_world := net_set_pace P (c_pace_every cfg) (c_pace_us cfg) (kn_world k)\<rparr>;
                          k = k\<lparr>kn_client := hello_client P now k\<rparr>;
                          k = sslog P ''SlotSync: id %08x%08x psk %u bytes, boot %u, tick %08x''
                                [LNum (ucast (drop_bit 32 (runtime_device cfg))), LNum (ucast (runtime_device cfg)),
                                 LNum (c_psk_len cfg), LNum (kn_boot_time k), LNum now] k;
                          k = sslog P ''SlotSync: saying hello to %u.%u.%u.%u:%u''
                                (ip_args (c_server cfg) @ [LNum (ucast (c_port cfg))]) k;
                          (rc, reply, c) = ss_hello (give_client k);
                          k = take_client c k
                      in if rc \<noteq> SS_OK
                         then let k = sslog P ''SlotSync: no HELLO answer: rc %d, nack 0x%02x''
                                    [LNum (of_int (result_code rc)), LNum (ucast (cl_last_error_code c))] k
                              in (False, k\<lparr>kn_world := net_close P (kn_world k)\<rparr>)
                         else let c = c\<lparr>cl_timeout_ms := c_timeout_ms cfg, cl_max_rounds := c_rounds cfg\<rparr>
                              in (True, sslog P ''SlotSync: server reachable, runtime sync armed (%d ms x %d)''
                                    [LNum (of_int (cl_timeout_ms c)), LNum (of_int (cl_max_rounds c))] (k\<lparr>kn_client := c\<rparr>)))"

subsection \<open>The push\<close>

definition ss_should_push :: "'x platform \<Rightarrow> nat \<Rightarrow> 'x kernel \<Rightarrow> bool \<times> 'x kernel" where
  "ss_should_push P slot k =
     (let s = kn_slots k ! slot
      in if \<not> card_enabled P slot (kn_world k) then (False, k)
         else let (since_dirty, k) = outside (timer_diff_ticks P (s_dirty_at s)) k;
                  (since_push, k) = (if s_pushed_at s \<noteq> 0 then outside (timer_diff_ticks P (s_pushed_at s)) k else (0, k))
              in (ssl_should_push (s_dirty s) (s_halted s) since_dirty since_push (s_pushed_at s \<noteq> 0)
                    (c_quiet_ms (kn_cfg k) * SS_TICKS_PER_MS) (c_cooldown_ms (kn_cfg k) * SS_TICKS_PER_MS), k))"

text \<open>
  \<open>ss_push_slot\<close> up to the transfer: nothing to push, or the size and whether the push is a delta. The image is read from
  the card's memory here and again by the transfer.
\<close>

definition push_prepare :: "'x platform \<Rightarrow> nat \<Rightarrow> 'x kernel \<Rightarrow> (u32 \<times> bool) option \<times> 'x kernel" where
  "push_prepare P slot k =
     (let n = card_size P slot (kn_world k)
      in case card_base P slot (kn_world k) of
           None \<Rightarrow> (None, k)
         | Some img \<Rightarrow>
             if n = 0 then (None, k)
             else if of_nat (SS_BITMAP_BYTES * 8) < ss_chunk_count n
             then (None, update_slot slot (\<lambda>s. s\<lparr>s_halted := True\<rparr>)
                     (sslog P ''SlotSync: slot %c card too large to track'' [slot_letter slot] k))
             else let k = update_slot slot (\<lambda>s. s\<lparr>s_dirty := False\<rparr>) k;
                      (marked, k) = (case ss_fp_scan img n (ss_fp_table slot k) (kn_dirty_map k) of
                          None \<Rightarrow> (None, k)
                        | Some (table, dirty, m) \<Rightarrow> (Some m, put_fp_table slot table (k\<lparr>kn_dirty_map := dirty\<rparr>)));
                      s = kn_slots k ! slot;
                      delta = (s_fp_valid s \<and> (case marked of None \<Rightarrow> False | Some m \<Rightarrow> ss_fp_worthwhile m (ss_chunk_count n)));
                      k = update_slot slot (\<lambda>s. s\<lparr>s_fp_valid := False\<rparr>) k;
                      k = (if delta
                           then sslog P ''SlotSync: pushing %s slot %c, %u of %u chunks changed, parent v%u''
                                  [LStr (s_game_id s), slot_letter slot, LNum (the marked), LNum (ss_chunk_count n), LNum (s_parent s)] k
                           else sslog P ''SlotSync: pushing %s slot %c, %u KiB whole, parent v%u''
                                  [LStr (s_game_id s), slot_letter slot, LNum (n div 1024), LNum (s_parent s)] k)
                  in (Some (n, delta), k))"

text \<open>A fresh socket and HELLO; \<open>False\<close> when the push is given up for now.\<close>

definition push_reconnect :: "'x platform \<Rightarrow> nat \<Rightarrow> 'x kernel \<Rightarrow> bool \<times> 'x kernel" where
  "push_reconnect P slot k =
     (let (live, k) = outside (net_live_ip P) k;
          k = sslog P ''SlotSync: interface now %u.%u.%u.%u%s''
                (ip_args live @ [LStr (if live = 0 then ascii '' -- GONE'' else [])]) k;
          k = k\<lparr>kn_world := net_close P (kn_world k), kn_net_connected := False\<rparr>;
          (ok, k) = ss_connect P k
      in if \<not> ok
         then let k = update_slot slot (\<lambda>s. s\<lparr>s_dirty := True\<rparr>)
                    (sslog P ''SlotSync: could not reconnect for the push'' [] k);
                  (now, k) = outside (hw_timer P) k
              in (False, update_slot slot (\<lambda>s. s\<lparr>s_pushed_at := now\<rparr>) k)
         else (True, k\<lparr>kn_net_connected := True, kn_worker_busy := True\<rparr>))"

text \<open>The bytes at \<open>image\<close> when the transfer reads them.\<close>

definition card_image :: "'x platform \<Rightarrow> nat \<Rightarrow> 'x kernel \<Rightarrow> byte list" where
  "card_image P slot k = (case card_base P slot (kn_world k) of None \<Rightarrow> [] | Some img \<Rightarrow> img)"

text \<open>
  \<open>ss_push_delta\<close>, and the question where the head is when the commit's acknowledgement may have been lost: the result, the
  version assigned, and the module's state. \<open>None\<close> is a push that never returns.
\<close>

definition push_transfer ::
    "'x platform \<Rightarrow> nat \<Rightarrow> u32 \<Rightarrow> bool \<Rightarrow> 'x kernel \<Rightarrow> (ss_result \<times> u32 \<times> 'x kernel) option" where
  "push_transfer P slot n delta k =
     (let s = kn_slots k ! slot
      in case ss_push_delta (give_client k) (s_game_id s) (of_nat slot) (card_image P slot k) n (s_parent s) (s_parent s + 1)
                (if delta then Some (kn_dirty_map k) else None) (kn_bitmap k) of
           None \<Rightarrow> None
         | Some (rc, assigned, bitmap, c) \<Rightarrow>
             let assigned = (case assigned of None \<Rightarrow> 0 | Some v \<Rightarrow> v);
                 k = (take_client c k)\<lparr>kn_bitmap := bitmap, kn_worker_busy := False\<rparr>
             in if rc \<noteq> SS_OK \<and> cl_last_error_code c = SS_NACK_STAGING_EXPIRED
                then let (hrc, head, c) = ss_head c (s_game_id s) (of_nat slot);
                         k = take_client c k
                     in if hrc = SS_OK \<and> head = Some (s_parent s + 1, n)
                        then Some (SS_OK, s_parent s + 1,
                               sslog P ''SlotSync: %s: commit ACK lost, but the server is on v%u -- our push landed''
                                 [LStr (s_game_id s), LNum (s_parent s + 1)] k)
                        else Some (rc, assigned, k)
                else Some (rc, assigned, k))"

text \<open>What the outcome does to the slot.\<close>

definition push_settle :: "'x platform \<Rightarrow> nat \<Rightarrow> ss_result \<Rightarrow> u32 \<Rightarrow> 'x kernel \<Rightarrow> 'x kernel" where
  "push_settle P slot rc assigned k =
     (if rc = SS_OK
      then let k = update_slot slot (\<lambda>s. s\<lparr>s_parent := assigned, s_pushed_any := True\<rparr>) k;
               (now, k) = outside (hw_timer P) k;
               k = update_slot slot (\<lambda>s. s\<lparr>s_pushed_at := now, s_fp_valid := True, s_parent_sha := cl_last_digest (kn_client k)\<rparr>) k;
               k = sslog P ''SlotSync: %s is now v%u (%u sends refused)''
                     [LStr (s_game_id (kn_slots k ! slot)), LNum assigned, LNum (net_dropped P (kn_world k))] k
           in k\<lparr>kn_handoff_pending := True\<rparr>
      else if rc = SS_ERR_CONFLICT
      then update_slot slot (\<lambda>s. s\<lparr>s_halted := True\<rparr>)
             (sslog P ''SlotSync: CONFLICT on %s -- server is on v%u, ours descends from v%u. Runtime sync off for this card; choose in the web UI.''
                [LStr (s_game_id (kn_slots k ! slot)), LNum (cl_last_head (kn_client k)), LNum (s_parent (kn_slots k ! slot))] k)
      else let k = update_slot slot (\<lambda>s. s\<lparr>s_dirty := True\<rparr>) k;
               (now, k) = outside (hw_timer P) k;
               k = update_slot slot (\<lambda>s. s\<lparr>s_pushed_at := now\<rparr>) k
           in sslog P ''SlotSync: push of %s failed: %s (nack 0x%02x)''
                [LStr (s_game_id (kn_slots k ! slot)), LStr (ascii (ss_strerror rc)), LNum (ucast (cl_last_error_code (kn_client k)))] k)"

definition ss_push_slot :: "'x platform \<Rightarrow> nat \<Rightarrow> 'x kernel \<Rightarrow> 'x kernel option" where
  "ss_push_slot P slot k =
     (let (plan, k) = push_prepare P slot k
      in case plan of
           None \<Rightarrow> Some k
         | Some (n, delta) \<Rightarrow>
             let (ok, k) = push_reconnect P slot k
             in if \<not> ok then Some k
                else (case push_transfer P slot n delta k of
                        None \<Rightarrow> None
                      | Some (rc, assigned, k) \<Rightarrow> Some (push_settle P slot rc assigned k)))"

subsection \<open>The worker\<close>

datatype lineage_answer = Settled | NotYet | Never

definition ss_establish_lineage :: "'x platform \<Rightarrow> nat \<Rightarrow> 'x kernel \<Rightarrow> lineage_answer \<times> 'x kernel" where
  "ss_establish_lineage P slot k =
     (let s = kn_slots k ! slot;
          (rc, head, c) = ss_head (give_client k) (s_game_id s) (of_nat slot);
          k = take_client c k
      in if rc = SS_OK
         then (Never, sslog P ''SlotSync: %s is already at v%u on the server and this console has no record of it. Runtime sync off for this card -- run the launcher once so it can agree a version with the server.''
                 [LStr (s_game_id s), LNum (case head of None \<Rightarrow> 0 | Some (v, n) \<Rightarrow> v)] k)
         else if cl_last_error_code c = SS_NACK_UNKNOWN_CARD
         then (Settled, sslog P ''SlotSync: the server has not seen %s; starting at v0'' [LStr (s_game_id s)]
                 (update_slot slot (\<lambda>s. s\<lparr>s_parent := 0, s_lineage := True\<rparr>) k))
         else (NotYet, k))"

text \<open>One slot of the worker's \<open>for\<close> loop.\<close>

definition worker_slot :: "'x platform \<Rightarrow> nat \<Rightarrow> 'x kernel \<Rightarrow> 'x kernel option" where
  "worker_slot P slot k =
     (let (wanted, k) = ss_should_push P slot k
      in if \<not> wanted then Some k
         else if s_lineage (kn_slots k ! slot) then ss_push_slot P slot k
         else let (settled, k) = ss_establish_lineage P slot k
              in case settled of
                   Never \<Rightarrow> Some (update_slot slot (\<lambda>s. s\<lparr>s_halted := True\<rparr>) k)
                 | NotYet \<Rightarrow> Some k
                 | Settled \<Rightarrow> ss_push_slot P slot k)"

fun worker_slots :: "'x platform \<Rightarrow> nat list \<Rightarrow> 'x kernel \<Rightarrow> 'x kernel option" where
  "worker_slots P [] k = Some k"
| "worker_slots P (slot # slots) k =
     (if kn_worker_stop k then Some k
      else case worker_slot P slot k of None \<Rightarrow> None | Some k \<Rightarrow> worker_slots P slots k)"

text \<open>One iteration of the worker's \<open>while\<close> loop, with its local \<open>backoff_ms\<close>.\<close>

definition worker_pass :: "'x platform \<Rightarrow> int \<Rightarrow> 'x kernel \<Rightarrow> (int \<times> 'x kernel) option" where
  "worker_pass P backoff k =
     (let (connected, k) = (if kn_net_connected k then (True, k) else ss_connect P k);
          fresh = connected \<and> \<not> kn_net_connected k
      in if \<not> connected
         then Some (if backoff < 60000 then backoff * 2 else backoff, k\<lparr>kn_world := mdelay P backoff (kn_world k)\<rparr>)
         else case worker_slots P [0..<length (kn_slots k)] (k\<lparr>kn_net_connected := True\<rparr>) of
                None \<Rightarrow> None
              | Some k \<Rightarrow> Some (if fresh then 2000 else backoff, k\<lparr>kn_world := mdelay P 250 (kn_world k)\<rparr>))"

text \<open>Before and after the loop.\<close>

definition worker_enter :: "'x kernel \<Rightarrow> 'x kernel" where
  "worker_enter k = k\<lparr>kn_worker_running := True\<rparr>"

definition worker_leave :: "'x platform \<Rightarrow> 'x kernel \<Rightarrow> 'x kernel" where
  "worker_leave P k =
     (let k = (if kn_net_connected k
               then k\<lparr>kn_world := net_close P (kn_world k), kn_net_connected := False\<rparr> else k)
      in k\<lparr>kn_worker_running := False\<rparr>)"

subsection \<open>The entry points\<close>

text \<open>One slot of \<open>SlotSync_Init\<close>'s loop; whether it is usable.\<close>

definition init_slot :: "'x platform \<Rightarrow> nat \<Rightarrow> 'x kernel \<Rightarrow> bool \<times> 'x kernel" where
  "init_slot P slot k =
     (if \<not> card_enabled P slot (kn_world k) then (False, update_slot slot (\<lambda>s. s\<lparr>s_halted := True\<rparr>) k)
      else let (found, game_id) = ss_resolve_game_id P slot k
           in if \<not> found
              then (False, update_slot slot (\<lambda>s. s\<lparr>s_halted := True\<rparr>)
                      (sslog P ''SlotSync: slot %c has no saves yet -- nothing to identify it by, so nothing to sync''
                         [slot_letter slot] (update_slot slot (\<lambda>s. s\<lparr>s_game_id := game_id\<rparr>) k)))
              else let k = update_slot slot (\<lambda>s. s\<lparr>s_game_id := game_id\<rparr>) k
                   in case ss_load_parent P game_id slot k of
                        None \<Rightarrow> (True, sslog P ''SlotSync: slot %c is %s, lineage unknown''
                                   [slot_letter slot, LStr game_id] k)
                      | Some (version, sha) \<Rightarrow>
                          let k = update_slot slot (\<lambda>s. s\<lparr>s_parent := version, s_parent_sha := sha, s_lineage := True\<rparr>) k;
                              k = sslog P ''SlotSync: slot %c is %s at v%u'' [slot_letter slot, LStr game_id, LNum version] k;
                              (loaded, k) = ss_load_fingerprints P slot game_id version (card_size P slot (kn_world k)) sha k
                          in if loaded
                             then (True, sslog P ''SlotSync: slot %c can delta from v%u straight away''
                                     [slot_letter slot, LNum version] (update_slot slot (\<lambda>s. s\<lparr>s_fp_valid := True\<rparr>) k))
                             else (True, k))"

fun init_slots :: "'x platform \<Rightarrow> nat list \<Rightarrow> nat \<Rightarrow> 'x kernel \<Rightarrow> nat \<times> 'x kernel" where
  "init_slots P [] usable k = (usable, k)"
| "init_slots P (slot # slots) usable k =
     (let (ok, k) = init_slot P slot k in init_slots P slots (if ok then usable + 1 else usable) k)"

text \<open>\<open>True\<close>: the worker thread is started.\<close>

definition SlotSync_Init :: "'x platform \<Rightarrow> 'x kernel \<Rightarrow> bool \<times> 'x kernel" where
  "SlotSync_Init P k =
     (let k = k\<lparr>kn_slots := map (\<lambda>_. empty_slot) (kn_slots k)\<rparr>;
          (now, k) = outside (get_current_time P) k;
          k = k\<lparr>kn_boot_time := now, kn_worker_stop := False, kn_worker_running := False, kn_worker_busy := False\<rparr>;
          (ok, k) = ss_load_config P k
      in if \<not> ok then (False, k)
         else let (usable, k) = init_slots P [0..<length (kn_slots k)] 0 k
              in if usable = 0 then (False, sslog P ''SlotSync: nothing to sync'' [] k)
                 else let (up, k) = outside (net_bring_up P SS_INIT_NET_BUDGET_MS) k;
                          k = sslog P ''SlotSync: network %s at init''
                                [LStr (ascii (if up then ''up'' else ''down, worker will retry''))] k
                      in (True, ss_log_flush P k))"

text \<open>
  The handoff the main thread owes, and the log: the end of all three entry points below. \<open>None\<close> as in
  \<open>ss_write_fp_handoff\<close>.
\<close>

definition flush_handoff :: "'x platform \<Rightarrow> 'x kernel \<Rightarrow> 'x kernel option" where
  "flush_handoff P k =
     map_option (ss_log_flush P)
       (if kn_handoff_pending k
        then ss_write_fp_handoff P (ss_write_handoff P (k\<lparr>kn_handoff_pending := False\<rparr>))
        else Some k)"

definition SlotSync_Poll :: "'x platform \<Rightarrow> 'x kernel \<Rightarrow> 'x kernel option" where
  "SlotSync_Poll P k =
     (if \<not> kn_worker_running k \<or> kn_worker_busy k \<or> \<not> kn_log_dirty k \<and> \<not> kn_handoff_pending k then Some k
      else let (since, k) = (if kn_last_flush k \<noteq> 0 then outside (timer_diff_ticks P (kn_last_flush k)) k else (0, k))
           in if kn_last_flush k \<noteq> 0 \<and> since < 3000 * SS_TICKS_PER_MS then Some k
              else let (now, k) = outside (hw_timer P) k
                   in flush_handoff P (k\<lparr>kn_last_flush := now\<rparr>))"

definition SlotSync_NotifyCardSaved :: "'x platform \<Rightarrow> int \<Rightarrow> 'x kernel \<Rightarrow> 'x kernel option" where
  "SlotSync_NotifyCardSaved P slot k =
     (if slot < 0 \<or> int (length (kn_slots k)) \<le> slot \<or> \<not> kn_worker_running k then Some k
      else let k = update_slot (nat slot) (\<lambda>s. s\<lparr>s_dirty := True\<rparr>) k;
               (now, k) = outside (hw_timer P) k
           in flush_handoff P (update_slot (nat slot) (\<lambda>s. s\<lparr>s_dirty_at := now\<rparr>) k))"

definition SlotSync_Busy :: "'x kernel \<Rightarrow> bool" where
  "SlotSync_Busy k = kn_worker_busy k"

text \<open>
  \<open>SlotSync_Shutdown\<close>: the request to stop; the wait, at most \<open>n\<close> more sleeps of 50 ms, in each of which the worker does
  what \<open>others\<close> says; the end.
\<close>

definition shutdown_request :: "'x kernel \<Rightarrow> 'x kernel" where
  "shutdown_request k = k\<lparr>kn_worker_stop := True\<rparr>"

fun shutdown_wait :: "'x platform \<Rightarrow> ('x kernel \<Rightarrow> 'x kernel) \<Rightarrow> nat \<Rightarrow> 'x kernel \<Rightarrow> 'x kernel" where
  "shutdown_wait P others 0 k = k"
| "shutdown_wait P others (Suc n) k =
     (if \<not> kn_worker_running k then k
      else shutdown_wait P others n (others (k\<lparr>kn_world := mdelay P 50 (kn_world k)\<rparr>)))"

definition shutdown_finish :: "'x platform \<Rightarrow> 'x kernel \<Rightarrow> 'x kernel option" where
  "shutdown_finish P k =
     flush_handoff P (if kn_worker_running k
       then sslog P ''SlotSync: worker still busy at exit, abandoning transfer'' [] k else k)"

definition SlotSync_Shutdown :: "'x platform \<Rightarrow> ('x kernel \<Rightarrow> 'x kernel) \<Rightarrow> 'x kernel \<Rightarrow> 'x kernel option" where
  "SlotSync_Shutdown P others k =
     (if \<not> kn_worker_running k then Some k
      else shutdown_finish P (shutdown_wait P others 60 (shutdown_request k)))"

end
