(* ===== verification/SS_KernelNet.thy ===== *)
theory SS_KernelNet
  imports SS_Kernel "HOL-Library.While_Combinator"
begin

text \<open>
  \<open>nintendont/kernel/SlotSyncNet.c\<close>: the kernel module's UDP socket, straight on IOS. The statics of the file are one record; an
  ioctl is a call on \<open>ios\<close> with the bytes of its buffers. The per-datagram trace is compiled out, and cache maintenance leaves
  no state.
\<close>

definition SO_BIND :: byte where "SO_BIND = 0x02"
definition SO_CLOSE :: byte where "SO_CLOSE = 0x03"
definition SO_FCNTL :: byte where "SO_FCNTL = 0x05"
definition SO_POLL :: byte where "SO_POLL = 0x0B"
definition SO_RECVFROM :: byte where "SO_RECVFROM = 0x0C"
definition SO_SENDTO :: byte where "SO_SENDTO = 0x0D"
definition SO_SOCKET :: byte where "SO_SOCKET = 0x0F"
definition SO_GETHOSTID :: byte where "SO_GETHOSTID = 0x10"
definition SO_STARTUP :: byte where "SO_STARTUP = 0x1F"
definition NCD_GETLINKSTATUS :: byte where "NCD_GETLINKSTATUS = 0x07"
definition NWC_STARTUP :: byte where "NWC_STARTUP = 0x06"
definition SO_F_GETFL :: u32 where "SO_F_GETFL = 3"
definition SO_F_SETFL :: u32 where "SO_F_SETFL = 4"
definition SO_O_NONBLOCK :: u32 where "SO_O_NONBLOCK = 0x800"
definition SO_POLLIN :: u32 where "SO_POLLIN = 0x0003"
definition SSNET_BOUNCE_SIZE :: nat where "SSNET_BOUNCE_SIZE = 1152"
definition SSNET_AF_INET :: byte where "SSNET_AF_INET = 2"
definition SSNET_SOCK_DGRAM :: u32 where "SSNET_SOCK_DGRAM = 2"
definition SSNET_IPPROTO_IP :: u32 where "SSNET_IPPROTO_IP = 0"

text \<open>
  IOS and what else the file calls. An ioctl or ioctlv takes the input buffers and the contents of the output buffers, and
  gives its result with the output buffers' new contents. \<open>sock_fd\<close> and \<open>nwc_fd\<close> are the descriptors \<open>SOCKInit\<close> opened.
\<close>

record 'x ios =
  ios_open :: "string \<Rightarrow> 'x \<Rightarrow> int \<times> 'x"
  ios_ioctl :: "int \<Rightarrow> byte \<Rightarrow> byte list list \<Rightarrow> byte list list \<Rightarrow> 'x \<Rightarrow> int \<times> byte list list \<times> 'x"
  ios_udelay :: "u32 \<Rightarrow> 'x \<Rightarrow> 'x"
  ios_mdelay :: "int \<Rightarrow> 'x \<Rightarrow> 'x"
  ios_log :: "string \<Rightarrow> log_arg list \<Rightarrow> 'x \<Rightarrow> 'x"
  sock_fd :: "'x \<Rightarrow> int"
  nwc_fd :: "'x \<Rightarrow> int"

record ssnet =
  n_sock :: int
  n_peer_addr :: u32
  n_peer_port :: u16
  n_dropped :: u32
  n_sent_since_pause :: u32
  n_pace_every :: u32
  n_pace_us :: u32

text \<open>The statics, the socket \<open>SlotSync.c\<close> has, and what is outside.\<close>

record 'x knet =
  kt_ip_top_fd :: int
  kt_data_fd :: int
  kt_ncd_fd :: int
  kt_current_ip :: u32
  kt_net :: ssnet
  kt_world :: 'x

definition call_ioctl :: "'x ios \<Rightarrow> int \<Rightarrow> byte \<Rightarrow> byte list list \<Rightarrow> byte list list \<Rightarrow> 'x knet \<Rightarrow> int \<times> byte list list \<times> 'x knet" where
  "call_ioctl I fd cmd ins outs t =
     (let (ret, outs, x) = ios_ioctl I fd cmd ins outs (kt_world t) in (ret, outs, t\<lparr>kt_world := x\<rparr>))"

definition netdbg :: "'x ios \<Rightarrow> string \<Rightarrow> log_arg list \<Rightarrow> 'x knet \<Rightarrow> 'x knet" where
  "netdbg I fmt args t = t\<lparr>kt_world := ios_log I (fmt @ [CHR 0x0D, CHR 0x0A]) args (kt_world t)\<rparr>"

definition ssnet_ip_plausible :: "u32 \<Rightarrow> bool" where
  "ssnet_ip_plausible ip =
     (let first = drop_bit 24 ip in ip \<noteq> 0 \<and> first \<noteq> 0 \<and> first \<noteq> 127 \<and> first \<noteq> 255)"

definition ssnet_open_dev :: "'x ios \<Rightarrow> string \<Rightarrow> 'x knet \<Rightarrow> int \<times> 'x knet" where
  "ssnet_open_dev I path t = (let (fd, x) = ios_open I (take 31 path) (kt_world t) in (fd, t\<lparr>kt_world := x\<rparr>))"

definition ssnet_local_ip :: "'x knet \<Rightarrow> u32" where "ssnet_local_ip t = kt_current_ip t"

definition ssnet_live_ip :: "'x ios \<Rightarrow> 'x knet \<Rightarrow> u32 \<times> 'x knet" where
  "ssnet_live_ip I t =
     (if kt_ip_top_fd t < 0 then (0, t)
      else let (ret, _, t) = call_ioctl I (kt_ip_top_fd t) SO_GETHOSTID [] [] t
           in (if ssnet_ip_plausible (of_int ret) then of_int ret else 0, t))"

subsection \<open>Bringing the interface up\<close>

text \<open>The descriptors, once; whether there are any.\<close>

definition bring_up_devices :: "'x ios \<Rightarrow> 'x knet \<Rightarrow> bool \<times> 'x knet" where
  "bring_up_devices I t =
     (if \<not> kt_ip_top_fd t < 0 then (True, t)
      else let t = t\<lparr>kt_ip_top_fd := sock_fd I (kt_world t)\<rparr>
           in if kt_ip_top_fd t < 0 then (False, netdbg I ''SlotSync: SOCKInit has no ip/top handle'' [] t)
              else let t = netdbg I ''SlotSync: using SOCKInit fds: ip/top %d, kd %d''
                             [LNum (of_int (kt_ip_top_fd t)), LNum (of_int (nwc_fd I (kt_world t)))] t;
                       (fd, t) = ssnet_open_dev I ''/dev/net/ncd/manage'' t;
                       t = netdbg I ''SlotSync: ncd/manage: %d'' [LNum (of_int fd)] (t\<lparr>kt_ncd_fd := fd\<rparr>);
                       (fd, t) = ssnet_open_dev I ''/dev/net/ip/top'' t
                   in (True, netdbg I ''SlotSync: our own ip/top: %d'' [LNum (of_int fd)] (t\<lparr>kt_data_fd := fd\<rparr>)))"

text \<open>NWC24's startup, tried up to 32 times: its last result and the tries.\<close>

fun nwc_startup :: "'x ios \<Rightarrow> nat \<Rightarrow> nat \<Rightarrow> int \<Rightarrow> 'x knet \<Rightarrow> int \<times> nat \<times> 'x knet" where
  "nwc_startup I 0 tries ret t = (ret, tries, t)"
| "nwc_startup I (Suc left) tries ret t =
     (let (ret, _, t) = call_ioctl I (nwc_fd I (kt_world t)) NWC_STARTUP [] [replicate 32 0] t
      in if ret \<noteq> - 29 then (ret, tries, t)
         else nwc_startup I left (tries + 1) ret (t\<lparr>kt_world := ios_mdelay I 100 (kt_world t)\<rparr>))"

text \<open>The loop that waits for the address, \<open>ret\<close> being the last result.\<close>

function poll_address :: "'x ios \<Rightarrow> int \<Rightarrow> int \<Rightarrow> int \<Rightarrow> 'x knet \<Rightarrow> bool \<times> int \<times> 'x knet" where
  "poll_address I timeout_ms waited ret t =
     (if \<not> waited < timeout_ms then (False, ret, t)
      else let (ret, _, t) = call_ioctl I (kt_ip_top_fd t) SO_GETHOSTID [] [] t
           in if ssnet_ip_plausible (of_int ret)
              then (True, ret, netdbg I ''SlotSync: interface up after %d ms, IP %08x'' [LNum (of_int waited), LNum (of_int ret)]
                                 (t\<lparr>kt_current_ip := of_int ret\<rparr>))
              else let t = (if waited mod 2000 = 0
                            then netdbg I ''SlotSync: waiting at %d ms: gethostid %08x'' [LNum (of_int waited), LNum (of_int ret)] t
                            else t)
                   in poll_address I timeout_ms (waited + 100) ret (t\<lparr>kt_world := ios_mdelay I 100 (kt_world t)\<rparr>))"
  by pat_completeness auto
termination by (relation "measure (\<lambda>(I, timeout_ms, waited, ret, t). nat (timeout_ms - waited))") auto

declare poll_address.simps [simp del]

definition ssnet_bring_up :: "'x ios \<Rightarrow> int \<Rightarrow> 'x knet \<Rightarrow> bool \<times> 'x knet" where
  "ssnet_bring_up I timeout_ms t =
     (let (ok, t) = bring_up_devices I t
      in if \<not> ok then (False, t)
         else let (ret, _, t) = call_ioctl I (kt_ip_top_fd t) SO_GETHOSTID [] [] t
              in if ssnet_ip_plausible (of_int ret)
                 then (True, netdbg I ''SlotSync: interface was already up, IP %08x'' [LNum (of_int ret)]
                               (t\<lparr>kt_current_ip := of_int ret\<rparr>))
                 else let t = (if \<not> 0 \<le> kt_ncd_fd t then t
                               else let (ret, _, t) = call_ioctl I (kt_ncd_fd t) NCD_GETLINKSTATUS [] [replicate 32 0] t
                                    in netdbg I ''SlotSync: ncd linkstatus: %d'' [LNum (of_int ret)] t);
                          (ret, tries, t) = nwc_startup I 32 0 0 t;
                          t = netdbg I ''SlotSync: nwc24 startup: %d after %d tries'' [LNum (of_int ret), LNum (of_nat tries)] t;
                          (ret, _, t) = call_ioctl I (kt_ip_top_fd t) SO_STARTUP [] [] t;
                          t = netdbg I ''SlotSync: so_startup: %d'' [LNum (of_int ret)] t;
                          (up, ret, t) = poll_address I timeout_ms 0 ret t
                      in if up then (True, t)
                         else (False, netdbg I ''SlotSync: interface did not come up within %d ms (gethostid %08x)''
                                        [LNum (of_int timeout_ms), LNum (of_int ret)] t))"

subsection \<open>The socket\<close>

text \<open>The three-word and one-word parameter blocks, and a socket address in a 28-byte field.\<close>

definition words :: "u32 list \<Rightarrow> byte list" where
  "words ws = concat (map ss_put_u32 ws)"

definition address_field :: "u16 \<Rightarrow> u32 \<Rightarrow> byte list" where
  "address_field port addr = [8, SSNET_AF_INET] @ ss_put_u16 port @ ss_put_u32 addr @ replicate 20 0"

text \<open>The ports are tried until one is bound.\<close>

fun try_bind :: "'x ios \<Rightarrow> u16 list \<Rightarrow> 'x knet \<Rightarrow> bool \<times> 'x knet" where
  "try_bind I [] t = (False, t)"
| "try_bind I (p # ps) t =
     (let (ret, _, t) = call_ioctl I (kt_data_fd t) SO_BIND
                          [words [of_int (n_sock (kt_net t)), 1] @ address_field p 0] [] t
      in if 0 \<le> ret then (True, netdbg I ''SlotSync: bound to port %u'' [LNum (ucast p)] t)
         else try_bind I ps (netdbg I ''SlotSync: bind port %u: %d'' [LNum (ucast p), LNum (of_int ret)] t))"

definition ssnet_open :: "'x ios \<Rightarrow> u32 \<Rightarrow> u16 \<Rightarrow> 'x knet \<Rightarrow> bool \<times> 'x knet" where
  "ssnet_open I addr port t =
     (let n = \<lparr>n_sock = - 1, n_peer_addr = addr, n_peer_port = port, n_dropped = 0, n_sent_since_pause = 0,
               n_pace_every = 8, n_pace_us = 5000\<rparr>;
          t = t\<lparr>kt_net := n\<rparr>
      in if kt_data_fd t < 0 then (False, t)
         else let (ret, _, t) = call_ioctl I (kt_data_fd t) SO_SOCKET
                                  [words [ucast SSNET_AF_INET, SSNET_SOCK_DGRAM, SSNET_IPPROTO_IP]] [] t
              in if ret < 0 then (False, netdbg I ''SlotSync: socket failed: %d'' [LNum (of_int ret)] t)
                 else let t = t\<lparr>kt_net := n\<lparr>n_sock := ret\<rparr>\<rparr>;
                          sock = of_int ret;
                          (bound, t) = try_bind I [49152, 49153, 49154] t;
                          t = (if bound then t else netdbg I ''SlotSync: no bind, letting sendto assign one'' [] t);
                          (ret, _, t) = call_ioctl I (kt_data_fd t) SO_FCNTL [words [sock, SO_F_SETFL, SO_O_NONBLOCK]] [] t;
                          t = netdbg I ''SlotSync: fcntl set %04x: %d'' [LNum SO_O_NONBLOCK, LNum (of_int ret)] t;
                          (ret, _, t) = call_ioctl I (kt_data_fd t) SO_FCNTL [words [sock, SO_F_GETFL, 0]] [] t;
                          t = netdbg I ''SlotSync: fcntl getfl: %08x %s'' [LNum (of_int ret),
                                LStr (ascii (if 0 \<le> ret \<and> of_int ret AND SO_O_NONBLOCK \<noteq> 0 then ''NONBLOCK set'' else ''still blocking''))] t;
                          t = (if ret < 0 then netdbg I ''SlotSync: fcntl O_NONBLOCK failed: %d'' [LNum (of_int ret)] t else t)
                      in (True, t))"

definition ssnet_close :: "'x ios \<Rightarrow> 'x knet \<Rightarrow> 'x knet" where
  "ssnet_close I t =
     (if n_sock (kt_net t) < 0 \<or> kt_ip_top_fd t < 0 then t\<lparr>kt_net := (kt_net t)\<lparr>n_sock := - 1\<rparr>\<rparr>
      else let (_, _, t) = call_ioctl I (kt_data_fd t) SO_CLOSE [words [of_int (n_sock (kt_net t))]] [] t
           in t\<lparr>kt_net := (kt_net t)\<lparr>n_sock := - 1\<rparr>\<rparr>)"

definition ssnet_send :: "'x ios \<Rightarrow> byte list \<Rightarrow> 'x knet \<Rightarrow> int \<times> 'x knet" where
  "ssnet_send I data t =
     (let n = kt_net t
      in if n_sock n < 0 \<or> SSNET_BOUNCE_SIZE < length data then (- 1, t)
         else let (ret, _, t) = call_ioctl I (kt_data_fd t) SO_SENDTO
                    [data, words [of_int (n_sock n), 0, 1] @ address_field (n_peer_port n) (n_peer_addr n)] [] t;
                  (n, t) = (if n_pace_every n = 0 then (n, t)
                            else let n = n\<lparr>n_sent_since_pause := n_sent_since_pause n + 1\<rparr>
                                 in if n_pace_every n \<le> n_sent_since_pause n
                                    then (n\<lparr>n_sent_since_pause := 0\<rparr>, t\<lparr>kt_world := ios_udelay I (n_pace_us n) (kt_world t)\<rparr>)
                                    else (n, t))
              in if ret < 0 then (int (length data), t\<lparr>kt_net := n\<lparr>n_dropped := n_dropped n + 1\<rparr>\<rparr>)
                 else (ret, t\<lparr>kt_net := n\<rparr>))"

text \<open>The result, and the bytes it put into the caller's buffer.\<close>

definition ssnet_try_recv :: "'x ios \<Rightarrow> nat \<Rightarrow> 'x knet \<Rightarrow> int \<times> byte list \<times> 'x knet" where
  "ssnet_try_recv I cap t =
     (let (ret, outs, t) = call_ioctl I (kt_data_fd t) SO_RECVFROM [words [of_int (n_sock (kt_net t)), 0]]
                             [replicate cap 0, [8, SSNET_AF_INET, 0, 0, 0, 0, 0, 0]] t
      in if 0 < ret then if int cap < ret then (- 1, [], t) else (ret, take (nat ret) (hd outs), t)
         else (0, [], t))"

text \<open>One turn of the loop: the result if it ends, what was waited so far, and the next step.\<close>

definition recv_turn ::
    "'x ios \<Rightarrow> nat \<Rightarrow> int \<Rightarrow> recv_result option \<times> int \<times> int \<times> 'x knet \<Rightarrow> recv_result option \<times> int \<times> int \<times> 'x knet" where
  "recv_turn I cap timeout_ms = (\<lambda>(_, waited, step, t).
     let (poll_ret, outs, t) = call_ioctl I (kt_data_fd t) SO_POLL [words [0, of_int step]]
                                 [words [of_int (n_sock (kt_net t)), SO_POLLIN, 0] @ replicate 20 0] t;
         (got, data, t) = (if 0 < poll_ret \<and> ss_get_u32 (drop 8 (hd outs)) AND SO_POLLIN \<noteq> 0 then ssnet_try_recv I cap t
                           else if poll_ret < 0 then (0, [], t\<lparr>kt_world := ios_mdelay I step (kt_world t)\<rparr>)
                           else (0, [], t))
     in if 0 < got then (Some (RecvData data), waited, step, t)
        else let waited = waited + step
             in if timeout_ms \<le> waited then (Some RecvTimeout, waited, step, t)
                else (None, waited, if step < 32 then step * 2 else step, t))"

definition ssnet_recv :: "'x ios \<Rightarrow> nat \<Rightarrow> int \<Rightarrow> 'x knet \<Rightarrow> recv_result \<times> 'x knet" where
  "ssnet_recv I cap timeout_ms t =
     (if n_sock (kt_net t) < 0 then (RecvError, t)
      else let cap = min cap SSNET_BOUNCE_SIZE;
               (r, _, _, t) = while (\<lambda>(r, _). r = None) (recv_turn I cap timeout_ms) (None, 0, 4, t)
           in (the r, t))"

text \<open>The module's platform with this socket layer; the pace \<open>ss_connect\<close> sets is written into the socket.\<close>

definition on_ssnet :: "'x ios \<Rightarrow> 'x knet platform \<Rightarrow> 'x knet platform" where
  "on_ssnet I P =
     P\<lparr>net_bring_up := ssnet_bring_up I, net_open := ssnet_open I,
       net_set_pace := (\<lambda>every us t. t\<lparr>kt_net := (kt_net t)\<lparr>n_pace_every := every, n_pace_us := us\<rparr>\<rparr>),
       net_close := ssnet_close I, net_live_ip := ssnet_live_ip I, net_dropped := (\<lambda>t. n_dropped (kt_net t)),
       ssnet_send_op := (\<lambda>t data. let (ret, t) = ssnet_send I data t in (0 \<le> ret, t)),
       ssnet_recv_op := (\<lambda>t cap timeout_ms. ssnet_recv I cap timeout_ms t)\<rparr>"

subsection \<open>Receiving\<close>

text \<open>
  An IOS on record: its world is the list of the calls made, and what it answers is any function of them.
\<close>

datatype io = Ioctl int byte "byte list list" "byte list list" | Opened string | Waited int | Logged string

definition recording :: "(io list \<Rightarrow> int) \<Rightarrow> (io list \<Rightarrow> int \<times> byte list list) \<Rightarrow> int \<Rightarrow> io list ios" where
  "recording opens answers fd =
     \<lparr>ios_open = (\<lambda>path es. (opens (es @ [Opened path]), es @ [Opened path])),
      ios_ioctl = (\<lambda>d cmd ins outs es. let es = es @ [Ioctl d cmd ins outs]; (ret, outs) = answers es in (ret, outs, es)),
      ios_udelay = (\<lambda>us es. es @ [Waited (uint us)]), ios_mdelay = (\<lambda>ms es. es @ [Waited ms]),
      ios_log = (\<lambda>fmt args es. es @ [Logged fmt]), sock_fd = (\<lambda>_. fd), nwc_fd = (\<lambda>_. fd)\<rparr>"

text \<open>What a call keeps of the statics: everything but the world.\<close>

definition same_statics :: "'x knet \<Rightarrow> 'x knet \<Rightarrow> bool" where
  "same_statics t t' \<longleftrightarrow> t' = t\<lparr>kt_world := kt_world t'\<rparr>"

lemma same_statics_refl [simp]: "same_statics t t"
  by (simp add: same_statics_def)

lemma same_statics_trans: "same_statics t t1 \<Longrightarrow> same_statics t1 t2 \<Longrightarrow> same_statics t t2"
  unfolding same_statics_def by (metis knet.select_convs(6) knet.surjective knet.update_convs(6))

lemma same_statics_world [simp]: "same_statics t (t\<lparr>kt_world := x\<rparr>)"
  by (simp add: same_statics_def)

lemma call_ioctl_statics: "call_ioctl I fd cmd ins outs t = (ret, outs', t') \<Longrightarrow> same_statics t t'"
  by (auto simp: call_ioctl_def split: prod.splits)

text \<open>The events of one turn: a poll of \<open>step\<close> milliseconds first; its data is no longer than the buffer.\<close>

definition poll_of :: "io \<Rightarrow> int" where
  "poll_of e = (case e of Ioctl fd cmd ins outs \<Rightarrow> if cmd = SO_POLL then sint (ss_get_u32 (drop 4 (hd ins))) else 0 | _ \<Rightarrow> 0)"

definition polled :: "io list \<Rightarrow> int" where
  "polled es = sum_list (map poll_of es)"

lemma polled_append [simp]: "polled (es @ fs) = polled es + polled fs" "polled [] = 0"
  by (simp_all add: polled_def)

text \<open>The datagrams handed to a socket with one parameter block.\<close>

definition handed :: "byte list \<Rightarrow> io \<Rightarrow> byte list list" where
  "handed dest e = (case e of Ioctl fd cmd ins outs \<Rightarrow> if cmd = SO_SENDTO \<and> tl ins = [dest] then [hd ins] else [] | _ \<Rightarrow> [])"

definition handed_to :: "byte list \<Rightarrow> io list \<Rightarrow> byte list list" where
  "handed_to dest es = concat (map (handed dest) es)"

lemma handed_to_append [simp]: "handed_to dest (es @ fs) = handed_to dest es @ handed_to dest fs" "handed_to dest [] = []"
  by (simp_all add: handed_to_def)

text \<open>From \<open>t\<close> to \<open>t'\<close>: no statics change, nothing is sent, and polls of \<open>ms\<close> milliseconds together are made.\<close>

definition listened :: "int \<Rightarrow> io list knet \<Rightarrow> io list knet \<Rightarrow> bool" where
  "listened ms t t' \<longleftrightarrow> same_statics t t' \<and>
     (\<exists>new. kt_world t' = kt_world t @ new \<and> polled new = ms \<and> (\<forall>dest. handed_to dest new = []))"

lemma listened_refl: "listened 0 t t"
  by (auto simp: listened_def intro: exI[of _ "[]"])

lemma listened_trans:
  assumes "listened m t t1" "listened n t1 t2"
  shows "listened (m + n) t t2"
proof -
  obtain a b where "kt_world t1 = kt_world t @ a" "polled a = m" "\<forall>dest. handed_to dest a = []"
    "kt_world t2 = kt_world t1 @ b" "polled b = n" "\<forall>dest. handed_to dest b = []"
    using assms by (auto simp: listened_def)
  then show ?thesis
    using assms same_statics_trans[of t t1 t2] by (auto simp: listened_def intro!: exI[of _ "a @ b"])
qed

lemma listened_ioctl:
  assumes "call_ioctl (recording opens answers fd) d cmd ins outs t = (ret, outs', t')" "cmd \<noteq> SO_SENDTO"
  shows "listened (poll_of (Ioctl d cmd ins outs)) t t'"
  using assms by (auto simp: listened_def call_ioctl_def recording_def Let_def same_statics_def handed_def handed_to_def polled_def
      split: prod.splits)

lemma io_commands: "SO_RECVFROM \<noteq> SO_SENDTO" "SO_RECVFROM \<noteq> SO_POLL" "SO_POLL \<noteq> SO_SENDTO"
  by (simp_all add: SO_RECVFROM_def SO_SENDTO_def SO_POLL_def)

lemma try_recv_listens:
  assumes "ssnet_try_recv (recording opens answers fd) cap t = (got, data, t')"
  shows "listened 0 t t'" "0 < got \<Longrightarrow> length data \<le> cap"
proof -
  let ?ins = "[words [of_int (n_sock (kt_net t)), 0]]" and ?outs = "[replicate cap 0, [8, SSNET_AF_INET, 0, 0, 0, 0, 0, 0]]"
  obtain ret outs t1 where c: "call_ioctl (recording opens answers fd) (kt_data_fd t) SO_RECVFROM ?ins ?outs t = (ret, outs, t1)"
    by (metis prod_cases3)
  have "poll_of (Ioctl (kt_data_fd t) SO_RECVFROM ?ins ?outs) = 0" by (simp add: poll_of_def io_commands)
  then have "listened 0 t t1" using listened_ioctl[OF c] by (simp add: io_commands)
  moreover have "t' = t1" "0 < got \<Longrightarrow> length data \<le> cap"
    using assms c by (auto simp: ssnet_try_recv_def split: if_splits)
  ultimately show "listened 0 t t'" "0 < got \<Longrightarrow> length data \<le> cap" by simp_all
qed

lemma recv_turn_listens:
  assumes "recv_turn (recording opens answers fd) cap tm (r, waited, step, t) = (r', waited', step', t')"
    and "step \<in> {4, 8, 16, 32}"
  shows "listened step t t'"
    "r' = None \<and> waited' = waited + step \<and> waited' < tm \<and> step' = (if step < 32 then step * 2 else step) \<or>
     r' = Some RecvTimeout \<and> waited' = waited + step \<and> tm \<le> waited' \<and> step' = step \<or>
     (\<exists>d. r' = Some (RecvData d) \<and> length d \<le> cap) \<and> waited' = waited \<and> step' = step"
proof -
  let ?I = "recording opens answers fd" and ?ins = "[words [0, of_int step]]"
    and ?outs = "[words [of_int (n_sock (kt_net t)), SO_POLLIN, 0] @ replicate 20 0]"
  obtain pr outs t1 where p: "call_ioctl ?I (kt_data_fd t) SO_POLL ?ins ?outs t = (pr, outs, t1)" by (metis prod_cases3)
  have "drop 4 (words [0, of_int step]) = ss_put_u32 (of_int step) @ []" by (simp add: words_def)
  then have "poll_of (Ioctl (kt_data_fd t) SO_POLL ?ins ?outs) = sint (of_int step :: u32)"
    by (simp only: poll_of_def io.case list.sel get_put_u32 refl if_True)
  also have "\<dots> = step" using assms(2) by auto
  finally have "poll_of (Ioctl (kt_data_fd t) SO_POLL ?ins ?outs) = step" .
  then have 1: "listened step t t1" using listened_ioctl[OF p] by (simp add: io_commands)
  define ready where "ready \<longleftrightarrow> 0 < pr \<and> ss_get_u32 (drop 8 (hd outs)) AND SO_POLLIN \<noteq> 0"
  obtain got data t2 where g: "(if ready then ssnet_try_recv ?I cap t1
      else if pr < 0 then (0, [], t1\<lparr>kt_world := ios_mdelay ?I step (kt_world t1)\<rparr>) else (0, [], t1)) = (got, data, t2)"
    by (metis prod_cases3)
  have "listened 0 t1 t2 \<and> (0 < got \<longrightarrow> length data \<le> cap)"
  proof (cases ready)
    case True
    then show ?thesis using g try_recv_listens[of opens answers fd cap t1 got data t2] by simp
  next
    case False
    then show ?thesis using g listened_refl
      by (auto simp: listened_def recording_def polled_def poll_of_def handed_to_def handed_def split: if_splits)
  qed
  then have 2: "listened step t t2" "0 < got \<Longrightarrow> length data \<le> cap" using listened_trans[OF 1, of 0 t2] by simp_all
  have e: "(r', waited', step', t') =
      (if 0 < got then (Some (RecvData data), waited, step, t2)
       else if tm \<le> waited + step then (Some RecvTimeout, waited + step, step, t2)
       else (None, waited + step, if step < 32 then step * 2 else step, t2))"
    using assms(1) by (simp add: recv_turn_def p ready_def[symmetric] g Let_def split: if_splits)
  show "listened step t t'" using e 2(1) by (auto split: if_splits)
  show "r' = None \<and> waited' = waited + step \<and> waited' < tm \<and> step' = (if step < 32 then step * 2 else step) \<or>
     r' = Some RecvTimeout \<and> waited' = waited + step \<and> tm \<le> waited' \<and> step' = step \<or>
     (\<exists>d. r' = Some (RecvData d) \<and> length d \<le> cap) \<and> waited' = waited \<and> step' = step"
    using e 2(2) by (auto split: if_splits)
qed

lemma ssnet_recv_listens:
  assumes "ssnet_recv (recording opens answers fd) cap tm t = (r, t')" "0 \<le> n_sock (kt_net t)"
  shows "\<exists>ms. listened ms t t' \<and> ms < max tm 1 + 32 \<and>
    (r = RecvTimeout \<and> tm \<le> ms \<or> (\<exists>d. r = RecvData d \<and> length d \<le> min cap SSNET_BOUNCE_SIZE))"
proof -
  let ?I = "recording opens answers fd" and ?cap = "min cap SSNET_BOUNCE_SIZE"
  define inv where "inv = (\<lambda>(r, w, st, t2). st \<in> {4, 8, 16, 32 :: int} \<and> 0 \<le> w \<and>
    (r = None \<longrightarrow> (w = 0 \<or> w < tm) \<and> listened w t t2) \<and>
    (\<forall>d. r = Some d \<longrightarrow> (\<exists>ms. listened ms t t2 \<and> ms < max tm 1 + 32 \<and>
      (d = RecvTimeout \<and> tm \<le> ms \<or> (\<exists>e. d = RecvData e \<and> length e \<le> ?cap)))))"
  define P where "P = (\<lambda>(r, w, st, t2). inv (r, w, st, t2) \<and> r \<noteq> None)"
  have "P (while (\<lambda>(r, _). r = None) (recv_turn ?I ?cap tm) (None, 0, 4, t))"
  proof (rule while_rule[where P = inv and r = "measure (\<lambda>(r, w, st, t2). if r = None then nat (tm - w) + 1 else 0)"])
    show "inv (None, 0, 4, t)" using listened_refl by (simp add: inv_def)
    show "P x" if "inv x" "\<not> (case x of (r, _) \<Rightarrow> r = None)" for x
      using that by (cases x) (simp add: P_def)
    fix x assume x: "inv x" "case x of (r, _) \<Rightarrow> r = None"
    obtain w st t1 where e: "x = (None, w, st, t1)" using x(2) by (cases x) auto
    obtain r2 w2 st2 t2 where n: "recv_turn ?I ?cap tm x = (r2, w2, st2, t2)" by (metis prod_cases4)
    have st: "st \<in> {4, 8, 16, 32}" and w: "0 \<le> w" "w = 0 \<or> w < tm" "listened w t t1" using x(1) by (simp_all add: inv_def e)
    note tl = recv_turn_listens[OF n[unfolded e] st]
    note l = listened_trans[OF w(3) tl(1)]
    have "0 < st" "st \<le> 32" using st by auto
    then have "w + st < max tm 1 + 32" using w(2) by auto
    moreover have st2: "st2 \<in> {4, 8, 16, 32}" using tl(2) st by auto
    ultimately show "inv (recv_turn ?I ?cap tm x)"
      unfolding n inv_def prod.case using tl(2) w(1) \<open>0 < st\<close> l by auto
    show "(recv_turn ?I ?cap tm x, x) \<in> measure (\<lambda>(r, w, st, t2). if r = None then nat (tm - w) + 1 else 0)"
      unfolding n unfolding e using tl(2) \<open>0 < st\<close> by auto
  qed simp
  moreover obtain r2 w2 st2 t2 where "while (\<lambda>(r, _). r = None) (recv_turn ?I ?cap tm) (None, 0, 4, t) = (r2, w2, st2, t2)"
    by (metis prod_cases4)
  ultimately show ?thesis using assms by (auto simp: ssnet_recv_def P_def inv_def)
qed

subsection \<open>Sending\<close>

text \<open>The parameter block of the sends to an address.\<close>

definition destination :: "'x knet \<Rightarrow> byte list" where
  "destination t = words [of_int (n_sock (kt_net t)), 0, 1] @ address_field (n_peer_port (kt_net t)) (n_peer_addr (kt_net t))"

text \<open>An open socket hands IOS every datagram of the protocol and reports success; a refusal is counted.\<close>

lemma ssnet_send_hands:
  assumes "0 \<le> n_sock (kt_net t)" "length data \<le> SSNET_BOUNCE_SIZE" "ssnet_send (recording opens answers fd) data t = (ret, t')"
  shows "0 \<le> ret" "handed_to (destination t) (kt_world t') = handed_to (destination t) (kt_world t) @ [data]"
    "destination t' = destination t" "n_sock (kt_net t') = n_sock (kt_net t)"
    "n_dropped (kt_net t') = n_dropped (kt_net t) \<or> n_dropped (kt_net t') = n_dropped (kt_net t) + 1"
proof -
  let ?I = "recording opens answers fd"
  obtain rc outs t1 where c: "call_ioctl ?I (kt_data_fd t) SO_SENDTO [data, destination t] [] t = (rc, outs, t1)" by (metis prod_cases3)
  have w: "kt_world t1 = kt_world t @ [Ioctl (kt_data_fd t) SO_SENDTO [data, destination t] []]" "kt_net t1 = kt_net t"
    using c by (auto simp: call_ioctl_def recording_def Let_def split: prod.splits)
  have s: "\<not> (n_sock (kt_net t) < 0 \<or> SSNET_BOUNCE_SIZE < length data)" using assms(1,2) by simp
  have u: "ios_udelay ?I us es = es @ [Waited (uint us)]" for us es by (simp add: recording_def)
  note e = assms(3)[unfolded ssnet_send_def Let_def if_not_P[OF s] destination_def[symmetric] c prod.case]
  show "0 \<le> ret" using e by (auto split: if_splits prod.splits)
  show "handed_to (destination t) (kt_world t') = handed_to (destination t) (kt_world t) @ [data]"
    "destination t' = destination t" "n_sock (kt_net t') = n_sock (kt_net t)"
    "n_dropped (kt_net t') = n_dropped (kt_net t) \<or> n_dropped (kt_net t') = n_dropped (kt_net t) + 1"
    using e w by (auto simp: handed_to_def handed_def u destination_def split: if_splits prod.splits)
qed

text \<open>The client's transport over an open socket: what is sent through it is what IOS is handed for its destination.\<close>

interpretation ksock: logged_transport
    "ssnet_send_op (on_ssnet (recording opens answers fd) P)" "ssnet_recv_op (on_ssnet (recording opens answers fd) P)"
    "\<lambda>t. handed_to dest (kt_world t)" "\<lambda>t. 0 \<le> n_sock (kt_net t) \<and> destination t = dest"
  for opens answers fd P dest
proof unfold_locales
  fix t :: "io list knet" and d :: "byte list"
  assume t: "0 \<le> n_sock (kt_net t) \<and> destination t = dest" and d: "length d \<le> SS_MAX_DATAGRAM"
  obtain ret t' where s: "ssnet_send (recording opens answers fd) d t = (ret, t')" by fastforce
  have "length d \<le> SSNET_BOUNCE_SIZE" using d by (simp add: protocol_consts SSNET_BOUNCE_SIZE_def)
  then show "handed_to dest (kt_world (snd (ssnet_send_op (on_ssnet (recording opens answers fd) P) t d))) = handed_to dest (kt_world t) @ [d] \<and>
    0 \<le> n_sock (kt_net (snd (ssnet_send_op (on_ssnet (recording opens answers fd) P) t d))) \<and>
    destination (snd (ssnet_send_op (on_ssnet (recording opens answers fd) P) t d)) = dest"
    using t ssnet_send_hands(1-4)[OF _ _ s] by (simp add: on_ssnet_def s)
next
  fix t :: "io list knet" and n :: nat and tm :: int
  assume t: "0 \<le> n_sock (kt_net t) \<and> destination t = dest"
  obtain r t' where r: "ssnet_recv (recording opens answers fd) n tm t = (r, t')" by fastforce
  obtain ms where "listened ms t t'" using ssnet_recv_listens[OF r] t by blast
  then obtain new where "kt_net t' = kt_net t" "kt_world t' = kt_world t @ new" "handed_to dest new = []"
    unfolding listened_def same_statics_def by (metis knet.select_convs(5) knet.surjective knet.update_convs(6))
  then show "handed_to dest (kt_world (snd (ssnet_recv_op (on_ssnet (recording opens answers fd) P) t n tm))) = handed_to dest (kt_world t) \<and>
    0 \<le> n_sock (kt_net (snd (ssnet_recv_op (on_ssnet (recording opens answers fd) P) t n tm))) \<and>
    destination (snd (ssnet_recv_op (on_ssnet (recording opens answers fd) P) t n tm)) = dest"
    using t by (simp add: on_ssnet_def r destination_def)
qed

lemma same_statics_net: "same_statics t t' \<Longrightarrow> kt_net t' = kt_net t"
  unfolding same_statics_def by (metis knet.select_convs(5) knet.surjective knet.update_convs(6))

text \<open>Opening: the socket is open and its peer is the server.\<close>

lemma netdbg_net [simp]: "kt_net (netdbg I fmt args t) = kt_net t"
  by (simp add: netdbg_def)

lemma try_bind_net: "try_bind I ps t = (b, t') \<Longrightarrow> kt_net t' = kt_net t"
proof (induction I ps t rule: try_bind.induct)
  case (2 I p ps t)
  obtain ret outs t1 where c: "call_ioctl I (kt_data_fd t) SO_BIND [words [of_int (n_sock (kt_net t)), 1] @ address_field p 0] [] t =
    (ret, outs, t1)" by (metis prod_cases3)
  have "kt_net t1 = kt_net t" by (rule same_statics_net[OF call_ioctl_statics[OF c]])
  then show ?case using 2 c by (auto simp: Let_def split: if_splits)
qed simp

lemma ssnet_open_peer:
  assumes "ssnet_open I addr port t = (True, t')"
  shows "0 \<le> n_sock (kt_net t')" "n_peer_addr (kt_net t') = addr" "n_peer_port (kt_net t') = port" "n_dropped (kt_net t') = 0"
proof -
  let ?n = "\<lparr>n_sock = - 1, n_peer_addr = addr, n_peer_port = port, n_dropped = 0, n_sent_since_pause = 0, n_pace_every = 8, n_pace_us = 5000\<rparr>"
  let ?t0 = "t\<lparr>kt_net := ?n\<rparr>"
  obtain ret outs t1 where 1: "call_ioctl I (kt_data_fd t) SO_SOCKET [words [ucast SSNET_AF_INET, SSNET_SOCK_DGRAM, SSNET_IPPROTO_IP]] [] ?t0 =
    (ret, outs, t1)" by (metis prod_cases3)
  have fd: "\<not> kt_data_fd t < 0" "\<not> ret < 0" using assms by (auto simp: ssnet_open_def 1 Let_def split: if_splits)
  let ?t2 = "t1\<lparr>kt_net := \<lparr>n_sock = ret, n_peer_addr = addr, n_peer_port = port, n_dropped = 0, n_sent_since_pause = 0,
    n_pace_every = 8, n_pace_us = 5000\<rparr>\<rparr>"
  obtain bound t3 where 2: "try_bind I [49152, 49153, 49154] ?t2 = (bound, t3)" by fastforce
  define t4 where "t4 = (if bound then t3 else netdbg I ''SlotSync: no bind, letting sendto assign one'' [] t3)"
  obtain ret5 outs5 t5 where 3: "call_ioctl I (kt_data_fd t4) SO_FCNTL [words [of_int ret, SO_F_SETFL, SO_O_NONBLOCK]] [] t4 = (ret5, outs5, t5)"
    by (metis prod_cases3)
  define t6 where "t6 = netdbg I ''SlotSync: fcntl set %04x: %d'' [LNum SO_O_NONBLOCK, LNum (of_int ret5)] t5"
  obtain ret7 outs7 t7 where 4: "call_ioctl I (kt_data_fd t6) SO_FCNTL [words [of_int ret, SO_F_GETFL, 0]] [] t6 = (ret7, outs7, t7)"
    by (metis prod_cases3)
  have "kt_net t' = kt_net t7"
    using assms fd by (simp add: ssnet_open_def 1 2 Let_def del: try_bind.simps flip: t4_def)
      (simp add: 3 flip: t6_def, auto simp: 4 split: if_splits)
  also have "\<dots> = kt_net t4"
    using same_statics_net[OF call_ioctl_statics[OF 4]] same_statics_net[OF call_ioctl_statics[OF 3]] by (simp add: t6_def)
  also have "\<dots> = kt_net ?t2" using try_bind_net[OF 2] by (simp add: t4_def)
  finally show "0 \<le> n_sock (kt_net t')" "n_peer_addr (kt_net t') = addr" "n_peer_port (kt_net t') = port" "n_dropped (kt_net t') = 0"
    using fd(2) by simp_all
qed

subsection \<open>Properties\<close>


text \<open>The IOS the witnesses look at: a datagram \<open>d\<close> is always there.\<close>

definition echo_ios :: "byte list \<Rightarrow> io list ios" where
  "echo_ios d = recording (\<lambda>_. 3) (\<lambda>es. case last es of
     Ioctl fd cmd ins outs \<Rightarrow>
       if cmd = SO_POLL then (1, [words [0, 3, 1] @ replicate 20 0])
       else if cmd = SO_RECVFROM then (int (length d), [d]) else (0, []) | _ \<Rightarrow> (0, [])) 3"

definition fresh_knet :: "io list knet" where
  "fresh_knet = \<lparr>kt_ip_top_fd = 3, kt_data_fd = 4, kt_ncd_fd = 5, kt_current_ip = 0,
     kt_net = \<lparr>n_sock = 0, n_peer_addr = 1, n_peer_port = 2, n_dropped = 0, n_sent_since_pause = 0, n_pace_every = 8, n_pace_us = 5000\<rparr>,
     kt_world = []\<rparr>"

lemma echo_ios_recv:
  assumes "0 \<le> n_sock (kt_net t)" "0 < length d" "length d \<le> min cap 1152"
  shows "\<exists>t'. ssnet_recv (echo_ios d) cap tm t = (RecvData d, t') \<and> kt_net t' = kt_net t"
proof -
  have "words [0, 3, 1] = [0, 0, 0, 0, 0, 0, 0, 3, 0, 0, 0, 1]" by (simp add: words_def ss_put_u32_def)
  moreover have "\<not> min cap 1152 < length d" using assms(3) by (metis not_less)
  ultimately have "\<exists>w st t'. recv_turn (echo_ios d) (min cap 1152) tm (None, 0, 4, t) = (Some (RecvData d), w, st, t') \<and> kt_net t' = kt_net t"
    using assms(1,2) by (simp add: recv_turn_def call_ioctl_def echo_ios_def recording_def Let_def ssnet_try_recv_def io_commands
        ss_get_u32_def SO_POLLIN_def)
  then show ?thesis using assms(1) by (subst ssnet_recv_def) (auto simp: SSNET_BOUNCE_SIZE_def while_unfold)
qed


text \<open>
  C22: the client over the kernel's own socket. After a successful open, and with any pace set, a push that reports
  success has handed IOS, on the opened socket and addressed to the server, PUSH_BEGIN, then every chunk of the card in order,
  whose payloads are the card, then PUSH_END with its digest, whatever IOS answered: a send it refuses counts as sent.
\<close>

theorem kernel_push_over_ios:
  assumes "ssnet_open (recording opens answers fd) addr port t0 = (True, t)"
    and "transport c = \<lparr>tp_send = ssnet_send_op (on_ssnet (recording opens answers fd) P),
      tp_recv = ssnet_recv_op (on_ssnet (recording opens answers fd) P),
      tp_ctx = net_set_pace (on_ssnet (recording opens answers fd) P) every us t\<rparr>"
    and "length (cl_nonce_seed c) = 8" "unat n \<le> length img" "unat n + 1023 < 2 ^ 32"
    and "ss_push c g s img n parent v bm = Some (SS_OK, got, bm', c')"
  shows "\<exists>bs cs rest dest. dest = words [of_int (n_sock (kt_net t)), 0, 1] @ address_field port addr \<and>
    handed_to dest (kt_world (tp_ctx (transport c'))) = handed_to dest (kt_world t) @ datagrams c (bs @ cs @
      [end_message (cl_device_id c) g s n parent v (sha256 (take (unat n) img))] @ rest) \<and>
    bs \<noteq> [] \<and> last bs = begin_message (cl_device_id c) g s n parent v False \<and> length cs = unat (ss_chunk_count n) \<and>
    (\<forall>k < length cs. h_msg_type (fst (cs ! k)) = SS_PUSH_CHUNK \<and> unat (h_offset (fst (cs ! k))) = k * 1024) \<and>
    concat (map snd cs) = take (unat n) img"
proof -
  let ?dest = "words [of_int (n_sock (kt_net t)), 0, 1] @ address_field port addr"
  note o = ssnet_open_peer[OF assms(1)]
  have r: "ksock.ready opens answers fd P ?dest c"
    using assms(3) o by (simp only: ksock.ready_def assms(2)) (simp add: on_ssnet_def destination_def)
  obtain bs cs rest where w: "ksock.emitted opens answers fd P ?dest c c' (bs @ cs @
      [end_message (cl_device_id c) g s n parent v (sha256 (take (unat n) img))] @ rest)"
    "bs \<noteq> []" "last bs = begin_message (cl_device_id c) g s n parent v False" "length cs = unat (ss_chunk_count n)"
    "\<forall>k < length cs. h_msg_type (fst (cs ! k)) = SS_PUSH_CHUNK \<and> unat (h_offset (fst (cs ! k))) = k * 1024"
    "concat (map snd cs) = take (unat n) img"
    using ksock.push_sends_whole[OF r assms(4-6)] by blast
  have "kt_world (tp_ctx (transport c)) = kt_world t" by (simp add: assms(2) on_ssnet_def)
  then have "handed_to ?dest (kt_world (tp_ctx (transport c'))) = handed_to ?dest (kt_world t) @ datagrams c (bs @ cs @
      [end_message (cl_device_id c) g s n parent v (sha256 (take (unat n) img))] @ rest)"
    using w(1) by (simp only: ksock.emitted_def ksock.sent_def)
  then show ?thesis using w(2-6) by blast
qed

lemma echo_ios_push:
  assumes "0 \<le> n_sock (kt_net t)" "length (cl_nonce_seed c) = 8" "cl_key c = ascii ''key''" "0 < cl_max_rounds c"
    and d: "ss_pack SS_MAX_DATAGRAM example_ack [] (ascii ''key'') = Some d"
    and c: "transport c = \<lparr>tp_send = ssnet_send_op (on_ssnet (echo_ios d) P), tp_recv = ssnet_recv_op (on_ssnet (echo_ios d) P), tp_ctx = t\<rparr>"
  shows "\<exists>bm' c'. ss_push c g s [1, 2, 3] 3 4 5 [0] = Some (SS_OK, Some 5, bm', c')"
proof -
  have wf: "wf_header example_ack" "h_length example_ack = 0"
    by (simp_all add: example_ack_def wf_header_def ss_header_init_def SS_NONCE_SIZE_def)
  have len: "length d = 96" using ss_pack_length[OF wf(1) d] by simp
  have u: "ss_unpack d (cl_key c) = Inr (example_ack, [])"
    using ss_unpack_pack[OF wf(1) d] assms(3) wf(2) by simp
  have send: "0 \<le> ret \<and> 0 \<le> n_sock (kt_net t2)" if "ssnet_send (echo_ios d) m t1 = (ret, t2)" "0 \<le> n_sock (kt_net t1)" "length m \<le> SS_MAX_DATAGRAM"
    for m t1 ret t2
    using ssnet_send_hands(1,4)[OF that(2) _ that(1)[unfolded echo_ios_def]] that(2,3) by (simp add: SSNET_BOUNCE_SIZE_def protocol_consts)
  have recv: "\<exists>t2. ssnet_recv (echo_ios d) SS_MAX_DATAGRAM tm t1 = (RecvData d, t2) \<and> kt_net t2 = kt_net t1" if "0 \<le> n_sock (kt_net t1)" for tm t1
    using echo_ios_recv[OF that, of d SS_MAX_DATAGRAM tm] len by (simp add: protocol_consts)
  have s: "fst (tp_send (transport c) x m) \<and> 0 \<le> n_sock (kt_net (snd (tp_send (transport c) x m)))"
    if "0 \<le> n_sock (kt_net x) \<and> length m \<le> SS_MAX_DATAGRAM" for x m
    using send[of m x "fst (ssnet_send (echo_ios d) m x)" "snd (ssnet_send (echo_ios d) m x)"] that
    by (simp add: c on_ssnet_def case_prod_beta)
  have r: "fst (tp_recv (transport c) x SS_MAX_DATAGRAM tm) = RecvData d \<and> 0 \<le> n_sock (kt_net (snd (tp_recv (transport c) x SS_MAX_DATAGRAM tm)))"
    if x: "0 \<le> n_sock (kt_net x)" for x tm
  proof -
    obtain t2 where "ssnet_recv (echo_ios d) SS_MAX_DATAGRAM tm x = (RecvData d, t2)" "kt_net t2 = kt_net x" using recv[OF x] by blast
    then show ?thesis using x by (simp add: c on_ssnet_def)
  qed
  have "tp_ctx (transport c) = t" by (simp add: c)
  then have "echoing c example_ack []"
    unfolding echoing_def using assms(1,2) u s r
    by (intro conjI exI[of _ "\<lambda>t. 0 \<le> n_sock (kt_net t)"] exI[of _ d]) blast+
  moreover have "h_msg_type example_ack = SS_ACK" "h_card_version example_ack = 5" "ss_chunk_count 3 = 1"
    by (simp_all add: example_ack_def ss_header_init_def ss_chunk_count_def SS_MAX_PAYLOAD_def)
  ultimately show ?thesis
    using push_accepts_ack[of c example_ack "[]" 3 "[0]" None g s "[1, 2, 3]" 4 5] assms(4) by (simp add: ss_push_def)
qed

theorem kernel_push_over_ios_witness:
  "\<exists>d t (c :: io list knet ss_client) bm' c' bs cs rest. ssnet_open (echo_ios d) 0xC0A80102 9977 fresh_knet = (True, t) \<and>
     ss_push c (ascii ''GALE01'') 0 [1, 2, 3] 3 4 5 [0] = Some (SS_OK, Some 5, bm', c') \<and> concat (map snd cs) = [1, 2, 3] \<and>
     handed_to (words [of_int (n_sock (kt_net t)), 0, 1] @ address_field 9977 0xC0A80102) (kt_world (tp_ctx (transport c'))) =
       handed_to (words [of_int (n_sock (kt_net t)), 0, 1] @ address_field 9977 0xC0A80102) (kt_world t) @
         datagrams c (bs @ cs @ [end_message 7 (ascii ''GALE01'') 0 3 4 5 (sha256 [1, 2, 3])] @ rest)"
proof -
  obtain d where d: "ss_pack SS_MAX_DATAGRAM example_ack [] (ascii ''key'') = Some d"
    using ss_pack_datagram[of example_ack "[]" "ascii ''key''"]
    by (auto simp: example_ack_def wf_header_def ss_header_init_def SS_NONCE_SIZE_def)
  obtain b t where o: "ssnet_open (echo_ios d) 0xC0A80102 9977 fresh_knet = (b, t)" by fastforce
  have b: b
    using o by (auto simp: ssnet_open_def fresh_knet_def call_ioctl_def echo_ios_def recording_def Let_def SO_SOCKET_def SO_POLL_def
        SO_RECVFROM_def split: prod.splits)
  define P where "P = (undefined :: io list knet platform)"
  define tp where "tp = \<lparr>tp_send = ssnet_send_op (on_ssnet (echo_ios d) P), tp_recv = ssnet_recv_op (on_ssnet (echo_ios d) P),
    tp_ctx = net_set_pace (on_ssnet (echo_ios d) P) 8 5000 t\<rparr>"
  let ?c = "ss_client_init tp (ascii ''key'') 7 (Some [1, 2, 3, 4, 5, 6, 7, 8])"
  have o1: "ssnet_open (echo_ios d) 0xC0A80102 9977 fresh_knet = (True, t)" using o b by simp
  have cf: "transport ?c = tp" "length (cl_nonce_seed ?c) = 8" "cl_key ?c = ascii ''key''" "0 < cl_max_rounds ?c"
    "cl_device_id ?c = 7" by (simp_all add: ss_client_init_def)
  have sock: "0 \<le> n_sock (kt_net (net_set_pace (on_ssnet (echo_ios d) P) 8 5000 t))"
    using ssnet_open_peer(1)[OF o1] by (simp add: on_ssnet_def)
  obtain bm' c' where p: "ss_push ?c (ascii ''GALE01'') 0 [1, 2, 3] 3 4 5 [0] = Some (SS_OK, Some 5, bm', c')"
    using echo_ios_push[OF sock cf(2-4) d trans[OF cf(1) tp_def]] by blast
  have n: "unat (3 :: u32) \<le> length [1, 2, 3 :: byte]" "unat (3 :: u32) + 1023 < 2 ^ 32" by simp_all
  obtain bs cs rest where w: "handed_to (words [of_int (n_sock (kt_net t)), 0, 1] @ address_field 9977 0xC0A80102)
      (kt_world (tp_ctx (transport c'))) =
      handed_to (words [of_int (n_sock (kt_net t)), 0, 1] @ address_field 9977 0xC0A80102) (kt_world t) @ datagrams ?c (bs @ cs @
      [end_message (cl_device_id ?c) (ascii ''GALE01'') 0 3 4 5 (sha256 (take (unat (3 :: u32)) [1, 2, 3]))] @ rest)"
    "concat (map snd cs) = take (unat (3 :: u32)) [1, 2, 3]"
    using kernel_push_over_ios[OF o1[unfolded echo_ios_def] trans[OF cf(1) tp_def[unfolded echo_ios_def]] cf(2) n p] by blast
  have t3: "take (unat (3 :: u32)) [1, 2, 3 :: byte] = [1, 2, 3]" by simp
  show ?thesis by (intro exI conjI) (rule o1, rule p, rule w(2)[unfolded t3], rule w(1)[unfolded t3 cf(5)])
qed

end
