(* ===== verification/SS_Runtime.thy ===== *)
theory SS_Runtime
  imports SS_Kernel
begin

text \<open>
  The runs of the kernel module: its worker thread and Nintendont's main thread interleaved, with anything at all happening
  around them between two steps. A step is a piece of the worker between two points where the other thread's writes matter, or a
  whole entry point. What the invariants are about is recorded as a trace, newest first.
\<close>

datatype action =
    Saved nat
  | Began nat u32 "byte list" u32
  | Abandoned nat
  | Transferred nat "byte list"
  | Ended nat ss_result u32

text \<open>Where the worker is.\<close>

datatype worker_at =
    AtStart
  | AtLoop
  | AtPrepare nat
  | AtReconnect nat u32 bool
  | AtTransfer nat u32 bool
  | AtSettle nat ss_result u32
  | Gone

text \<open>The statics at their sizes.\<close>

definition well_sized :: "'x kernel \<Rightarrow> bool" where
  "well_sized k \<longleftrightarrow> length (kn_slots k) \<in> {1, 2} \<and> length (kn_fingerprints k) = SS_FP_ENTRIES \<and>
     length (kn_dirty_map k) = SS_BITMAP_BYTES \<and> length (kn_bitmap k) = SS_BITMAP_BYTES"

text \<open>Whether a notification is accepted.\<close>

definition notified :: "int \<Rightarrow> 'x kernel \<Rightarrow> bool" where
  "notified slot k \<longleftrightarrow> 0 \<le> slot \<and> slot < int (length (kn_slots k)) \<and> kn_worker_running k"

inductive kernel_run :: "'x platform \<Rightarrow> action list \<Rightarrow> 'x kernel \<Rightarrow> worker_at \<Rightarrow> bool" for P :: "'x platform" where
  init: "well_sized k0 \<Longrightarrow> SlotSync_Init P k0 = (True, k) \<Longrightarrow> kernel_run P [] k AtStart"
| around: "kernel_run P tr k w \<Longrightarrow> kernel_run P tr (k\<lparr>kn_world := x\<rparr>) w"
| enter: "kernel_run P tr k AtStart \<Longrightarrow> kernel_run P tr (worker_enter k) AtLoop"
| connect: "kernel_run P tr k AtLoop \<Longrightarrow> \<not> kn_net_connected k \<Longrightarrow> ss_connect P k = (ok, k') \<Longrightarrow>
     kernel_run P tr (k'\<lparr>kn_net_connected := ok\<rparr>) AtLoop"
| idle: "kernel_run P tr k AtLoop \<Longrightarrow> slot < length (kn_slots k) \<Longrightarrow> ss_should_push P slot k = (False, k') \<Longrightarrow>
     kernel_run P tr k' AtLoop"
| pick: "kernel_run P tr k AtLoop \<Longrightarrow> slot < length (kn_slots k) \<Longrightarrow> ss_should_push P slot k = (True, k') \<Longrightarrow>
     s_lineage (kn_slots k' ! slot) \<Longrightarrow> kernel_run P tr k' (AtPrepare slot)"
| ask: "kernel_run P tr k AtLoop \<Longrightarrow> slot < length (kn_slots k) \<Longrightarrow> ss_should_push P slot k = (True, k1) \<Longrightarrow>
     \<not> s_lineage (kn_slots k1 ! slot) \<Longrightarrow> ss_establish_lineage P slot k1 = (answer, k2) \<Longrightarrow>
     kernel_run P tr (if answer = Never then update_slot slot (\<lambda>s. s\<lparr>s_halted := True\<rparr>) k2 else k2)
       (if answer = Settled then AtPrepare slot else AtLoop)"
| skip: "kernel_run P tr k (AtPrepare slot) \<Longrightarrow> push_prepare P slot k = (None, k') \<Longrightarrow> kernel_run P tr k' AtLoop"
| begin_push: "kernel_run P tr k (AtPrepare slot) \<Longrightarrow> push_prepare P slot k = (Some (n, delta), k') \<Longrightarrow>
     kernel_run P (Began slot (s_parent (kn_slots k ! slot)) (card_image P slot k) n # tr) k' (AtReconnect slot n delta)"
| give_up: "kernel_run P tr k (AtReconnect slot n delta) \<Longrightarrow> push_reconnect P slot k = (False, k') \<Longrightarrow>
     kernel_run P (Abandoned slot # tr) k' AtLoop"
| reconnect: "kernel_run P tr k (AtReconnect slot n delta) \<Longrightarrow> push_reconnect P slot k = (True, k') \<Longrightarrow>
     kernel_run P tr k' (AtTransfer slot n delta)"
| transfer: "kernel_run P tr k (AtTransfer slot n delta) \<Longrightarrow> push_transfer P slot n delta k = Some (rc, assigned, k') \<Longrightarrow>
     kernel_run P (Transferred slot (card_image P slot k) # tr) k' (AtSettle slot rc assigned)"
| settle: "kernel_run P tr k (AtSettle slot rc assigned) \<Longrightarrow>
     kernel_run P (Ended slot rc assigned # tr) (push_settle P slot rc assigned k) AtLoop"
| leave: "kernel_run P tr k AtLoop \<Longrightarrow> kn_worker_stop k \<Longrightarrow> kernel_run P tr (worker_leave P k) Gone"
| notify: "kernel_run P tr k w \<Longrightarrow> SlotSync_NotifyCardSaved P slot k = Some k' \<Longrightarrow>
     kernel_run P (if notified slot k then Saved (nat slot) # tr else tr) k' w"
| poll: "kernel_run P tr k w \<Longrightarrow> SlotSync_Poll P k = Some k' \<Longrightarrow> kernel_run P tr k' w"
| stop: "kernel_run P tr k w \<Longrightarrow> kn_worker_running k \<Longrightarrow> kernel_run P tr (shutdown_request k) w"
| finish: "kernel_run P tr k w \<Longrightarrow> shutdown_finish P k = Some k' \<Longrightarrow> kernel_run P tr k' w"

subsection \<open>What the operations leave alone\<close>

text \<open>The slots are written by name only, so most operations keep them as they are.\<close>

lemma outside_slots [simp]:
  "kn_slots (snd (outside f k)) = kn_slots k" "kn_fingerprints (snd (outside f k)) = kn_fingerprints k"
  by (simp_all add: outside_def split: prod.split)

lemma outside_eq: "outside f k = (r, k') \<Longrightarrow> kn_slots k' = kn_slots k \<and> kn_fingerprints k' = kn_fingerprints k \<and>
  kn_client k' = kn_client k"
  by (auto simp: outside_def split: prod.splits)

lemma sslog_keeps [simp]:
  "kn_slots (sslog P fmt args k) = kn_slots k" "kn_fingerprints (sslog P fmt args k) = kn_fingerprints k"
  "kn_client (sslog P fmt args k) = kn_client k" "kn_world (sslog P fmt args k) = kn_world k"
  "kn_dirty_map (sslog P fmt args k) = kn_dirty_map k" "kn_bitmap (sslog P fmt args k) = kn_bitmap k"
  "kn_worker_running (sslog P fmt args k) = kn_worker_running k" "kn_cfg (sslog P fmt args k) = kn_cfg k"
  "kn_handoff_pending (sslog P fmt args k) = kn_handoff_pending k"
  by (simp_all add: sslog_def SlotSync_Log_def Let_def)

lemma take_client_keeps [simp]:
  "kn_slots (take_client c k) = kn_slots k" "kn_fingerprints (take_client c k) = kn_fingerprints k"
  "kn_client (take_client c k) = c" "kn_dirty_map (take_client c k) = kn_dirty_map k"
  by (simp_all add: take_client_def)

lemma update_slot_keeps [simp]:
  "length (kn_slots (update_slot i f k)) = length (kn_slots k)"
  "kn_fingerprints (update_slot i f k) = kn_fingerprints k" "kn_client (update_slot i f k) = kn_client k"
  "kn_world (update_slot i f k) = kn_world k" "kn_dirty_map (update_slot i f k) = kn_dirty_map k"
  by (simp_all add: update_slot_def)

lemma update_slot_nth:
  "j < length (kn_slots k) \<Longrightarrow> kn_slots (update_slot i f k) ! j = (if i = j then f (kn_slots k ! j) else kn_slots k ! j)"
  by (simp add: update_slot_def nth_list_update)

definition quiet :: "'x kernel \<Rightarrow> 'x kernel \<Rightarrow> bool" where
  "quiet k k' \<longleftrightarrow> kn_slots k' = kn_slots k \<and> kn_fingerprints k' = kn_fingerprints k \<and> kn_dirty_map k' = kn_dirty_map k"

text \<open>The main thread's operations keep the client as well.\<close>

definition untouched :: "'x kernel \<Rightarrow> 'x kernel \<Rightarrow> bool" where
  "untouched k k' \<longleftrightarrow> quiet k k' \<and> kn_client k' = kn_client k"

lemma untouched_refl [simp]: "untouched k k"
  by (simp add: untouched_def quiet_def)

lemma untouched_trans [trans]: "untouched k1 k2 \<Longrightarrow> untouched k2 k3 \<Longrightarrow> untouched k1 k3"
  by (simp add: untouched_def quiet_def)

lemma untouched_quiet: "untouched k k' \<Longrightarrow> quiet k k'"
  by (simp add: untouched_def)

lemma quiet_refl [simp]: "quiet k k"
  by (simp add: quiet_def)

lemma quiet_trans [trans]: "quiet k1 k2 \<Longrightarrow> quiet k2 k3 \<Longrightarrow> quiet k1 k3"
  by (simp add: quiet_def)

lemma untouched_outside: "outside f k = (r, k') \<Longrightarrow> untouched k k'"
  by (auto simp: outside_def untouched_def quiet_def split: prod.splits)

lemma ss_connect_quiet: "ss_connect P k = (ok, k') \<Longrightarrow> quiet k k'"
  by (auto simp: ss_connect_def quiet_def Let_def outside_def split: prod.splits if_splits)

lemma ss_should_push_untouched:
  assumes "ss_should_push P slot k = (wanted, k')"
  shows "untouched k k'" "wanted \<Longrightarrow> s_dirty (kn_slots k ! slot) \<and> \<not> s_halted (kn_slots k ! slot)"
  using assms
  by (auto simp: ss_should_push_def untouched_def quiet_def ssl_should_push_def Let_def outside_def split: prod.splits if_splits)

text \<open>An operation that sets the slots to \<open>ss\<close> and keeps the rest.\<close>

abbreviation with_slots :: "ss_slot list \<Rightarrow> 'x kernel \<Rightarrow> 'x kernel" where
  "with_slots ss k \<equiv> k\<lparr>kn_slots := ss\<rparr>"

lemma ss_establish_lineage_slots:
  assumes "ss_establish_lineage P slot k = (answer, k')"
  shows "quiet (with_slots (if answer = Settled
     then (kn_slots k)[slot := (kn_slots k ! slot)\<lparr>s_parent := 0, s_lineage := True\<rparr>] else kn_slots k) k) k'"
  using assms
  by (auto simp: ss_establish_lineage_def quiet_def update_slot_def Let_def split: prod.splits if_splits)

lemma ss_log_flush_untouched: "untouched k (ss_log_flush P k)"
  by (auto simp: ss_log_flush_def untouched_def quiet_def Let_def outside_def split: prod.splits)

lemma ss_write_handoff_untouched: "untouched k (ss_write_handoff P k)"
proof -
  have "untouched k (fold (\<lambda>i k. let s = kn_slots k ! i in if \<not> s_pushed_any s then k
      else k\<lparr>kn_world := fat_write P SS_HANDOFF_PATH (handoff_line (s_game_id s) i (s_parent s)) (kn_world k)\<rparr>) is k)" for "is" k
    by (induction "is" arbitrary: k) (auto simp: Let_def untouched_def quiet_def)
  then show ?thesis
    by (auto simp: ss_write_handoff_def untouched_def quiet_def Let_def outside_def split: prod.splits)
qed

lemma fp_handoff_slots_untouched: "fp_handoff_slots P is k = Some k' \<Longrightarrow> untouched k k'"
proof (induction "is" arbitrary: k)
  case (Cons i js)
  then obtain k1 where k1: "fp_handoff_slot P i k = Some k1" "fp_handoff_slots P js k1 = Some k'"
    by (auto split: option.splits)
  then have "untouched k k1" by (auto simp: fp_handoff_slot_def untouched_def quiet_def Let_def split: if_splits)
  then show ?case using Cons.IH[OF k1(2)] untouched_trans by blast
qed simp

lemma ss_write_fp_handoff_untouched: "ss_write_fp_handoff P k = Some k' \<Longrightarrow> untouched k k'"
  using fp_handoff_slots_untouched
  by (fastforce simp: ss_write_fp_handoff_def untouched_def quiet_def Let_def outside_def split: prod.splits if_splits)

lemma flush_handoff_untouched:
  assumes "flush_handoff P k = Some k'"
  shows "untouched k k'"
proof (cases "kn_handoff_pending k")
  case True
  then obtain k1 where k1: "ss_write_fp_handoff P (ss_write_handoff P (k\<lparr>kn_handoff_pending := False\<rparr>)) = Some k1"
    "k' = ss_log_flush P k1" using assms by (auto simp: flush_handoff_def)
  have "untouched k (k\<lparr>kn_handoff_pending := False\<rparr>)" by (simp add: untouched_def quiet_def)
  also note ss_write_handoff_untouched[of _ P]
  also note ss_write_fp_handoff_untouched[OF k1(1)]
  also have "untouched k1 k'" unfolding k1(2) by (rule ss_log_flush_untouched)
  finally show ?thesis .
qed (use assms ss_log_flush_untouched in \<open>auto simp: flush_handoff_def\<close>)

lemma SlotSync_Poll_untouched:
  assumes "SlotSync_Poll P k = Some k'"
  shows "untouched k k'"
proof -
  obtain since k1 where k1: "(if kn_last_flush k \<noteq> 0 then outside (timer_diff_ticks P (kn_last_flush k)) k else (0, k)) = (since, k1)"
    by fastforce
  obtain now k2 where k2: "outside (hw_timer P) k1 = (now, k2)" by fastforce
  have 1: "untouched k k1" using k1 untouched_outside by (auto split: if_splits)
  have "untouched k k2" using 1 untouched_outside[OF k2] untouched_trans by blast
  also have "untouched k2 (k2\<lparr>kn_last_flush := now\<rparr>)" by (simp add: untouched_def quiet_def)
  finally have 2: "untouched k (k2\<lparr>kn_last_flush := now\<rparr>)" .
  have "k' = k \<or> k' = k1 \<or> flush_handoff P (k2\<lparr>kn_last_flush := now\<rparr>) = Some k'"
    using assms by (auto simp: SlotSync_Poll_def k1 k2 split: if_splits)
  then show ?thesis using 1 2 flush_handoff_untouched untouched_trans untouched_refl by blast
qed

lemma notify_slots:
  assumes "SlotSync_NotifyCardSaved P slot k = Some k'"
  obtains now where "untouched (with_slots (if notified slot k
     then (kn_slots k)[nat slot := (kn_slots k ! nat slot)\<lparr>s_dirty := True, s_dirty_at := now\<rparr>] else kn_slots k) k) k'"
proof (cases "notified slot k")
  case True
  obtain now k1 where k1: "outside (hw_timer P) (update_slot (nat slot) (\<lambda>s. s\<lparr>s_dirty := True\<rparr>) k) = (now, k1)"
    by fastforce
  then have f: "flush_handoff P (update_slot (nat slot) (\<lambda>s. s\<lparr>s_dirty_at := now\<rparr>) k1) = Some k'"
    using assms True by (auto simp: SlotSync_NotifyCardSaved_def notified_def not_le not_less)
  show ?thesis
    by (rule that[of now]) (use flush_handoff_untouched[OF f] untouched_outside[OF k1] True in
      \<open>auto simp: untouched_def quiet_def update_slot_def nth_list_update notified_def\<close>)
next
  case False
  then show ?thesis
    using assms that by (auto simp: SlotSync_NotifyCardSaved_def notified_def untouched_def quiet_def split: if_splits)
qed

lemma shutdown_finish_untouched: "shutdown_finish P k = Some k' \<Longrightarrow> untouched k k'"
  using flush_handoff_untouched[of P] by (fastforce simp: shutdown_finish_def untouched_def quiet_def split: if_splits)

subsection \<open>What a push does to its slot\<close>

lemma push_prepare_none:
  assumes "push_prepare P slot k = (None, k')"
  shows "quiet k k' \<or> quiet (with_slots ((kn_slots k)[slot := (kn_slots k ! slot)\<lparr>s_halted := True\<rparr>]) k) k'"
  using assms
  by (auto simp: push_prepare_def Let_def update_slot_def quiet_def split: option.splits prod.splits if_splits)

text \<open>The scan of a push, and the table and the bitmap after it.\<close>

abbreviation push_scan :: "'x platform \<Rightarrow> nat \<Rightarrow> u32 \<Rightarrow> 'x kernel \<Rightarrow> (u32 list \<times> byte list \<times> u32) option" where
  "push_scan P slot n k \<equiv> ss_fp_scan (card_image P slot k) n (ss_fp_table slot k) (kn_dirty_map k)"

definition scanned_table :: "'x platform \<Rightarrow> nat \<Rightarrow> u32 \<Rightarrow> 'x kernel \<Rightarrow> u32 list" where
  "scanned_table P slot n k =
     (case push_scan P slot n k of
        None \<Rightarrow> kn_fingerprints k
      | Some (table, dirty, m) \<Rightarrow> blit (kn_fingerprints k) (slot * ss_fp_share k) table)"

definition scanned_map :: "'x platform \<Rightarrow> nat \<Rightarrow> u32 \<Rightarrow> 'x kernel \<Rightarrow> byte list" where
  "scanned_map P slot n k =
     (case push_scan P slot n k of None \<Rightarrow> kn_dirty_map k | Some (table, dirty, m) \<Rightarrow> dirty)"

lemma fp_table_update_slot [simp]:
  "ss_fp_share (update_slot i f k) = ss_fp_share k" "ss_fp_table j (update_slot i f k) = ss_fp_table j k"
  by (simp_all add: ss_fp_share_def ss_fp_table_def)

lemma push_prepare_some:
  assumes "push_prepare P slot k = (Some (n, delta), k')"
  shows "n = card_size P slot (kn_world k)" "n \<noteq> 0"
    "kn_slots k' = (kn_slots k)[slot := (kn_slots k ! slot)\<lparr>s_dirty := False, s_fp_valid := False\<rparr>]"
    "kn_fingerprints k' = scanned_table P slot n k" "kn_dirty_map k' = scanned_map P slot n k"
    "ss_chunk_count n \<le> 16384" "delta \<Longrightarrow> s_fp_valid (kn_slots k ! slot) \<and> push_scan P slot n k \<noteq> None"
proof -
  define d where "d = update_slot slot (\<lambda>s. s\<lparr>s_dirty := False\<rparr>) k"
  obtain img where img: "card_base P slot (kn_world k) = Some img" "card_image P slot k = img"
    using assms by (auto simp: push_prepare_def card_image_def Let_def split: option.splits)
  obtain marked k1 where k1: "(case ss_fp_scan img (card_size P slot (kn_world k)) (ss_fp_table slot d) (kn_dirty_map d) of
        None \<Rightarrow> (None, d)
      | Some (table, dirty, m) \<Rightarrow> (Some m, put_fp_table slot table (d\<lparr>kn_dirty_map := dirty\<rparr>))) = (marked, k1)"
    by fastforce
  have n: "n = card_size P slot (kn_world k)" "n \<noteq> 0" and
    ks: "kn_slots k' = kn_slots (update_slot slot (\<lambda>s. s\<lparr>s_fp_valid := False\<rparr>) k1)"
    "kn_fingerprints k' = kn_fingerprints k1" "kn_dirty_map k' = kn_dirty_map k1"
    and c: "\<not> of_nat (SS_BITMAP_BYTES * 8) < ss_chunk_count n"
    and de: "delta \<Longrightarrow> s_fp_valid (kn_slots k1 ! slot) \<and> marked \<noteq> None"
    using assms unfolding push_prepare_def Let_def img(1) option.case d_def[symmetric] k1 prod.case
    by (auto split: if_splits option.splits)
  have d: "ss_fp_table slot d = ss_fp_table slot k" "ss_fp_share d = ss_fp_share k" "kn_dirty_map d = kn_dirty_map k"
    "kn_fingerprints d = kn_fingerprints k" by (simp_all add: d_def)
  have share: "ss_fp_share (d\<lparr>kn_dirty_map := x\<rparr>) = ss_fp_share k" for x by (simp add: d_def ss_fp_share_def)
  have k1s: "kn_slots k1 = kn_slots d" "kn_fingerprints k1 = scanned_table P slot n k"
    "kn_dirty_map k1 = scanned_map P slot n k" "marked = None \<longleftrightarrow> push_scan P slot n k = None"
    using k1 d(3,4) unfolding d(1-3) scanned_table_def scanned_map_def img(2) n(1)
    by (auto simp: put_fp_table_def share d(3)[symmetric] split: option.splits)
  show "n = card_size P slot (kn_world k)" "n \<noteq> 0" "kn_fingerprints k' = scanned_table P slot n k"
    "kn_dirty_map k' = scanned_map P slot n k"
    using n ks(2,3) k1s(2,3) by simp_all
  show "ss_chunk_count n \<le> 16384" using c by (simp add: SS_BITMAP_BYTES_def not_less)
  show "s_fp_valid (kn_slots k ! slot) \<and> push_scan P slot n k \<noteq> None" if delta
    using de[OF that] k1s(1,4)
    by (cases "slot < length (kn_slots k)") (auto simp: d_def update_slot_def list_update_beyond not_less)
  show "kn_slots k' = (kn_slots k)[slot := (kn_slots k ! slot)\<lparr>s_dirty := False, s_fp_valid := False\<rparr>]"
    using ks(1) k1s(1)
    by (cases "slot < length (kn_slots k)") (auto simp: d_def update_slot_def list_update_beyond not_less)
qed

lemma push_reconnect_slots:
  assumes "push_reconnect P slot k = (ok, k')"
  obtains now where "quiet (with_slots (if ok then kn_slots k
       else (kn_slots k)[slot := (kn_slots k ! slot)\<lparr>s_dirty := True, s_pushed_at := now\<rparr>]) k) k'"
proof -
  obtain live k1 where k1: "outside (net_live_ip P) k = (live, k1)" by fastforce
  define k2 where "k2 = (sslog P ''SlotSync: interface now %u.%u.%u.%u%s''
                (ip_args live @ [LStr (if live = 0 then ascii '' -- GONE'' else [])]) k1)"
  obtain ok3 k3 where k3: "ss_connect P (k2\<lparr>kn_world := net_close P (kn_world k2), kn_net_connected := False\<rparr>) = (ok3, k3)"
    by fastforce
  obtain now k4 where k4: "outside (hw_timer P) (update_slot slot (\<lambda>s. s\<lparr>s_dirty := True\<rparr>)
      (sslog P ''SlotSync: could not reconnect for the push'' [] k3)) = (now, k4)" by fastforce
  have q: "quiet k k3"
    using ss_connect_quiet[OF k3] untouched_outside[OF k1] by (simp add: untouched_def quiet_def k2_def)
  have e: "ok = ok3" "k' = (if ok then k3\<lparr>kn_net_connected := True, kn_worker_busy := True\<rparr>
      else update_slot slot (\<lambda>s. s\<lparr>s_pushed_at := now\<rparr>) k4)"
    using assms unfolding push_reconnect_def Let_def k1 prod.case k2_def[symmetric] k3 k4 by (auto split: if_splits)
  have "quiet (with_slots ((kn_slots k)[slot := (kn_slots k ! slot)\<lparr>s_dirty := True\<rparr>]) k) k4"
    using untouched_outside[OF k4] q by (simp add: untouched_def quiet_def update_slot_def)
  then show ?thesis
    using e(2) q that[of now]
    by (cases "slot < length (kn_slots k)") (auto simp: quiet_def update_slot_def list_update_beyond not_less split: if_splits)
qed

lemma push_transfer_quiet:
  assumes "push_transfer P slot n delta k = Some (rc, assigned, k')"
  shows "quiet k k'"
  using assms
  by (auto simp: push_transfer_def quiet_def Let_def split: option.splits prod.splits if_splits)

text \<open>A slot after its push ended, at time \<open>now\<close>.\<close>

definition settled :: "ss_result \<Rightarrow> u32 \<Rightarrow> byte list \<Rightarrow> u32 \<Rightarrow> ss_slot \<Rightarrow> ss_slot" where
  "settled rc assigned digest now s =
     (if rc = SS_OK then s\<lparr>s_parent := assigned, s_pushed_any := True, s_pushed_at := now,
         s_fp_valid := True, s_parent_sha := digest\<rparr>
      else if rc = SS_ERR_CONFLICT then s\<lparr>s_halted := True\<rparr>
      else s\<lparr>s_dirty := True, s_pushed_at := now\<rparr>)"

lemma push_settle_slots:
  obtains now where "untouched (with_slots
    ((kn_slots k)[slot := settled rc assigned (cl_last_digest (kn_client k)) now (kn_slots k ! slot)]) k)
    (push_settle P slot rc assigned k)"
proof -
  obtain n1 k1 where k1: "outside (hw_timer P) (update_slot slot (\<lambda>s. s\<lparr>s_parent := assigned, s_pushed_any := True\<rparr>) k) = (n1, k1)"
    by fastforce
  obtain n2 k2 where k2: "outside (hw_timer P) (update_slot slot (\<lambda>s. s\<lparr>s_dirty := True\<rparr>) k) = (n2, k2)"
    by fastforce
  note q = untouched_outside[OF k1] untouched_outside[OF k2]
  have "untouched (with_slots ((kn_slots k)[slot :=
     settled rc assigned (cl_last_digest (kn_client k)) (if rc = SS_OK then n1 else n2) (kn_slots k ! slot)]) k)
    (push_settle P slot rc assigned k)"
    using q unfolding push_settle_def k1 k2 Let_def prod.case settled_def untouched_def quiet_def
    by (cases "slot < length (kn_slots k)") (auto simp: update_slot_def list_update_beyond not_less)
  then show ?thesis by (rule that)
qed

subsection \<open>No save is lost\<close>

text \<open>What has become of the last save of slot \<open>i\<close>.\<close>

datatype save = Clean | Waiting | InFlight | Refused

fun save_status :: "nat \<Rightarrow> action list \<Rightarrow> save" where
  "save_status i [] = Clean"
| "save_status i (Saved j # t) = (if i = j then Waiting else save_status i t)"
| "save_status i (Began j p img n # t) =
     (if i = j \<and> save_status i t = Waiting then InFlight else save_status i t)"
| "save_status i (Abandoned j # t) =
     (if i = j \<and> save_status i t = InFlight then Waiting else save_status i t)"
| "save_status i (Transferred j img # t) = save_status i t"
| "save_status i (Ended j rc v # t) =
     (if i = j \<and> save_status i t = InFlight
      then (if rc = SS_OK then Clean else if rc = SS_ERR_CONFLICT then Refused else Waiting)
      else save_status i t)"

text \<open>The slot a push is under way for.\<close>

fun pushing :: "worker_at \<Rightarrow> nat option" where
  "pushing (AtReconnect i n d) = Some i"
| "pushing (AtTransfer i n d) = Some i"
| "pushing (AtSettle i rc v) = Some i"
| "pushing _ = None"

fun chosen :: "worker_at \<Rightarrow> nat option" where
  "chosen (AtPrepare i) = Some i"
| "chosen w = pushing w"

definition save_inv :: "action list \<Rightarrow> 'x kernel \<Rightarrow> worker_at \<Rightarrow> bool" where
  "save_inv tr k w \<longleftrightarrow> (\<forall>i. chosen w = Some i \<longrightarrow> i < length (kn_slots k)) \<and>
     (\<forall>i < length (kn_slots k).
        (save_status i tr = Waiting \<longrightarrow> s_dirty (kn_slots k ! i)) \<and>
        (save_status i tr = InFlight \<longrightarrow> pushing w = Some i) \<and>
        (save_status i tr = Refused \<longrightarrow> s_halted (kn_slots k ! i)))"

lemma save_inv_quiet:
  "save_inv tr k w \<Longrightarrow> kn_slots k' = kn_slots k \<Longrightarrow> chosen w' = chosen w \<Longrightarrow> pushing w' = pushing w \<Longrightarrow> save_inv tr k' w'"
  by (simp add: save_inv_def)

lemma worker_ends_quiet: "quiet k (worker_enter k)" "quiet k (worker_leave P k)" "untouched k (shutdown_request k)"
  by (simp_all add: worker_enter_def worker_leave_def shutdown_request_def untouched_def quiet_def Let_def)

lemma kernel_run_saves: "kernel_run P tr k w \<Longrightarrow> save_inv tr k w"
proof (induction rule: kernel_run.induct)
  case (init k0 k)
  then show ?case by (simp add: save_inv_def)
next
  case (around tr k w x)
  then show ?case by (simp add: save_inv_def)
next
  case (enter tr k)
  then show ?case using worker_ends_quiet(1)[of k] by (simp add: save_inv_def quiet_def)
next
  case (connect tr k ok k')
  then show ?case using ss_connect_quiet[of P k ok k'] by (simp add: save_inv_def quiet_def)
next
  case (idle tr k slot k')
  then show ?case using ss_should_push_untouched(1)[of P slot k False k'] by (simp add: save_inv_def untouched_def quiet_def)
next
  case (pick tr k slot k')
  then show ?case using ss_should_push_untouched(1)[of P slot k True k'] by (auto simp: save_inv_def untouched_def quiet_def)
next
  case (ask tr k slot k1 answer k2)
  then show ?case
    using ss_should_push_untouched(1)[of P slot k True k1] ss_establish_lineage_slots[of P slot k1 answer k2]
    by (auto simp: save_inv_def untouched_def quiet_def update_slot_def nth_list_update)
next
  case (skip tr k slot k')
  then show ?case using push_prepare_none[of P slot k k'] by (auto simp: save_inv_def quiet_def nth_list_update)
next
  case (begin_push tr k slot n delta k')
  then show ?case using push_prepare_some(3)[of P slot k n delta k'] by (auto simp: save_inv_def nth_list_update)
next
  case (give_up tr k slot n delta k')
  show ?case by (rule push_reconnect_slots[OF give_up.hyps(2)])
    (use give_up.IH in \<open>auto simp: save_inv_def quiet_def nth_list_update\<close>)
next
  case (reconnect tr k slot n delta k')
  show ?case by (rule push_reconnect_slots[OF reconnect.hyps(2)]) (use reconnect.IH in \<open>auto simp: save_inv_def quiet_def\<close>)
next
  case (transfer tr k slot n delta rc assigned k')
  then show ?case using push_transfer_quiet[of P slot n delta k rc assigned k'] by (auto simp: save_inv_def quiet_def)
next
  case (settle tr k slot rc assigned)
  show ?case by (rule push_settle_slots[where P = P and slot = slot and rc = rc and assigned = assigned and k = k])
    (use settle.IH in \<open>auto simp: save_inv_def untouched_def quiet_def nth_list_update settled_def\<close>)
next
  case (leave tr k)
  then show ?case using worker_ends_quiet(2)[where k = k] by (simp add: save_inv_def quiet_def)
next
  case (notify tr k w slot k')
  show ?case by (rule notify_slots[OF notify.hyps(2)])
    (use notify.IH in \<open>auto simp: save_inv_def untouched_def quiet_def nth_list_update notified_def\<close>)
next
  case (poll tr k w k')
  then show ?case using SlotSync_Poll_untouched[of P k k'] by (auto simp: save_inv_def untouched_def quiet_def)
next
  case (stop tr k w)
  then show ?case using worker_ends_quiet(3)[of k] by (simp add: save_inv_def untouched_def quiet_def)
next
  case (finish tr k w k')
  then show ?case using shutdown_finish_untouched[of P k k'] by (auto simp: save_inv_def untouched_def quiet_def)
qed

end
