(* ===== verification/SS_RunInv.thy ===== *)
theory SS_RunInv
  imports SS_Runtime
begin

text \<open>
  Invariants of the runs of the kernel module (\<open>SS_Runtime\<close>): the lineage a push names, the cards that are left alone, and
  what the fingerprint tables describe.
\<close>

subsection \<open>Lineage and conflicts\<close>

text \<open>The version the last confirmed push of slot \<open>i\<close> reached, and whether a push of it was ever told of a conflict.\<close>

fun last_version :: "nat \<Rightarrow> action list \<Rightarrow> u32 option" where
  "last_version i [] = None"
| "last_version i (Ended j rc v # t) = (if i = j \<and> rc = SS_OK then Some v else last_version i t)"
| "last_version i (_ # t) = last_version i t"

fun in_conflict :: "nat \<Rightarrow> action list \<Rightarrow> bool" where
  "in_conflict i [] = False"
| "in_conflict i (Ended j rc v # t) = (i = j \<and> rc = SS_ERR_CONFLICT \<or> in_conflict i t)"
| "in_conflict i (_ # t) = in_conflict i t"

text \<open>Every push names the last version reached as its parent, and none follows a conflict.\<close>

fun lawful :: "action list \<Rightarrow> bool" where
  "lawful [] = True"
| "lawful (Began i p img n # t) \<longleftrightarrow>
     (case last_version i t of None \<Rightarrow> True | Some v \<Rightarrow> p = v) \<and> \<not> in_conflict i t \<and> lawful t"
| "lawful (_ # t) = lawful t"

definition lineage_inv :: "action list \<Rightarrow> 'x kernel \<Rightarrow> worker_at \<Rightarrow> bool" where
  "lineage_inv tr k w \<longleftrightarrow> lawful tr \<and>
     (\<forall>i. chosen w = Some i \<longrightarrow> i < length (kn_slots k) \<and> s_lineage (kn_slots k ! i) \<and> \<not> s_halted (kn_slots k ! i)) \<and>
     (\<forall>i < length (kn_slots k).
        (\<forall>v. last_version i tr = Some v \<longrightarrow> s_parent (kn_slots k ! i) = v \<and> s_lineage (kn_slots k ! i)) \<and>
        (in_conflict i tr \<longrightarrow> s_halted (kn_slots k ! i)))"

lemma lineage_inv_quiet:
  "quiet k k' \<Longrightarrow> lineage_inv tr k w \<Longrightarrow> chosen w' = None \<or> chosen w' = chosen w \<Longrightarrow> lineage_inv tr k' w'"
  by (auto simp: lineage_inv_def quiet_def)

lemma kernel_run_lineage: "kernel_run P tr k w \<Longrightarrow> lineage_inv tr k w"
proof (induction rule: kernel_run.induct)
  case (init k0 k)
  then show ?case by (simp add: lineage_inv_def)
next
  case (around tr k w x)
  then show ?case by (simp add: lineage_inv_def)
next
  case (enter tr k)
  show ?case by (rule lineage_inv_quiet[OF worker_ends_quiet(1) enter.IH]) simp
next
  case (connect tr k ok k')
  then show ?case using ss_connect_quiet[of P k ok k'] by (simp add: lineage_inv_def quiet_def)
next
  case (idle tr k slot k')
  show ?case by (rule lineage_inv_quiet[OF untouched_quiet[OF ss_should_push_untouched(1)[OF idle.hyps(3)]] idle.IH]) simp
next
  case (pick tr k slot k')
  then show ?case using ss_should_push_untouched[of P slot k True k'] by (auto simp: lineage_inv_def untouched_def quiet_def)
next
  case (ask tr k slot k1 answer k2)
  then show ?case
    using ss_should_push_untouched[of P slot k True k1] ss_establish_lineage_slots[of P slot k1 answer k2]
    by (auto simp: lineage_inv_def untouched_def quiet_def update_slot_def nth_list_update)
next
  case (skip tr k slot k')
  then show ?case using push_prepare_none[of P slot k k'] by (auto simp: lineage_inv_def untouched_def quiet_def nth_list_update)
next
  case (begin_push tr k slot n delta k')
  then show ?case using push_prepare_some(3)[of P slot k n delta k']
    by (auto simp: lineage_inv_def untouched_def quiet_def nth_list_update split: option.split)
next
  case (give_up tr k slot n delta k')
  show ?case by (rule push_reconnect_slots[OF give_up.hyps(2)])
    (use give_up.IH in \<open>auto simp: lineage_inv_def untouched_def quiet_def nth_list_update\<close>)
next
  case (reconnect tr k slot n delta k')
  show ?case by (rule push_reconnect_slots[OF reconnect.hyps(2)]) (use reconnect.IH in \<open>auto simp: lineage_inv_def untouched_def quiet_def\<close>)
next
  case (transfer tr k slot n delta rc assigned k')
  then show ?case using push_transfer_quiet[of P slot n delta k rc assigned k'] by (auto simp: lineage_inv_def untouched_def quiet_def)
next
  case (settle tr k slot rc assigned)
  show ?case by (rule push_settle_slots[where P = P and slot = slot and rc = rc and assigned = assigned and k = k])
    (use settle.IH in \<open>auto simp: lineage_inv_def untouched_def quiet_def nth_list_update settled_def\<close>)
next
  case (leave tr k)
  show ?case by (rule lineage_inv_quiet[OF worker_ends_quiet(2) leave.IH]) simp
next
  case (notify tr k w slot k')
  show ?case by (rule notify_slots[OF notify.hyps(2)])
    (use notify.IH in \<open>auto simp: lineage_inv_def untouched_def quiet_def nth_list_update notified_def split: if_splits\<close>)
next
  case (poll tr k w k')
  show ?case by (rule lineage_inv_quiet[OF untouched_quiet[OF SlotSync_Poll_untouched[OF poll.hyps(2)]] poll.IH]) simp
next
  case (stop tr k w)
  show ?case by (rule lineage_inv_quiet[OF untouched_quiet[OF worker_ends_quiet(3)] stop.IH]) simp
next
  case (finish tr k w k')
  show ?case by (rule lineage_inv_quiet[OF untouched_quiet[OF shutdown_finish_untouched[OF finish.hyps(2)]] finish.IH]) simp
qed

subsection \<open>Tables of fingerprints\<close>

text \<open>What initialising leaves: the flags of pushes, and the sizes.\<close>

definition shape :: "'x kernel \<Rightarrow> bool list \<times> nat \<times> nat" where
  "shape k = (map s_pushed_any (kn_slots k), length (kn_fingerprints k), length (kn_dirty_map k))"

definition sized :: "'x kernel \<Rightarrow> bool" where
  "sized k \<longleftrightarrow> length (kn_slots k) \<in> {1, 2} \<and> length (kn_fingerprints k) = 2048 \<and> length (kn_dirty_map k) = 2048"

lemma sized_shape: "shape k' = shape k \<Longrightarrow> sized k' = sized k"
  by (auto simp: sized_def shape_def dest!: arg_cong[where f = length])

lemma sized_quiet: "quiet k k' \<Longrightarrow> sized k' = sized k"
  by (simp add: sized_def quiet_def)

lemma shape_simps [simp]:
  "shape (sslog P fmt args k) = shape k" "shape (k\<lparr>kn_cfg := c\<rparr>) = shape k" "shape (k\<lparr>kn_world := x\<rparr>) = shape k"
  by (simp_all add: shape_def)

lemma shape_update_slot:
  "(\<And>s. s_pushed_any (f s) = s_pushed_any s) \<Longrightarrow> shape (update_slot i f k) = shape k"
  by (cases "i < length (kn_slots k)")
    (simp_all add: shape_def update_slot_def map_update list_update_beyond list_update_same_conv)

lemma shape_quiet: "quiet k k' \<Longrightarrow> shape k' = shape k"
  by (simp add: shape_def quiet_def)

lemma fp_slice: "sized k \<Longrightarrow> i < length (kn_slots k) \<Longrightarrow> i * ss_fp_share k + ss_fp_share k \<le> 2048"
  by (auto simp: sized_def ss_fp_share_def SS_FP_ENTRIES_def less_Suc_eq)

lemma length_ss_fp_table: "sized k \<Longrightarrow> i < length (kn_slots k) \<Longrightarrow> length (ss_fp_table i k) = ss_fp_share k"
  using fp_slice[of k i] by (simp add: ss_fp_table_def sized_def)

lemma shape_put_fp_table:
  "sized k \<Longrightarrow> i < length (kn_slots k) \<Longrightarrow> length T = ss_fp_share k \<Longrightarrow> shape (put_fp_table i T k) = shape k"
  using fp_slice[of k i] by (simp add: shape_def put_fp_table_def sized_def)

lemma length_get_values [simp]: "length (ss_fp_get_values T p n) = length T"
  unfolding ss_fp_get_values_def by (induction n) simp_all

lemma length_read_values: "length (fst (read_values f pos T i left)) = length T"
proof (induction f pos T i left rule: read_values.induct)
  case (1 f pos T i left)
  then show ?case
    by (subst read_values.simps) (auto simp: Let_def split: option.splits)
qed

lemma load_records_shape:
  assumes "sized k" "slot < length (kn_slots k)"
  shows "shape (snd (load_records P f pos n slot g parent sz sha k)) = shape k"
proof (induction n arbitrary: pos)
  case (Suc n)
  have "shape (put_fp_table slot (fst (read_values f p (ss_fp_table slot k) 0 m)) k) = shape k" for p m
    by (rule shape_put_fp_table[OF assms]) (simp add: length_read_values length_ss_fp_table[OF assms])
  then show ?case using Suc by (auto simp: Let_def split: option.splits prod.splits) (metis fst_conv)+
qed simp

lemma ss_load_fingerprints_shape:
  assumes "sized k" "slot < length (kn_slots k)"
  shows "shape (snd (ss_load_fingerprints P slot g parent n sha k)) = shape k"
  using load_records_shape[OF assms] by (simp add: ss_load_fingerprints_def split: option.split)

lemma init_slot_shape:
  assumes "sized k" "slot < length (kn_slots k)"
  shows "shape (snd (init_slot P slot k)) = shape k"
proof -
  define begun where "begun g v sha = sslog P ''SlotSync: slot %c is %s at v%u'' [slot_letter slot, LStr g, LNum v]
    (update_slot slot (\<lambda>s. s\<lparr>s_parent := v, s_parent_sha := sha, s_lineage := True\<rparr>)
       (update_slot slot (\<lambda>s. s\<lparr>s_game_id := g\<rparr>) k))" for g v sha
  have s: "shape (begun g v sha) = shape k" for g v sha by (simp add: begun_def shape_update_slot)
  have "length (kn_slots (begun g v sha)) = length (kn_slots k)" for g v sha by (simp add: begun_def update_slot_def sslog_def SlotSync_Log_def Let_def)
  then have f: "shape (snd (ss_load_fingerprints P slot g v n sha (begun g v sha))) = shape k" for g v n sha
    using ss_load_fingerprints_shape[of "begun g v sha" slot] sized_shape[OF s] assms s by simp
  show ?thesis
  proof (cases "card_enabled P slot (kn_world k) \<and> fst (ss_resolve_game_id P slot k)")
    case True
    obtain g where g: "ss_resolve_game_id P slot k = (True, g)" using True by (cases "ss_resolve_game_id P slot k") simp
    show ?thesis
    proof (cases "ss_load_parent P g slot (update_slot slot (\<lambda>s. s\<lparr>s_game_id := g\<rparr>) k)")
      case None
      then show ?thesis using True g by (simp add: init_slot_def shape_update_slot)
    next
      case (Some r)
      obtain v sha where r: "r = (v, sha)" by (cases r)
      obtain ok k2 where k2: "ss_load_fingerprints P slot g v (card_size P slot (kn_world (begun g v sha))) sha (begun g v sha) = (ok, k2)"
        by fastforce
      have "init_slot P slot k = (if ok then (True, sslog P ''SlotSync: slot %c can delta from v%u straight away''
          [slot_letter slot, LNum v] (update_slot slot (\<lambda>s. s\<lparr>s_fp_valid := True\<rparr>) k2)) else (True, k2))"
        using True g Some k2 by (simp add: init_slot_def r begun_def)
      then show ?thesis using f[of g v "card_size P slot (kn_world (begun g v sha))" sha] k2 by (simp add: shape_update_slot)
    qed
  next
    case False
    then show ?thesis by (auto simp: init_slot_def shape_update_slot split: prod.split)
  qed
qed

lemma init_slots_shape:
  assumes "sized k" "\<forall>i \<in> set is. i < length (kn_slots k)"
  shows "shape (snd (init_slots P is u k)) = shape k"
  using assms
proof (induction "is" arbitrary: u k)
  case (Cons i js)
  obtain ok k1 where k1: "init_slot P i k = (ok, k1)" by fastforce
  then have s: "shape k1 = shape k" using init_slot_shape[of k i P] Cons.prems by simp
  then have "length (kn_slots k1) = length (kn_slots k)" by (auto simp: shape_def dest!: arg_cong[where f = length])
  then show ?case using Cons s k1 sized_shape[OF s] by simp
qed simp

lemma SlotSync_Init_shape:
  assumes "well_sized k0" "SlotSync_Init P k0 = (True, k)"
  shows "sized k" "\<forall>s \<in> set (kn_slots k). \<not> s_pushed_any s"
proof -
  define k1 where "k1 = k0\<lparr>kn_slots := map (\<lambda>_. empty_slot) (kn_slots k0)\<rparr>"
  obtain now k2 where k2: "outside (get_current_time P) k1 = (now, k2)" by fastforce
  define k3 where "k3 = k2\<lparr>kn_boot_time := now, kn_worker_stop := False, kn_worker_running := False, kn_worker_busy := False\<rparr>"
  obtain ok k4 where k4: "ss_load_config P k3 = (ok, k4)" by fastforce
  obtain u k5 where k5: "init_slots P [0..<length (kn_slots k4)] 0 k4 = (u, k5)" by fastforce
  obtain up k6 where k6: "outside (net_bring_up P SS_INIT_NET_BUDGET_MS) k5 = (up, k6)" by fastforce
  have "sized k1" using assms(1) by (simp add: well_sized_def sized_def k1_def SS_FP_ENTRIES_def SS_BITMAP_BYTES_def)
  moreover have "shape k4 = shape k3"
    using k4 by (auto simp: ss_load_config_def shape_def Let_def split: option.splits prod.splits if_splits)
  moreover have "shape k3 = shape k1" using shape_quiet[OF untouched_quiet[OF untouched_outside[OF k2]]] by (simp add: k3_def shape_def)
  ultimately have s4: "shape k4 = shape k1" "sized k4" using sized_shape[of k4 k1] by simp_all
  have "shape k5 = shape k4" using init_slots_shape[OF s4(2), of "[0..<length (kn_slots k4)]" P 0] k5 by simp
  moreover have "shape k = shape k5"
    using assms(2) shape_quiet[OF untouched_quiet[OF ss_log_flush_untouched[of _ P]]] shape_quiet[OF untouched_quiet[OF untouched_outside[OF k6]]]
    unfolding SlotSync_Init_def Let_def k1_def[symmetric] k2 prod.case k3_def[symmetric] k4 k5 k6
    by (auto split: if_splits)
  ultimately have s: "shape k = shape k1" using s4(1) by simp
  show "sized k" using sized_shape[OF s] s4(2) sized_shape[OF s4(1)] by simp
  have "map s_pushed_any (kn_slots k) = map (\<lambda>_. False) (kn_slots k0)"
    using s by (simp add: shape_def k1_def empty_slot_def)
  then have "True \<notin> s_pushed_any ` set (kn_slots k)" by (metis (mono_tags) image_iff list.set_map)
  then show "\<forall>s \<in> set (kn_slots k). \<not> s_pushed_any s" by (metis imageI)
qed

text \<open>What the last push of slot \<open>i\<close> scanned, with the size, and what it has transferred since.\<close>

fun last_scan :: "nat \<Rightarrow> action list \<Rightarrow> (byte list \<times> u32) option" where
  "last_scan i [] = None"
| "last_scan i (Began j p img n # t) = (if i = j then Some (img, n) else last_scan i t)"
| "last_scan i (_ # t) = last_scan i t"

fun last_sent :: "nat \<Rightarrow> action list \<Rightarrow> byte list option" where
  "last_sent i [] = None"
| "last_sent i (Began j p img n # t) = (if i = j then None else last_sent i t)"
| "last_sent i (Transferred j img # t) = (if i = j then Some img else last_sent i t)"
| "last_sent i (_ # t) = last_sent i t"

text \<open>
  The table \<open>T\<close> holds the fingerprints of the \<open>n\<close> bytes of \<open>img\<close>, provided the card has room in the table and the block
  count does not wrap.
\<close>

definition describes :: "u32 list \<Rightarrow> byte list \<Rightarrow> u32 \<Rightarrow> bool" where
  "describes T img n \<longleftrightarrow>
     (unat n + 8191 < 2 ^ 32 \<and> unat n \<le> length img \<and> block_count (unat n) \<le> length T \<longrightarrow>
        (\<forall>b < block_count (unat n). T ! b = block_hash img (unat n) b))"

definition scan_noted :: "nat \<Rightarrow> action list \<Rightarrow> 'x kernel \<Rightarrow> u32 \<Rightarrow> bool" where
  "scan_noted i tr k n \<longleftrightarrow> \<not> s_fp_valid (kn_slots k ! i) \<and>
     (\<exists>img. last_scan i tr = Some (img, n) \<and> describes (ss_fp_table i k) img n)"

definition digest_noted :: "nat \<Rightarrow> action list \<Rightarrow> byte list \<Rightarrow> u32 \<Rightarrow> bool" where
  "digest_noted i tr digest n \<longleftrightarrow> (\<exists>sent. last_sent i tr = Some sent \<and> digest = sha256 (take (unat n) sent))"

fun at_ok :: "action list \<Rightarrow> 'x kernel \<Rightarrow> worker_at \<Rightarrow> bool" where
  "at_ok tr k (AtReconnect i n d) \<longleftrightarrow> scan_noted i tr k n"
| "at_ok tr k (AtTransfer i n d) \<longleftrightarrow> scan_noted i tr k n \<and> cl_last_error_code (kn_client k) = 0"
| "at_ok tr k (AtSettle i rc v) \<longleftrightarrow>
     (\<exists>n. scan_noted i tr k n \<and> (rc = SS_OK \<longrightarrow> digest_noted i tr (cl_last_digest (kn_client k)) n))"
| "at_ok tr k w \<longleftrightarrow> True"

text \<open>What is true of a slot whose table the next handoff will pass on.\<close>

definition handed :: "nat \<Rightarrow> action list \<Rightarrow> 'x kernel \<Rightarrow> bool" where
  "handed i tr k \<longleftrightarrow> (\<exists>img n sent. last_scan i tr = Some (img, n) \<and> describes (ss_fp_table i k) img n \<and>
     last_sent i tr = Some sent \<and> s_parent_sha (kn_slots k ! i) = sha256 (take (unat n) sent))"

definition table_inv :: "action list \<Rightarrow> 'x kernel \<Rightarrow> worker_at \<Rightarrow> bool" where
  "table_inv tr k w \<longleftrightarrow> sized k \<and> at_ok tr k w \<and>
     (\<forall>i < length (kn_slots k). s_pushed_any (kn_slots k ! i) \<and> s_fp_valid (kn_slots k ! i) \<longrightarrow> handed i tr k)"

lemma ss_fp_table_quiet: "quiet k k' \<Longrightarrow> ss_fp_table i k' = ss_fp_table i k"
  by (simp add: quiet_def ss_fp_table_def ss_fp_share_def)

lemma scan_noted_quiet: "quiet k k' \<Longrightarrow> scan_noted i tr k' n = scan_noted i tr k n"
  using ss_fp_table_quiet[of k k' i] by (simp add: scan_noted_def quiet_def)

lemma handed_quiet: "quiet k k' \<Longrightarrow> handed i tr k' = handed i tr k"
  using ss_fp_table_quiet[of k k' i] by (simp add: handed_def quiet_def)

lemma table_inv_quiet:
  assumes "table_inv tr k w" "quiet k k'" "at_ok tr k' w'"
  shows "table_inv tr k' w'"
  using assms sized_quiet[OF assms(2)] handed_quiet[OF assms(2)] by (simp add: table_inv_def quiet_def)

lemma at_ok_untouched:
  assumes "untouched k k'"
  shows "at_ok tr k' w = at_ok tr k w"
proof -
  have "scan_noted i tr k' n = scan_noted i tr k n" for i n by (rule scan_noted_quiet[OF untouched_quiet[OF assms]])
  then show ?thesis using assms by (cases w) (simp_all add: untouched_def)
qed

lemma table_inv_untouched: "table_inv tr k w \<Longrightarrow> untouched k k' \<Longrightarrow> table_inv tr k' w"
  using table_inv_quiet[of tr k w k' w] at_ok_untouched[of k k' tr w] untouched_quiet[of k k']
  by (simp add: table_inv_def)

text \<open>A connection that was made leaves no error behind, and a push that was confirmed the digest of its card.\<close>

lemma ss_connect_error_code:
  assumes "ss_connect P k = (True, k')"
  shows "cl_last_error_code (kn_client k') = 0"
proof -
  have h: "cl_last_error_code c' = 0"
    if "ss_hello (give_client (sslog P f2 a2 (sslog P f1 a1 (k1\<lparr>kn_client := hello_client P now k2\<rparr>)))) = (SS_OK, out, c')"
    for c' out f1 f2 a1 a2 k1 k2 now
    using ss_hello_reported[OF that]
    by (simp add: reported_def give_client_def hello_client_def ss_client_init_def Let_def)
  show ?thesis
    using assms by (auto simp: ss_connect_def Let_def split: prod.splits if_splits dest: h)
qed

lemma push_reconnect_error_code:
  "push_reconnect P slot k = (True, k') \<Longrightarrow> cl_last_error_code (kn_client k') = 0"
  by (auto simp: push_reconnect_def Let_def split: prod.splits if_splits dest: ss_connect_error_code)

lemma push_transfer_digest:
  assumes "push_transfer P slot n delta k = Some (SS_OK, assigned, k')" "cl_last_error_code (kn_client k) = 0"
  shows "cl_last_digest (kn_client k') = sha256 (take (unat n) (card_image P slot k))"
proof -
  define s where "s = kn_slots k ! slot"
  obtain rc v bm c where p: "ss_push_delta (give_client k) (s_game_id s) (of_nat slot) (card_image P slot k) n (s_parent s)
      (s_parent s + 1) (if delta then Some (kn_dirty_map k) else None) (kn_bitmap k) = Some (rc, v, bm, c)"
    using assms(1) by (auto simp: push_transfer_def s_def Let_def split: option.splits)
  obtain hrc head c2 where h: "ss_head c (s_game_id s) (of_nat slot) = (hrc, head, c2)" by (cases "ss_head c (s_game_id s) (of_nat slot)")
  have d: "cl_last_digest c2 = cl_last_digest c" using ss_head_kept[OF h] by (simp add: kept_def)
  have e: "rc = SS_OK \<or> cl_last_error_code c = SS_NACK_STAGING_EXPIRED"
    "kn_client k' = c \<or> kn_client k' = c2"
    using assms(1) by (auto simp: push_transfer_def s_def[symmetric] p h Let_def split: if_splits)
  have "cl_last_error_code (give_client k) \<noteq> SS_NACK_STAGING_EXPIRED"
    using assms(2) by (simp add: give_client_def SS_NACK_STAGING_EXPIRED_def)
  then have "cl_last_digest c = sha256 (take (unat n) (card_image P slot k))"
    using ss_push_delta_digest[OF p] e(1) by blast
  then show ?thesis using e(2) d by auto
qed

lemma ss_fp_scan_lengths:
  assumes "ss_fp_scan img n fp dirty = Some (fp', dirty', m)"
  shows "length fp' = length fp" "length dirty' = length dirty"
proof -
  have mk: "length (fst (fold mark_chunk ks (d, c))) = length d" for ks d c
    by (induction ks arbitrary: d c) (simp_all add: mark_chunk_def)
  have sc: "length (fst (scan_block img n ch b t)) = length (fst t) \<and>
      length (fst (snd (scan_block img n ch b t))) = length (fst (snd t))" for ch b t
    using mk by (auto simp: scan_block_def Let_def split: prod.split)
  have "length (fst (fold (scan_block img n ch) bs t)) = length (fst t) \<and>
      length (fst (snd (fold (scan_block img n ch) bs t))) = length (fst (snd t))" for ch bs t
    by (induction bs arbitrary: t) (simp_all add: sc)
  from this[of _ _ "(_, _, _)"] show "length fp' = length fp" "length dirty' = length dirty"
    using assms by (auto simp: ss_fp_scan_def Let_def not_less split: if_splits) (metis fst_conv snd_conv length_memset)+
qed

lemma scan_describes:
  assumes "n \<noteq> 0" "ss_chunk_count n \<le> 16384" "length dirty = 2048"
  shows "ss_fp_scan img n T dirty = None \<Longrightarrow> describes T img n"
    and "ss_fp_scan img n T dirty = Some (T', dirty', m) \<Longrightarrow> describes T' img n"
proof -
  have fits: "(chunk_count (unat n) + 7) div 8 \<le> 2048" if "unat n + 8191 < 2 ^ 32"
  proof -
    have "ss_chunk_count n = (n + SS_FP_CHUNK_SIZE - 1) div SS_FP_CHUNK_SIZE"
      by (simp add: ss_chunk_count_def SS_MAX_PAYLOAD_def SS_FP_CHUNK_SIZE_def)
    then have "chunk_count (unat n) = unat (ss_chunk_count n)" using unat_fp_counts(2)[OF that] by simp
    then show ?thesis using assms(2) by (simp add: word_le_nat_alt)
  qed
  show "describes T img n" if "ss_fp_scan img n T dirty = None"
    using that ss_fp_scan_spec(1)[of n img T dirty] fits assms(1,3) by (auto simp: describes_def)
  show "describes T' img n" if "ss_fp_scan img n T dirty = Some (T', dirty', m)"
    using ss_fp_scan_spec(2)[of n img T dirty T' dirty' m] that assms(1) by (auto simp: describes_def)
qed

lemma fp_tables_apart:
  assumes "sized k" "i < length (kn_slots k)" "j < length (kn_slots k)" "i \<noteq> j" "length T = ss_fp_share k"
  shows "bytes_at (blit (kn_fingerprints k) (i * ss_fp_share k) T) (j * ss_fp_share k) (ss_fp_share k) = ss_fp_table j k"
proof -
  have fp: "length (kn_fingerprints k) = 2048" using assms(1) by (simp add: sized_def)
  note fits = fp_slice[OF assms(1,2)] fp_slice[OF assms(1,3)]
  consider "j * ss_fp_share k + ss_fp_share k \<le> i * ss_fp_share k" | "i * ss_fp_share k + ss_fp_share k \<le> j * ss_fp_share k"
    using assms(4) mult_le_mono1[of "Suc j" i "ss_fp_share k"] mult_le_mono1[of "Suc i" j "ss_fp_share k"]
    by (fastforce simp: add.commute)
  then show ?thesis
    using fits fp assms(5) by cases (simp_all add: ss_fp_table_def bytes_at_blit_before bytes_at_blit_after)
qed

lemma push_prepare_tables:
  assumes "sized k" "slot < length (kn_slots k)" "push_prepare P slot k = (Some (n, delta), k')"
  shows "sized k'" "describes (ss_fp_table slot k') (card_image P slot k) n"
    and "j < length (kn_slots k) \<Longrightarrow> j \<noteq> slot \<Longrightarrow> ss_fp_table j k' = ss_fp_table j k"
proof -
  note p = push_prepare_some[OF assms(3)]
  note d = scan_describes[OF p(2,6), of "kn_dirty_map k" "card_image P slot k" "ss_fp_table slot k"]
  have dm: "length (kn_dirty_map k) = 2048" and fp: "length (kn_fingerprints k) = 2048" using assms(1) by (simp_all add: sized_def)
  have share: "ss_fp_share k' = ss_fp_share k" using p(3) by (simp add: ss_fp_share_def)
  have tab: "ss_fp_table j k' = bytes_at (scanned_table P slot n k) (j * ss_fp_share k) (ss_fp_share k)" for j
    using p(4) share by (simp add: ss_fp_table_def)
  have "sized k' \<and> describes (ss_fp_table slot k') (card_image P slot k) n \<and>
      (\<forall>j < length (kn_slots k). j \<noteq> slot \<longrightarrow> ss_fp_table j k' = ss_fp_table j k)"
  proof (cases "push_scan P slot n k")
    case None
    then show ?thesis
      using d(1)[OF dm] p(3-5) assms(1) tab
      by (simp add: scanned_table_def scanned_map_def sized_def flip: ss_fp_table_def)
  next
    case (Some r)
    obtain T m M where r: "r = (T, m, M)" by (cases r)
    have len: "length T = ss_fp_share k" "length m = 2048"
      using ss_fp_scan_lengths[OF Some[unfolded r]] length_ss_fp_table[OF assms(1,2)] dm by simp_all
    have "ss_fp_table slot k' = T"
      using tab[of slot] fp_slice[OF assms(1,2)] fp len by (simp add: scanned_table_def Some r bytes_at_blit_same)
    moreover have "ss_fp_table j k' = ss_fp_table j k" if "j < length (kn_slots k)" "j \<noteq> slot" for j
      using tab[of j] fp_tables_apart[OF assms(1,2) that(1) that(2)[symmetric] len(1)] by (simp add: scanned_table_def Some r)
    moreover have "sized k'"
      using p(3-5) assms(1) fp_slice[OF assms(1,2)] len fp by (simp add: sized_def scanned_table_def scanned_map_def Some r)
    ultimately show ?thesis using d(2)[OF dm Some[unfolded r]] by simp
  qed
  then show "sized k'" "describes (ss_fp_table slot k') (card_image P slot k) n"
    "j < length (kn_slots k) \<Longrightarrow> j \<noteq> slot \<Longrightarrow> ss_fp_table j k' = ss_fp_table j k" by simp_all
qed

text \<open>The steps that touch more than one part of the invariant.\<close>

lemma table_inv_slots:
  assumes "table_inv tr k w" "quiet (with_slots ss k) k'" "length ss = length (kn_slots k)" "at_ok tr' k' w'"
    and "\<And>i. i < length ss \<Longrightarrow> s_pushed_any (ss ! i) \<and> s_fp_valid (ss ! i) \<Longrightarrow>
      s_pushed_any (kn_slots k ! i) \<and> s_fp_valid (kn_slots k ! i) \<and> s_parent_sha (ss ! i) = s_parent_sha (kn_slots k ! i) \<and>
      last_scan i tr' = last_scan i tr \<and> last_sent i tr' = last_sent i tr"
  shows "table_inv tr' k' w'"
proof -
  have k': "kn_slots k' = ss" "kn_fingerprints k' = kn_fingerprints k" "kn_dirty_map k' = kn_dirty_map k"
    using assms(2) by (simp_all add: quiet_def)
  have tab: "ss_fp_table i k' = ss_fp_table i k" for i by (simp add: ss_fp_table_def ss_fp_share_def k' assms(3))
  have "handed i tr' k'" if "i < length ss" "s_pushed_any (ss ! i) \<and> s_fp_valid (ss ! i)" for i
    using assms(1,3) assms(5)[OF that] that by (simp add: table_inv_def handed_def tab k')
  then show ?thesis using assms(1,3,4) by (simp add: table_inv_def sized_def k')
qed

lemma table_inv_begin:
  assumes "table_inv tr k (AtPrepare slot)" "slot < length (kn_slots k)"
    and "push_prepare P slot k = (Some (n, delta), k')"
  shows "table_inv (Began slot p (card_image P slot k) n # tr) k' (AtReconnect slot n delta)"
proof -
  note t = push_prepare_tables[OF _ assms(2,3)]
  have sz: "sized k" using assms(1) by (simp add: table_inv_def)
  have sl: "kn_slots k' = (kn_slots k)[slot := (kn_slots k ! slot)\<lparr>s_dirty := False, s_fp_valid := False\<rparr>]"
    by (rule push_prepare_some(3)[OF assms(3)])
  have "handed i (Began slot p (card_image P slot k) n # tr) k'"
    if "i < length (kn_slots k)" "s_pushed_any (kn_slots k' ! i)" "s_fp_valid (kn_slots k' ! i)" for i
    using that assms(1,2) t(3)[OF sz that(1)] by (auto simp: sl nth_list_update table_inv_def handed_def split: if_splits)
  then show ?thesis using t(1,2)[OF sz] assms(2) by (simp add: table_inv_def scan_noted_def sl)
qed

lemma table_inv_settle:
  assumes "table_inv tr k (AtSettle slot rc assigned)" "slot < length (kn_slots k)"
  shows "table_inv (Ended slot rc assigned # tr) (push_settle P slot rc assigned k) AtLoop"
proof (rule push_settle_slots[where P = P and slot = slot and rc = rc and assigned = assigned and k = k])
  fix now
  let ?k' = "push_settle P slot rc assigned k"
    and ?s = "settled rc assigned (cl_last_digest (kn_client k)) now (kn_slots k ! slot)"
  assume u: "untouched (with_slots ((kn_slots k)[slot := ?s]) k) ?k'"
  then have k': "kn_slots ?k' = (kn_slots k)[slot := ?s]" "kn_fingerprints ?k' = kn_fingerprints k"
    "kn_dirty_map ?k' = kn_dirty_map k" by (simp_all add: untouched_def quiet_def)
  have tab: "ss_fp_table i ?k' = ss_fp_table i k" for i by (simp add: ss_fp_table_def ss_fp_share_def k')
  obtain n where n: "scan_noted slot tr k n" "rc = SS_OK \<Longrightarrow> digest_noted slot tr (cl_last_digest (kn_client k)) n"
    using assms(1) by (auto simp: table_inv_def)
  have "handed i (Ended slot rc assigned # tr) ?k'"
    if i: "i < length (kn_slots k)" "s_pushed_any (kn_slots ?k' ! i)" "s_fp_valid (kn_slots ?k' ! i)" for i
  proof (cases "i = slot")
    case True
    have ok: "rc = SS_OK" using that n(1) assms(2) True by (auto simp: k' settled_def scan_noted_def split: if_splits)
    then show ?thesis
      using n assms(2) True by (auto simp: handed_def tab[unfolded ok] k'[unfolded ok] settled_def scan_noted_def digest_noted_def)
  next
    case False
    then show ?thesis using that assms(1) by (simp add: handed_def tab k' table_inv_def)
  qed
  then show ?thesis using assms(1) by (simp add: table_inv_def sized_def k')
qed

lemma kernel_run_tables: "kernel_run P tr k w \<Longrightarrow> table_inv tr k w"
proof (induction rule: kernel_run.induct)
  case (init k0 k)
  then show ?case using SlotSync_Init_shape[of k0 P k] by (auto simp: table_inv_def)
next
  case (around tr k w x)
  show ?case by (rule table_inv_untouched[OF around.IH]) (simp add: untouched_def quiet_def)
next
  case (enter tr k)
  show ?case by (rule table_inv_quiet[OF enter.IH worker_ends_quiet(1)]) simp
next
  case (connect tr k ok k')
  show ?case
    by (rule table_inv_quiet[OF connect.IH]) (use ss_connect_quiet[OF connect.hyps(3)] in \<open>simp_all add: quiet_def\<close>)
next
  case (idle tr k slot k')
  show ?case by (rule table_inv_untouched[OF idle.IH ss_should_push_untouched(1)[OF idle.hyps(3)]])
next
  case (pick tr k slot k')
  show ?case by (rule table_inv_quiet[OF pick.IH untouched_quiet[OF ss_should_push_untouched(1)[OF pick.hyps(3)]]]) simp
next
  case (ask tr k slot k1 answer k2)
  have 1: "table_inv tr k1 AtLoop" by (rule table_inv_untouched[OF ask.IH ss_should_push_untouched(1)[OF ask.hyps(3)]])
  have 2: "table_inv tr k2 AtLoop"
    by (rule table_inv_slots[OF 1 ss_establish_lineage_slots[OF ask.hyps(5)]]) (auto simp: nth_update_at split: if_splits)
  have "table_inv tr (update_slot slot (\<lambda>s. s\<lparr>s_halted := True\<rparr>) k2) AtLoop"
    by (rule table_inv_slots[OF 2, of "(kn_slots k2)[slot := (kn_slots k2 ! slot)\<lparr>s_halted := True\<rparr>]"])
      (auto simp: update_slot_def quiet_def nth_update_at split: if_splits)
  then show ?case using 2 table_inv_quiet[OF _ quiet_refl, of tr k2 AtLoop "AtPrepare slot"] by simp
next
  case (skip tr k slot k')
  from push_prepare_none[OF skip.hyps(2)] show ?case
  proof
    assume "quiet k k'"
    then show ?case by (rule table_inv_quiet[OF skip.IH]) simp
  next
    assume "quiet (with_slots ((kn_slots k)[slot := (kn_slots k ! slot)\<lparr>s_halted := True\<rparr>]) k) k'"
    then show ?case by (rule table_inv_slots[OF skip.IH]) (auto simp: nth_update_at split: if_splits)
  qed
next
  case (begin_push tr k slot n delta k')
  have "slot < length (kn_slots k)" using kernel_run_saves[OF begin_push.hyps(1)] by (simp add: save_inv_def)
  then show ?case by (rule table_inv_begin[OF begin_push.IH _ begin_push.hyps(2)])
next
  case (give_up tr k slot n delta k')
  show ?case by (rule push_reconnect_slots[OF give_up.hyps(2)], simp only: if_False, erule table_inv_slots[OF give_up.IH])
      (auto simp: nth_update_at split: if_splits)
next
  case (reconnect tr k slot n delta k')
  show ?case
    by (rule push_reconnect_slots[OF reconnect.hyps(2)], rule table_inv_quiet[OF reconnect.IH])
      (use reconnect.IH push_reconnect_error_code[OF reconnect.hyps(2)] in
        \<open>auto simp: table_inv_def scan_noted_def quiet_def ss_fp_table_def ss_fp_share_def\<close>)
next
  case (transfer tr k slot n delta rc assigned k')
  note q = push_transfer_quiet[OF transfer.hyps(2)]
  have at: "at_ok (Transferred slot (card_image P slot k) # tr) k' (AtSettle slot rc assigned)"
    using transfer.IH push_transfer_digest[of P slot n delta k assigned k'] transfer.hyps(2) scan_noted_quiet[OF q]
    by (auto simp: table_inv_def scan_noted_def digest_noted_def)
  show ?case
    by (rule table_inv_slots[OF transfer.IH, of "kn_slots k"]) (use q at transfer.IH in
      \<open>auto simp: quiet_def table_inv_def scan_noted_def\<close>)
next
  case (settle tr k slot rc assigned)
  have "slot < length (kn_slots k)" using kernel_run_saves[OF settle.hyps(1)] by (simp add: save_inv_def)
  then show ?case by (rule table_inv_settle[OF settle.IH])
next
  case (leave tr k)
  show ?case by (rule table_inv_quiet[OF leave.IH worker_ends_quiet(2)]) simp
next
  case (notify tr k w slot k')
  have at: "at_ok tr k' w \<and> at_ok (Saved j # tr) k' w" if "kn_fingerprints k' = kn_fingerprints k"
    "length (kn_slots k') = length (kn_slots k)" "kn_client k' = kn_client k"
    "\<And>i. i < length (kn_slots k) \<Longrightarrow> s_fp_valid (kn_slots k' ! i) = s_fp_valid (kn_slots k ! i)" for j
    using notify.IH kernel_run_saves[OF notify.hyps(1)] that
    by (cases w) (auto simp: table_inv_def save_inv_def scan_noted_def digest_noted_def ss_fp_table_def ss_fp_share_def)
  show ?case
    by (rule notify_slots[OF notify.hyps(2)], rule table_inv_slots[OF notify.IH untouched_quiet], assumption)
      (auto simp: nth_update_at untouched_def quiet_def notified_def split: if_splits intro!: at[THEN conjunct1] at[THEN conjunct2])
next
  case (poll tr k w k')
  show ?case by (rule table_inv_untouched[OF poll.IH SlotSync_Poll_untouched[OF poll.hyps(2)]])
next
  case (stop tr k w)
  show ?case by (rule table_inv_untouched[OF stop.IH worker_ends_quiet(3)])
next
  case (finish tr k w k')
  show ?case by (rule table_inv_untouched[OF finish.IH shutdown_finish_untouched[OF finish.hyps(2)]])
qed

end
