(* ===== verification/SS_Bench.thy ===== *)
theory SS_Bench
  imports SS_RunInv
begin

text \<open>
  A console for the examples: slots whose cards are a function of what has been sent and received so far, files with a
  configuration and a lineage, and a server that answers everything with one datagram. The properties of the kernel module are
  shown to apply to its runs.
\<close>

definition text_file :: "string \<Rightarrow> fat_file" where
  "text_file s = \<lparr>ff_size = length s, ff_bytes = ascii s\<rparr>"

definition bench_cfg :: string where
  "bench_cfg = ''server = 1.2.3.4'' @ [CHR 0x0A] @ ''psk = key'' @ [CHR 0x0A]"

definition bench_state :: string where
  "bench_state = ''GALE01 0 5'' @ [CHR 0x0A] @ ''GALE01 1 5'' @ [CHR 0x0A]"

definition bench :: "(event list \<Rightarrow> byte list) \<Rightarrow> u32 \<Rightarrow> byte list \<Rightarrow> event list platform" where
  "bench cd n d =
     \<lparr>hw_timer = Pair 1, timer_diff_ticks = (\<lambda>_. Pair (- 1)), get_current_time = Pair 0, mdelay = (\<lambda>_ x. x),
      vsprintf = (\<lambda>_ _. []),
      fat_open = (\<lambda>path _. if path = SS_CFG_PATH then Some (text_file bench_cfg)
                   else if path = SS_STATE_PATH then Some (text_file bench_state) else None),
      fat_create = (\<lambda>_. Pair True), fat_write = (\<lambda>_ _ x. x),
      card_enabled = (\<lambda>_ _. True), card_base = (\<lambda>_ x. Some (cd x)), card_size = (\<lambda>_ _. n),
      config_game_id = (\<lambda>_. 0x47414C45),
      net_bring_up = (\<lambda>_. Pair True), net_open = (\<lambda>_ _. Pair True), net_set_pace = (\<lambda>_ _ x. x), net_close = (\<lambda>x. x),
      net_live_ip = Pair 1, net_dropped = (\<lambda>_. 0),
      ssnet_send_op = net_send (\<lambda>_ _. True), ssnet_recv_op = net_recv (\<lambda>_. RecvData d)\<rparr>"

lemma bench_fields [simp]:
  "hw_timer (bench cd n d) = Pair 1" "timer_diff_ticks (bench cd n d) t = Pair (- 1)" "get_current_time (bench cd n d) = Pair 0"
  "fat_create (bench cd n d) p = Pair True" "fat_write (bench cd n d) p b x = x" "card_enabled (bench cd n d) i x"
  "card_base (bench cd n d) i x = Some (cd x)" "card_size (bench cd n d) i x = n" "net_bring_up (bench cd n d) ms = Pair True"
  "net_open (bench cd n d) a q = Pair True" "net_set_pace (bench cd n d) e u x = x" "net_close (bench cd n d) x = x"
  "net_live_ip (bench cd n d) = Pair 1" "net_dropped (bench cd n d) x = 0"
  "ssnet_send_op (bench cd n d) = net_send (\<lambda>_ _. True)" "ssnet_recv_op (bench cd n d) = net_recv (\<lambda>_. RecvData d)"
  by (simp_all add: bench_def)

lemma outside_Pair [simp]: "outside (Pair r) k = (r, k)"
  by (simp add: outside_def)

text \<open>The module before it is initialised, with \<open>m\<close> slots.\<close>

definition cold :: "nat \<Rightarrow> event list kernel" where
  "cold m = \<lparr>kn_cfg = ssl_config_defaults, kn_slots = replicate m empty_slot,
     kn_client = ss_client_init (net_transport (\<lambda>_ _. True) (\<lambda>_. RecvTimeout) []) [] 0 None, kn_world = [],
     kn_bitmap = replicate 2048 0, kn_dirty_map = replicate 2048 0, kn_fingerprints = replicate 2048 0,
     kn_log = [], kn_log_dirty = False, kn_net_connected = False, kn_handoff_pending = False, kn_worker_running = False,
     kn_worker_stop = False, kn_worker_busy = False, kn_boot_time = 0, kn_last_flush = 0\<rparr>"

lemma cold_sized: "m = 1 \<or> m = 2 \<Longrightarrow> well_sized (cold m)"
  by (auto simp: well_sized_def cold_def SS_FP_ENTRIES_def SS_BITMAP_BYTES_def)

definition bench_conf :: ssl_config where
  "bench_conf = \<lparr>c_enabled = 1, c_server = 0x01020304, c_port = 9977, c_psk = ascii ''key'', c_psk_len = 3, c_device_id = 0,
     c_timeout_ms = 2000, c_rounds = 12, c_quiet_ms = 4000, c_cooldown_ms = 30000, c_net_timeout_ms = 20000,
     c_pace_every = 64, c_pace_us = 160000, c_have_server = True\<rparr>"

lemma bench_config: "ssl_config_parse (ascii bench_cfg) = (True, bench_conf)"
  by code_simp

lemma bench_lineage:
  "ssl_state_find (ascii bench_state) (ascii ''GALE01'') 0 = Some (5, replicate 32 0)"
  "ssl_state_find (ascii bench_state) (ascii ''GALE01'') 1 = Some (5, replicate 32 0)"
  by code_simp+

text \<open>The module once it is initialised: both slots hold a card whose lineage is known.\<close>

definition known_slot :: ss_slot where
  "known_slot = empty_slot\<lparr>s_game_id := ascii ''GALE01'', s_parent := 5, s_lineage := True\<rparr>"

definition awake :: "nat \<Rightarrow> event list kernel" where
  "awake m = (cold m)\<lparr>kn_cfg := bench_conf, kn_slots := replicate m known_slot\<rparr>"

lemma bench_log [simp]: "sslog (bench cd n d) f a k = k"
  by (simp add: sslog_def SlotSync_Log_def bench_def)

lemma read_text_file: "length s \<le> 2047 \<Longrightarrow> f_read (text_file s) 0 (min (ff_size (text_file s)) (SS_CFG_MAX - Suc 0)) = Some (ascii s)"
  by (simp add: f_read_def text_file_def SS_CFG_MAX_def ascii_def Let_def)

lemma bench_files:
  "ss_read_file (bench cd n d) SS_CFG_PATH k = Some (ascii bench_cfg)"
  "ss_read_file (bench cd n d) SS_STATE_PATH k = Some (ascii bench_state)"
  by (simp_all add: ss_read_file_def bench_def read_text_file bench_cfg_def bench_state_def SS_CFG_PATH_def SS_STATE_PATH_def)

lemma bench_init_slot:
  assumes "ss_card_game_id (Some (cd [])) n (ascii ''GALE'') = (True, ascii ''GALE01'')"
    and "i < 2" "i < length (kn_slots k)" "kn_slots k ! i = empty_slot" "kn_world k = []"
  shows "init_slot (bench cd n d) i k = (True, k\<lparr>kn_slots := (kn_slots k)[i := known_slot]\<rparr>)"
proof -
  let ?P = "bench cd n d"
  have "ss_resolve_game_id ?P i k = (True, ascii ''GALE01'')"
    using assms(1,5) by (simp add: ss_resolve_game_id_def ssl_game_id_def bench_def ascii_def)
  moreover have "ss_load_parent ?P (ascii ''GALE01'') i k' = Some (5, replicate 32 0)" for k'
    using assms(2) bench_lineage by (auto simp: ss_load_parent_def bench_files less_Suc_eq numeral_2_eq_2)
  moreover have "ss_load_fingerprints ?P i (ascii ''GALE01'') 5 sz sha k' = (False, k')" for sz sha k'
    by (simp add: ss_load_fingerprints_def bench_def SS_FP_PATH_def SS_CFG_PATH_def SS_STATE_PATH_def)
  moreover have "card_enabled ?P i x" for x by (simp add: bench_def)
  ultimately show ?thesis
    using assms(3,4) by (simp add: init_slot_def update_slot_def known_slot_def empty_slot_def)
qed

lemma bench_init:
  assumes "ss_card_game_id (Some (cd [])) n (ascii ''GALE'') = (True, ascii ''GALE01'')" "m = 1 \<or> m = 2"
  shows "SlotSync_Init (bench cd n d) (cold m) = (True, awake m)"
proof -
  let ?k = "cold m\<lparr>kn_cfg := bench_conf, kn_slots := replicate m empty_slot\<rparr>"
  have w: "kn_world ?k = []" by (simp add: cold_def)
  note b = bench_init_slot[of cd n, OF assms(1)]
  have u: "[0..<1] = [0]" "[0..<2] = [0, 1 :: nat]" by (simp_all add: upt_rec)
  have i: "init_slots (bench cd n d) [0..<m] 0 ?k = (m, awake m)"
  proof (cases "m = 1")
    case True
    then show ?thesis using b[of 0 ?k d] w by (simp add: u[simplified] awake_def)
  next
    case False
    then have m: "m = 2" using assms(2) by simp
    have r: "replicate 2 x = [x, x]" for x :: ss_slot by (simp add: numeral_2_eq_2)
    show ?thesis
      using b[of 0 ?k d] b[of 1 "?k\<lparr>kn_slots := [known_slot, empty_slot]\<rparr>" d] w by (simp add: m u r awake_def)
  qed
  have l: "ss_load_config (bench cd n d) k = (True, k\<lparr>kn_cfg := bench_conf\<rparr>)" for k
    by (simp add: ss_load_config_def bench_files bench_config)
  have f: "ss_log_flush P (awake m) = awake m" for P by (simp add: ss_log_flush_def awake_def cold_def)
  have "m \<noteq> 0" using assms(2) by auto
  then show ?thesis
    using i[unfolded cold_def] unfolding SlotSync_Init_def Let_def l cold_def outside_Pair prod.case bench_fields bench_log
    by (simp add: map_replicate_const f)
qed

text \<open>A server whose only answer is \<open>(h, p)\<close>, and a card that is found at the start.\<close>

definition bench_ok :: "(event list \<Rightarrow> byte list) \<Rightarrow> u32 \<Rightarrow> byte list \<Rightarrow> ss_header \<Rightarrow> byte list \<Rightarrow> bool" where
  "bench_ok cd n d h p \<longleftrightarrow> ss_card_game_id (Some (cd [])) n (ascii ''GALE'') = (True, ascii ''GALE01'') \<and>
     n \<noteq> 0 \<and> ss_chunk_count n \<le> 16384 \<and> ss_unpack d (ascii ''key'') = Inr (h, p) \<and> h_msg_type h = SS_ACK"

lemma bench_hello:
  assumes "echoing c h p" "h_msg_type h = SS_ACK" "0 < cl_max_rounds c"
    and t: "transport c = net_transport (\<lambda>_ _. True) (\<lambda>_. RecvData d) es"
  obtains out c' where "ss_hello c = (SS_OK, out, c')" "echoing c' h p" "tp_ctx (transport c') \<noteq> []"
proof -
  let ?h = "ss_header_init SS_HELLO (cl_device_id c) [] 0"
  have wf: "wf_message (?h, [])" by (simp add: wf_message_def wf_header_def ss_header_init_def SS_NONCE_SIZE_def)
  obtain c1 where 1: "emit c ?h [] = (SS_OK, c1)" "echoing c1 h p" by (rule echoing_emit[OF assms(1) wf])
  have sd: "length (cl_nonce_seed c) = 8" using assms(1) by (simp add: echoing_def)
  obtain es1 where t1: "transport c1 = net_transport (\<lambda>_ _. True) (\<lambda>_. RecvData d) es1"
    using 1(1) by (auto simp: emit_eq(1)[OF sd wf] t net_transport_def net_send_def)
  obtain c2 where 2: "await_reply c1 = (Inr (h, p), c2)" "echoing c2 h p" by (rule echoing_await[OF 1(2)])
  have "ss_unpack d (cl_key c1) = Inr (h, p)" using 1(2) by (auto simp: echoing_def t1 net_transport_def net_recv_def)
  then have "await_attempts (Suc n) c1 = (Inr (h, p), c1\<lparr>transport := transport c1\<lparr>tp_ctx := es1 @ [Got (RecvData d)]\<rparr>\<rparr>)" for n
    by (simp add: t1 call_recv_def net_transport_def net_recv_def)
  from this[of 15] have ne: "tp_ctx (transport c2) \<noteq> []" using 2(1) by (auto simp: await_reply_def)
  obtain r where "nat (cl_max_rounds c) = Suc r" using assms(3) by (cases "nat (cl_max_rounds c)") auto
  then have "control_exchange c ?h [] = (Inr (h, p), c2)" using 2(1) 1(1) by (simp add: control_exchange_def)
  then obtain out where "ss_hello c = (SS_OK, out, c2)"
    using assms(2) by (cases "9 \<le> length p") (auto simp: ss_hello_def SS_ACK_def SS_NACK_def)
  then show ?thesis using that 2(2) ne by blast
qed

lemma bench_connect:
  assumes "bench_ok cd n d h p" "kn_cfg k = bench_conf"
  obtains k' where "ss_connect (bench cd n d) k = (True, k')" "echoing (give_client k') h p"
    "cl_max_rounds (kn_client k') = 12" "kn_world k' \<noteq> []" "kn_bitmap k' = kn_bitmap k"
    "kn_worker_running k' = kn_worker_running k" "kn_log_dirty k' = kn_log_dirty k"
proof -
  let ?P = "bench cd n d"
  define k0 where "k0 = k\<lparr>kn_client := hello_client ?P 1 k\<rparr>"
  have g0: "transport (give_client k0) = net_transport (\<lambda>_ _. True) (\<lambda>_. RecvData d) (kn_world k)"
    "cl_key (give_client k0) = ascii ''key''" "0 < cl_max_rounds (give_client k0)" "length (cl_nonce_seed (give_client k0)) = 8"
    by (simp_all add: bench_conf_def ascii_def give_client_def k0_def hello_client_def ss_client_init_def assms(2) net_transport_def nonce_seed_def Let_def)
  then have "echoing (give_client k0) h p"
    using assms(1) by (auto simp: echoing_def bench_ok_def net_transport_def net_send_def net_recv_def intro: exI[of _ "\<lambda>_. True"])
  then obtain out c' where c': "ss_hello (give_client k0) = (SS_OK, out, c')" "echoing c' h p" "tp_ctx (transport c') \<noteq> []"
    using bench_hello[OF _ _ g0(3,1)] assms(1) by (metis bench_ok_def)
  define k' where "k' = (take_client c' k0)\<lparr>kn_client := c'\<lparr>cl_timeout_ms := c_timeout_ms bench_conf, cl_max_rounds := 12\<rparr>\<rparr>"
  have s: "hello_client ?P t (k\<lparr>kn_world := x\<rparr>) = (hello_client ?P t k)\<lparr>transport := (transport (hello_client ?P t k))\<lparr>tp_ctx := x\<rparr>\<rparr>" for t x
    by (simp add: hello_client_def ss_client_init_def Let_def)
  have "ss_connect ?P k = (True, k')"
    using c'(1) by (simp add: bench_conf_def ss_connect_def assms(2) k0_def k'_def take_client_def)
  moreover have "echoing (give_client k') h p"
    using c'(2) by (auto simp: echoing_def k'_def give_client_def take_client_def)
  ultimately show ?thesis using that c'(3) by (simp add: k'_def take_client_def k0_def)
qed

text \<open>A save of slot \<open>i\<close> was noted, and the worker has chosen it.\<close>

definition armed :: "nat \<Rightarrow> nat \<Rightarrow> event list kernel" where
  "armed i m = (awake m)\<lparr>kn_worker_running := True,
     kn_slots := (replicate m known_slot)[i := known_slot\<lparr>s_dirty := True, s_dirty_at := 1\<rparr>]\<rparr>"

lemma armed_fields [simp]:
  "kn_worker_running (armed i m)" "kn_cfg (armed i m) = bench_conf" "kn_world (armed i m) = []"
  "kn_slots (armed i m) = (replicate m known_slot)[i := known_slot\<lparr>s_dirty := True, s_dirty_at := 1\<rparr>]"
  "kn_bitmap (armed i m) = replicate 2048 0" "kn_dirty_map (armed i m) = replicate 2048 0"
  by (simp_all add: armed_def awake_def cold_def)

lemma bench_armed:
  assumes "bench_ok cd n d h p" "m = 1 \<or> m = 2" "i < m"
  shows "kernel_run (bench cd n d) [Saved i] (armed i m) (AtPrepare i)"
proof -
  let ?P = "bench cd n d"
  have card: "ss_card_game_id (Some (cd [])) n (ascii ''GALE'') = (True, ascii ''GALE01'')" using assms(1) by (simp add: bench_ok_def)
  have 1: "kernel_run ?P [] (worker_enter (awake m)) AtLoop"
    by (rule kernel_run.enter[OF kernel_run.init[OF cold_sized[OF assms(2)] bench_init[where cd = cd and n = n and m = m, OF card assms(2)]]])
  have fields: "kn_slots (worker_enter (awake m)) = replicate m known_slot" "kn_worker_running (worker_enter (awake m))"
    "kn_handoff_pending (worker_enter (awake m)) = False" "kn_log_dirty (worker_enter (awake m)) = False"
    by (simp_all add: worker_enter_def awake_def cold_def)
  have n: "SlotSync_NotifyCardSaved ?P (int i) (worker_enter (awake m)) = Some (armed i m)"
    using assms(3) fields
    by (simp add: SlotSync_NotifyCardSaved_def update_slot_def flush_handoff_def ss_log_flush_def nth_list_update
        armed_def worker_enter_def)
  have 2: "kernel_run ?P [Saved i] (armed i m) AtLoop"
    using kernel_run.notify[OF 1 n] assms(3) fields by (simp add: notified_def)
  have "ss_should_push ?P i (armed i m) = (True, armed i m)"
    using assms(3) by (simp add: ss_should_push_def ssl_should_push_def known_slot_def empty_slot_def Let_def not_less)
  then show ?thesis using kernel_run.pick[OF 2, of i "armed i m"] assms(3) by (simp add: known_slot_def)
qed

lemma bench_reconnect:
  assumes "bench_ok cd n d h p" "kn_cfg k = bench_conf"
  obtains k' where "push_reconnect (bench cd n d) i k = (True, k')" "echoing (give_client k') h p"
    "cl_max_rounds (kn_client k') = 12" "kn_world k' \<noteq> []" "kn_bitmap k' = kn_bitmap k"
    "kn_worker_running k' = kn_worker_running k"
proof -
  obtain k1 where k1: "ss_connect (bench cd n d) (k\<lparr>kn_net_connected := False\<rparr>) = (True, k1)" "echoing (give_client k1) h p"
    "cl_max_rounds (kn_client k1) = 12" "kn_world k1 \<noteq> []" "kn_bitmap k1 = kn_bitmap k"
    "kn_worker_running k1 = kn_worker_running k"
    by (rule bench_connect[OF assms(1), of "k\<lparr>kn_net_connected := False\<rparr>"]) (use assms(2) in simp_all)
  have w: "k\<lparr>kn_world := kn_world k, kn_net_connected := False\<rparr> = k\<lparr>kn_net_connected := False\<rparr>" by simp
  then have "push_reconnect (bench cd n d) i k = (True, k1\<lparr>kn_net_connected := True, kn_worker_busy := True\<rparr>)"
    using k1(1) by (simp add: push_reconnect_def)
  then show ?thesis using that k1(2-6) by (simp add: give_client_def)
qed

lemma bench_transfer:
  assumes "bench_ok cd n d h p" "echoing (give_client k) h p" "cl_max_rounds (kn_client k) = 12" "length (kn_bitmap k) = 2048"
  obtains k' where "push_transfer (bench cd n d) i n False k = Some (SS_OK, h_card_version h, k')"
    "kn_worker_running k' = kn_worker_running k"
proof -
  let ?s = "kn_slots k ! i"
  have n: "n \<noteq> 0" "unat (ss_chunk_count n) \<le> 16384" "h_msg_type h = SS_ACK"
    using assms(1) by (auto simp: bench_ok_def word_le_nat_alt)
  then have "(unat (ss_chunk_count n) + 7) div 8 \<le> length (kn_bitmap k)" using assms(4) by simp
  then obtain bm' c' where p: "push_once (give_client k) (s_game_id ?s) (of_nat i) (cd (kn_world k)) n (s_parent ?s) (s_parent ?s + 1)
      None (kn_bitmap k) = Some (SS_OK, Some (h_card_version h), bm', c')"
    using push_accepts_ack[OF assms(2) n(3) _ n(1), of "kn_bitmap k" None] assms(3) by (force simp: give_client_def)
  then have "push_transfer (bench cd n d) i n False k =
      Some (SS_OK, h_card_version h, (take_client c' k)\<lparr>kn_bitmap := bm', kn_worker_busy := False\<rparr>)"
    by (simp add: push_transfer_def ss_push_delta_def card_image_def)
  then show ?thesis using that by (simp add: take_client_def)
qed

lemma update_slot_keeps2:
  "kn_cfg (update_slot i f k) = kn_cfg k" "kn_bitmap (update_slot i f k) = kn_bitmap k"
  "kn_worker_running (update_slot i f k) = kn_worker_running k"
  by (simp_all add: update_slot_def)

text \<open>A save that is pushed whole and confirmed.\<close>

lemma bench_pushed:
  assumes "bench_ok cd n d h p" "m = 1 \<or> m = 2" "i < m"
  obtains k es where "kernel_run (bench cd n d)
      [Ended i SS_OK (h_card_version h), Transferred i (cd es), Began i 5 (cd []) n, Saved i] k AtLoop"
    "es \<noteq> []" "s_pushed_any (kn_slots k ! i)" "s_fp_valid (kn_slots k ! i)" "length (kn_slots k) = m"
    "kn_worker_running k" "kn_handoff_pending k" "\<not> s_halted (kn_slots k ! i)"
proof -
  let ?P = "bench cd n d" and ?k = "armed i m"
  obtain plan k1 where prep: "push_prepare ?P i ?k = (plan, k1)" by fastforce
  have plan: "plan = Some (n, False) \<and> kn_cfg k1 = bench_conf \<and> kn_bitmap k1 = replicate 2048 0 \<and> kn_worker_running k1"
  proof -
    have c: "\<not> of_nat (SS_BITMAP_BYTES * 8) < ss_chunk_count n" "n \<noteq> 0"
      using assms(1) by (simp_all add: bench_ok_def SS_BITMAP_BYTES_def not_less)
    show ?thesis
    proof (cases "ss_fp_scan (cd []) n (ss_fp_table i ?k) (replicate 2048 0)")
      case None
      then show ?thesis using prep c assms(3)
        by (auto simp: push_prepare_def known_slot_def empty_slot_def update_slot_keeps2 update_slot_nth)
    next
      case (Some r)
      then show ?thesis using prep c assms(3)
        by (cases r) (auto simp: push_prepare_def known_slot_def empty_slot_def put_fp_table_def Let_def update_slot_keeps2 update_slot_nth)
    qed
  qed
  note 1 = kernel_run.begin_push[OF bench_armed[OF assms], of n False k1]
  obtain k2 where k2: "push_reconnect ?P i k1 = (True, k2)" "echoing (give_client k2) h p" "cl_max_rounds (kn_client k2) = 12"
    "kn_world k2 \<noteq> []" "kn_bitmap k2 = replicate 2048 0" "kn_worker_running k2"
    using bench_reconnect[OF assms(1), of k1 i] plan by metis
  have 2: "kernel_run ?P [Began i 5 (cd []) n, Saved i] k2 (AtTransfer i n False)"
    using kernel_run.reconnect[OF 1 k2(1)] prep plan assms(3) by (simp add: card_image_def known_slot_def)
  obtain k3 where k3: "push_transfer ?P i n False k2 = Some (SS_OK, h_card_version h, k3)" "kn_worker_running k3"
    using bench_transfer[OF assms(1) k2(2,3), of i] k2(5,6) by auto
  note 3 = kernel_run.transfer[OF 2 k3(1)]
  let ?k4 = "push_settle ?P i SS_OK (h_card_version h) k3"
  have 4: "kernel_run ?P [Ended i SS_OK (h_card_version h), Transferred i (cd (kn_world k2)), Began i 5 (cd []) n, Saved i] ?k4 AtLoop"
    using kernel_run.settle[OF 3] by (simp add: card_image_def)
  have "length (kn_slots k1) = m" "\<not> s_halted (kn_slots k1 ! i)"
    using push_prepare_some(3)[of ?P i ?k n False k1] prep plan assms(3) by (simp_all add: known_slot_def empty_slot_def)
  moreover have "kn_slots k2 = kn_slots k1" 
    by (rule push_reconnect_slots[OF k2(1)]) (simp add: quiet_def)
  moreover have "kn_slots k3 = kn_slots k2" using push_transfer_quiet[OF k3(1)] by (simp add: quiet_def)
  ultimately have len: "length (kn_slots k3) = m" "\<not> s_halted (kn_slots k3 ! i)" by simp_all
  show ?thesis
    by (rule that[OF 4 k2(4)]) (use assms(3) len k3(2) in \<open>auto simp: push_settle_def update_slot_def Let_def\<close>)
qed

subsection \<open>Cards of a game\<close>

text \<open>A card of \<open>n\<close> bytes with one directory entry and any first byte, and a server that acknowledges as version 6.\<close>

definition gale_card :: "nat \<Rightarrow> byte \<Rightarrow> byte list" where
  "gale_card n b = (b # replicate 8191 0) @ ascii ''GALE01'' @ replicate (n - 8198) 0"

lemma length_gale_card: "8198 \<le> n \<Longrightarrow> length (gale_card n b) = n"
  by (simp add: gale_card_def ascii_def)

lemma gale_card_game_id:
  assumes "16384 \<le> unat n"
  shows "ss_card_game_id (Some (gale_card (unat n) b)) n (ascii ''GALE'') = (True, ascii ''GALE01'')"
proof -
  let ?img = "gale_card (unat n) b"
  have "drop 8192 ?img = ascii ''GALE01'' @ replicate (unat n - 8198) 0" by (simp add: gale_card_def)
  then have e: "entry_id ?img 0 = ascii ''GALE01''" by (simp add: entry_id_def bytes_at_def ascii_def)
  have "entry_of ?img (ascii ''GALE'') 0" unfolding entry_of_def e by (simp add: ascii_def replicate_4)
  then have "find (entry_of ?img (ascii ''GALE'')) [0..<127] = Some 0" by (simp add: upt_rec[of 0])
  then show ?thesis
    using ss_card_game_id_find[of n ?img "ascii ''GALE''"] e assms by (simp add: length_gale_card ascii_def)
qed

lemma gale_card_hash:
  assumes "8192 \<le> n" "b \<noteq> c"
  shows "block_hash (gale_card n b) n 0 \<noteq> block_hash (gale_card n c) n 0"
proof -
  have h: "block_hash (gale_card n x) n 0 = ss_fp_hash ((b # replicate 8191 0)[0 := x])" for x
    using assms(1) by (simp add: block_hash_def bytes_at_def gale_card_def min_def)
  show ?thesis unfolding h using ss_fp_hash_update[of 0 "b # replicate 8191 0" c] assms(2) by auto
qed

definition bench_ack :: ss_header where
  "bench_ack = (ss_header_init SS_ACK 7 (ascii ''GALE01'') 0)\<lparr>h_card_version := 6\<rparr>"

lemma bench_ack_datagram:
  obtains d where "ss_unpack d (ascii ''key'') = Inr (bench_ack, [])"
proof -
  have wf: "wf_header bench_ack" by (simp add: bench_ack_def wf_header_def ss_header_init_def SS_NONCE_SIZE_def)
  obtain d where d: "ss_pack SS_MAX_DATAGRAM bench_ack [] (ascii ''key'') = Some d"
    using ss_pack_datagram[OF wf, of "[]" "ascii ''key''"] by auto
  have "bench_ack\<lparr>h_length := 0\<rparr> = bench_ack" by (simp add: bench_ack_def ss_header_init_def)
  then show ?thesis using ss_unpack_pack[OF wf d] that by simp
qed

lemma bench_ok_gale:
  assumes "16384 \<le> unat n" "ss_chunk_count n \<le> 16384" "ss_unpack d (ascii ''key'') = Inr (bench_ack, [])" "cd [] = gale_card (unat n) b"
  shows "bench_ok cd n d bench_ack []"
  using assms gale_card_game_id[OF assms(1)] by (auto simp: bench_ok_def bench_ack_def ss_header_init_def)

end
