(* ===== verification/SS_RunClaims.thy ===== *)
theory SS_RunClaims
  imports SS_Bench
begin

text \<open>
  What the runs of the kernel module (\<open>SS_Runtime\<close>) guarantee, and where they do not do what the module's comments say.
\<close>

subsection \<open>Helpers\<close>

lemma lawful_append: "lawful (later @ Began i p img n # earlier) \<Longrightarrow>
    (\<forall>v. last_version i earlier = Some v \<longrightarrow> p = v) \<and> \<not> in_conflict i earlier"
proof (induction later)
  case Nil
  then show ?case by (simp split: option.splits)
next
  case (Cons a later)
  have "lawful (a # ts) \<Longrightarrow> lawful ts" for ts by (cases a) simp_all
  then show ?case using Cons by simp
qed

text \<open>A run of the bench, with one save pushed whole.\<close>

lemma bench_pushed_gale:
  assumes "16384 \<le> unat n" "ss_chunk_count n \<le> 16384" "m = 1 \<or> m = 2" "i < m"
  obtains d k es where "kernel_run (bench (\<lambda>es. gale_card (unat n) (if es = [] then 0 else b)) n d)
      [Ended i SS_OK 6, Transferred i (gale_card (unat n) b), Began i 5 (gale_card (unat n) 0) n, Saved i] k AtLoop"
    "s_pushed_any (kn_slots k ! i)" "s_fp_valid (kn_slots k ! i)" "length (kn_slots k) = m"
    "kn_worker_running k" "kn_handoff_pending k" "\<not> s_halted (kn_slots k ! i)"
proof -
  let ?cd = "\<lambda>es. gale_card (unat n) (if es = [] then 0 else b)"
  obtain d where d: "ss_unpack d (ascii ''key'') = Inr (bench_ack, [])" by (rule bench_ack_datagram)
  have ok: "bench_ok ?cd n d bench_ack []" by (rule bench_ok_gale[OF assms(1,2) d]) simp
  have v: "h_card_version bench_ack = 6" by (simp add: bench_ack_def)
  show ?thesis
    by (rule bench_pushed[OF ok assms(3,4)], rule that[of d]) (assumption | simp add: v)+
qed

text \<open>The handoff stays inside the table when every card fits its share of it.\<close>

lemma fp_handoff_slot_None:
  "fp_handoff_slot P i k = None \<longleftrightarrow> s_pushed_any (kn_slots k ! i) \<and> s_fp_valid (kn_slots k ! i) \<and>
     card_size P i (kn_world k) \<noteq> 0 \<and>
     length (kn_fingerprints k) - i * ss_fp_share k < unat (ss_fp_blocks (card_size P i (kn_world k)))"
  by (auto simp: fp_handoff_slot_def Let_def)

lemma fp_handoff_slots_some:
  assumes "sized k" "\<forall>i \<in> set is. i < length (kn_slots k)"
    and "\<forall>i x. i < length (kn_slots k) \<longrightarrow> unat (ss_fp_blocks (card_size P i x)) \<le> ss_fp_share k"
  shows "fp_handoff_slots P is k \<noteq> None"
  using assms
proof (induction "is" arbitrary: k)
  case (Cons i js)
  have i: "i < length (kn_slots k)" using Cons.prems(2) by simp
  then have "unat (ss_fp_blocks (card_size P i (kn_world k))) \<le> ss_fp_share k" using Cons.prems(3) by blast
  then have "unat (ss_fp_blocks (card_size P i (kn_world k))) \<le> 2048 - i * ss_fp_share k"
    using fp_slice[OF Cons.prems(1) i] by linarith
  then obtain k1 where k1: "fp_handoff_slot P i k = Some k1"
    using Cons.prems(1) fp_handoff_slot_None[of P i k] by (cases "fp_handoff_slot P i k") (auto simp: sized_def)
  have "fp_handoff_slots P [i] k = Some k1" using k1 by simp
  then have u: "untouched k k1" by (rule fp_handoff_slots_untouched)
  then have "sized k1" "kn_slots k1 = kn_slots k" "ss_fp_share k1 = ss_fp_share k"
    using sized_quiet[of k k1] Cons.prems(1) by (simp_all add: untouched_def quiet_def ss_fp_share_def)
  then show ?case using Cons.IH[of k1] Cons.prems k1 by simp
qed simp

lemma flush_handoff_some:
  assumes "sized k" "\<forall>i x. i < length (kn_slots k) \<longrightarrow> unat (ss_fp_blocks (card_size P i x)) \<le> ss_fp_share k"
  shows "flush_handoff P k \<noteq> None"
proof -
  let ?k = "ss_write_handoff P (k\<lparr>kn_handoff_pending := False\<rparr>)"
  have u: "untouched k ?k" if "untouched k (k\<lparr>kn_handoff_pending := False\<rparr>)"
    using untouched_trans[OF that ss_write_handoff_untouched] .
  have "untouched k ?k" by (rule u) (simp add: untouched_def quiet_def)
  then have q: "quiet k (k1\<lparr>kn_world := x\<rparr>)" if "untouched ?k k1" for k1 x
    using that by (simp add: untouched_def quiet_def)
  have "ss_write_fp_handoff P ?k \<noteq> None"
  proof -
    obtain ok k1 where k1: "outside (fat_create P SS_FP_HANDOFF_PATH) ?k = (ok, k1)" by fastforce
    define k2 where "k2 c = k1\<lparr>kn_world := fat_write P SS_FP_HANDOFF_PATH (ss_fp_put_header c) (kn_world k1)\<rparr>" for c
    have "kn_slots (k2 c) = kn_slots k" "sized (k2 c)" "ss_fp_share (k2 c) = ss_fp_share k" for c
      using q[OF untouched_outside[OF k1]] sized_quiet[OF q[OF untouched_outside[OF k1]]] assms(1)
      by (simp_all add: k2_def quiet_def ss_fp_share_def)
    moreover from this(1) have "kn_slots k1 = kn_slots k" by (simp add: k2_def)
    ultimately show ?thesis
      using fp_handoff_slots_some[of "k2 _" "[0..<length (kn_slots k)]" P] assms(2) k1
      by (auto simp: ss_write_fp_handoff_def Let_def k2_def)
  qed
  then show ?thesis by (auto simp: flush_handoff_def)
qed

text \<open>It leaves it when the card of the second slot does not.\<close>

lemma flush_handoff_past:
  assumes "kn_handoff_pending k" "length (kn_slots k) = 2" "length (kn_fingerprints k) = 2048"
    and "s_pushed_any (kn_slots k ! 1)" "s_fp_valid (kn_slots k ! 1)"
    and "\<And>x. card_size P 1 x = n" "n \<noteq> 0" "1024 < unat (ss_fp_blocks n)" "\<And>p x. fst (fat_create P p x)"
  shows "flush_handoff P k = None"
proof -
  have past: "fp_handoff_slot P 1 j = None" if "quiet k j" for j
    using that assms(2-8) fp_handoff_slot_None[of P 1 j] by (simp add: quiet_def ss_fp_share_def SS_FP_ENTRIES_def)
  have "fp_handoff_slots P [0, 1] j = None" if q: "quiet k j" for j
  proof (cases "fp_handoff_slot P 0 j")
    case (Some j1)
    then have "quiet j j1" using fp_handoff_slots_untouched[of P "[0]" j j1] by (simp add: untouched_def)
    then show ?thesis using past[of j1] quiet_trans[OF q] Some by simp
  qed simp
  moreover have "[0..<length (kn_slots k)] = [0, 1]" using assms(2) by (simp add: upt_rec)
  moreover define k1 where "k1 = ss_write_handoff P (k\<lparr>kn_handoff_pending := False\<rparr>)"
  moreover have "quiet k k1"
    using ss_write_handoff_untouched[of "k\<lparr>kn_handoff_pending := False\<rparr>" P] by (simp add: k1_def untouched_def quiet_def)
  moreover obtain ok k2 where k2: "outside (fat_create P SS_FP_HANDOFF_PATH) k1 = (ok, k2)" by fastforce
  moreover have "ok" using k2 assms(9)[of SS_FP_HANDOFF_PATH "kn_world k1"] by (auto simp: outside_def split: prod.splits)
  moreover have "kn_slots k ! 1 \<in> set (kn_slots k)" using assms(2) by simp
  ultimately have "ss_write_fp_handoff P k1 = None"
    using untouched_outside[OF k2] assms(4,5) 
    by (auto simp: ss_write_fp_handoff_def quiet_def untouched_def filter_empty_conv)
  then show ?thesis using assms(1) by (simp add: flush_handoff_def k1_def)
qed

subsection \<open>Properties\<close>

text \<open>
  C8: whatever the worker, the main thread and the world around them do in between, a save that was accepted and
  not yet pushed leaves its slot marked dirty, unless a push that began after it is still under way; a push the server
  refused as a conflict leaves the slot halted.
\<close>

theorem kernel_no_save_lost:
  assumes "kernel_run P tr k w" "i < length (kn_slots k)"
  shows "(save_status i tr = Waiting \<longrightarrow> s_dirty (kn_slots k ! i)) \<and> (save_status i tr = InFlight \<longrightarrow> pushing w = Some i) \<and>
    (save_status i tr = Refused \<longrightarrow> s_halted (kn_slots k ! i))"
  using kernel_run_saves[OF assms(1)] assms(2) by (simp add: save_inv_def)

theorem kernel_no_save_lost_witness:
  "\<exists>(P :: event list platform) k. kernel_run P [Saved 0] k (AtPrepare 0) \<and> save_status 0 [Saved 0] = Waiting \<and>
     s_dirty (kn_slots k ! 0)"
proof -
  obtain d where d: "ss_unpack d (ascii ''key'') = Inr (bench_ack, [])" by (rule bench_ack_datagram)
  have "bench_ok (\<lambda>es. gale_card (unat (16384 :: u32)) 0) 16384 d bench_ack []"
    by (rule bench_ok_gale[OF _ _ d]) (simp_all add: ss_chunk_count_def SS_MAX_PAYLOAD_def)
  then have r: "kernel_run (bench (\<lambda>es. gale_card (unat (16384 :: u32)) 0) 16384 d) [Saved 0] (armed 0 1) (AtPrepare 0)"
    by (rule bench_armed) simp_all
  have s: "save_status 0 [Saved 0] = Waiting" by simp
  have "s_dirty (kn_slots (armed 0 1) ! 0)" using kernel_no_save_lost[OF r, of 0] s by simp
  then show ?thesis using r s by blast
qed






lemma push_prepare_delta:
  assumes "card_base P i (kn_world k) = Some img" "card_size P i (kn_world k) = n" "n \<noteq> 0" "ss_chunk_count n \<le> 16384"
    and "ss_fp_scan img n (ss_fp_table i k) (kn_dirty_map k) = Some (T, m, M)"
    and "s_fp_valid (kn_slots k ! i)" "ss_fp_worthwhile M (ss_chunk_count n)" "i < length (kn_slots k)"
  shows "\<exists>k'. push_prepare P i k = (Some (n, True), k')"
proof -
  have c: "\<not> of_nat (SS_BITMAP_BYTES * 8) < ss_chunk_count n" using assms(4) by (simp add: SS_BITMAP_BYTES_def not_less)
  let ?k = "update_slot i (\<lambda>s. s\<lparr>s_dirty := False\<rparr>) k"
  have "s_fp_valid (kn_slots ?k ! i)" using assms(6,8) by (simp add: update_slot_nth)
  then show ?thesis using assms(1-3,5,7) c by (simp add: push_prepare_def put_fp_table_def Let_def)
qed

text \<open>The bench's first push, and a second one of the same card.\<close>

lemma bench_again:
  obtains d k k' where "kernel_run (bench (\<lambda>es. gale_card 16384 0) 16384 d)
      [Saved 0, Ended 0 SS_OK 6, Transferred 0 (gale_card 16384 0), Began 0 5 (gale_card 16384 0) 16384, Saved 0] k (AtPrepare 0)"
    "s_pushed_any (kn_slots k ! 0)" "push_prepare (bench (\<lambda>es. gale_card 16384 0) 16384 d) 0 k = (Some (16384, True), k')"
proof -
  let ?g = "gale_card 16384 0" let ?tr = "[Ended 0 SS_OK 6, Transferred 0 ?g, Began 0 5 ?g 16384, Saved 0]"
  obtain d k where r: "kernel_run (bench (\<lambda>es. gale_card (unat (16384 :: u32)) (if es = [] then 0 else 0)) 16384 d)
      [Ended 0 SS_OK 6, Transferred 0 (gale_card (unat (16384 :: u32)) 0), Began 0 5 (gale_card (unat (16384 :: u32)) 0) 16384, Saved 0] k AtLoop"
    and k: "s_pushed_any (kn_slots k ! 0)" "s_fp_valid (kn_slots k ! 0)" "length (kn_slots k) = 1" "kn_worker_running k"
      "\<not> s_halted (kn_slots k ! 0)"
    by (rule bench_pushed_gale[of 16384 1 0 0]) (simp_all add: ss_chunk_count_def SS_MAX_PAYLOAD_def)
  let ?P = "bench (\<lambda>es. ?g) 16384 d"
  have r1: "kernel_run ?P ?tr k AtLoop" using r by simp
  have share: "ss_fp_share k = 2048" using k(3) by (simp add: ss_fp_share_def SS_FP_ENTRIES_def)
  have t: "ss_fp_table 0 k ! b = block_hash ?g 16384 b" if "b < 2" for b
    using kernel_run_tables[OF r1] k(1-3) that share
    by (auto simp: table_inv_def handed_def describes_def length_ss_fp_table length_gale_card block_count_def)
  have sz: "sized k" using kernel_run_tables[OF r1] by (simp add: table_inv_def)
  have lin: "s_lineage (kn_slots k ! 0)" using kernel_run_lineage[OF r1] k(3) by (simp add: lineage_inv_def)
  have fl: "flush_handoff ?P j \<noteq> None" if "sized j" "length (kn_slots j) = 1" for j
    using that by (intro flush_handoff_some) (simp_all add: ss_fp_share_def SS_FP_ENTRIES_def ss_fp_blocks_def SS_FP_BLOCK_SIZE_def)
  have "SlotSync_NotifyCardSaved ?P 0 k \<noteq> None"
    using k(3,4) sz fl by (simp add: SlotSync_NotifyCardSaved_def update_slot_def sized_def)
  then obtain k1 where n: "SlotSync_NotifyCardSaved ?P 0 k = Some k1" by blast
  have nf: "notified 0 k" using k(3,4) by (simp add: notified_def)
  obtain now where u: "untouched (with_slots ((kn_slots k)[0 := (kn_slots k ! 0)\<lparr>s_dirty := True, s_dirty_at := now\<rparr>]) k) k1"
    using notify_slots[OF n] nf by auto
  then have k1: "kn_slots k1 = [(kn_slots k ! 0)\<lparr>s_dirty := True, s_dirty_at := now\<rparr>]" "ss_fp_table 0 k1 = ss_fp_table 0 k"
    "kn_dirty_map k1 = kn_dirty_map k" "ss_fp_share k1 = 2048"
    using k(3) share by (auto simp: untouched_def quiet_def ss_fp_table_def ss_fp_share_def length_Suc_conv)
  have r2: "kernel_run ?P (Saved 0 # ?tr) k1 AtLoop" using kernel_run.notify[OF r1 n] nf by simp
  have "ss_should_push ?P 0 k1 = (True, k1)"
    using k(5) k1(1) by (simp add: ss_should_push_def ssl_should_push_def Let_def not_less)
  then have r3: "kernel_run ?P (Saved 0 # ?tr) k1 (AtPrepare 0)" using kernel_run.pick[OF r2, of 0 k1] lin k1(1) by simp
  have sp: "unat (16384 :: u32) + 8191 < 2 ^ 32" "unat (16384 :: u32) \<le> length ?g" "(16384 :: u32) \<noteq> 0"
    by (simp_all add: length_gale_card)
  note spec = ss_fp_scan_spec[OF sp, of "ss_fp_table 0 k" "kn_dirty_map k"]
  have lens: "length (ss_fp_table 0 k) = 2048" "length (kn_dirty_map k) = 2048"
    using sz k(3) share by (simp_all add: length_ss_fp_table sized_def)
  obtain T m M where s: "ss_fp_scan ?g 16384 (ss_fp_table 0 k) (kn_dirty_map k) = Some (T, m, M)"
    using spec(1) lens by (cases "ss_fp_scan ?g 16384 (ss_fp_table 0 k) (kn_dirty_map k)") (auto simp: block_count_def chunk_count_def)
  have "dirty_chunks ?g 16384 (ss_fp_table 0 k) = {}" using t by (auto simp: dirty_chunks_def stale_def chunk_count_def)
  then have "M = 0" using spec(2)[OF s] by (simp add: unat_eq_0)
  then have w: "ss_fp_worthwhile M (ss_chunk_count 16384)" by (simp add: ss_fp_worthwhile_def ss_chunk_count_def SS_MAX_PAYLOAD_def)
  have "\<exists>k'. push_prepare ?P 0 k1 = (Some (16384, True), k')"
    by (rule push_prepare_delta[OF _ _ _ _ s[folded k1(2,3)] _ w])
      (simp_all add: k1(1) k(2) ss_chunk_count_def SS_MAX_PAYLOAD_def)
  then show ?thesis using that r3 k(1) k1(1) by auto
qed


text \<open>
  C28: as long as no card has more blocks than its slot's share of the table, handing the versions and the
  fingerprints over never reads past the table, in any state a run can reach and from any of the entry points.
\<close>

theorem kernel_handoff_in_bounds:
  assumes "kernel_run P tr k w"
    and "\<And>i x. i < length (kn_slots k) \<Longrightarrow> unat (ss_fp_blocks (card_size P i x)) \<le> ss_fp_share k"
  shows "SlotSync_NotifyCardSaved P slot k \<noteq> None \<and> SlotSync_Poll P k \<noteq> None \<and> shutdown_finish P k \<noteq> None"
proof -
  have "sized k" using kernel_run_tables[OF assms(1)] by (simp add: table_inv_def)
  then have fl: "\<exists>y. flush_handoff P j = Some y" if "length (kn_slots j) = length (kn_slots k)"
      "kn_fingerprints j = kn_fingerprints k" "kn_dirty_map j = kn_dirty_map k" for j
    using flush_handoff_some[of j P] that assms(2) by (simp add: sized_def ss_fp_share_def)
  have u: "length (kn_slots k2) = length (kn_slots k1) \<and> kn_fingerprints k2 = kn_fingerprints k1 \<and> kn_dirty_map k2 = kn_dirty_map k1"
    if "outside f k1 = (r, k2)" for f :: "'a \<Rightarrow> u32 \<times> 'a" and r k1 k2
    using untouched_outside[OF that] by (simp add: untouched_def quiet_def)
  have "\<exists>y. SlotSync_NotifyCardSaved P slot k = Some y"
    by (auto simp: SlotSync_NotifyCardSaved_def Let_def split: prod.split dest!: u intro!: fl)
  moreover have "\<exists>y. SlotSync_Poll P k = Some y"
    by (auto simp: SlotSync_Poll_def Let_def split: prod.split dest!: u intro!: fl)
  moreover have "\<exists>y. shutdown_finish P k = Some y"
    by (auto simp: shutdown_finish_def intro!: fl)
  ultimately show ?thesis by auto
qed

theorem kernel_handoff_in_bounds_witness:
  "\<exists>(P :: event list platform) tr k. kernel_run P tr k (AtPrepare 0) \<and> s_pushed_any (kn_slots k ! 0) \<and>
     SlotSync_NotifyCardSaved P 0 k \<noteq> None"
proof -
  let ?g = "gale_card 16384 0"
  obtain d k k' where r: "kernel_run (bench (\<lambda>es. ?g) 16384 d)
      [Saved 0, Ended 0 SS_OK 6, Transferred 0 ?g, Began 0 5 ?g 16384, Saved 0] k (AtPrepare 0)"
    and p: "s_pushed_any (kn_slots k ! 0)"
    by (rule bench_again)
  have "sized k" using kernel_run_tables[OF r] by (simp add: table_inv_def)
  then have "2 \<le> ss_fp_share k" by (auto simp: sized_def ss_fp_share_def SS_FP_ENTRIES_def)
  then show ?thesis
    using kernel_handoff_in_bounds[OF r, of 0] r p by (fastforce simp: ss_fp_blocks_def SS_FP_BLOCK_SIZE_def)
qed

text \<open>
  C35: with two slots, a card of 16 MiB has twice the blocks its slot's half of the table holds. Its scan is
  refused, it is pushed whole, and the push marks the table valid all the same: after a confirmed push of such a
  card in the second slot, the next save makes the handoff read past the end of the table.
\<close>

theorem kernel_handoff_past_table:
  "\<exists>(P :: event list platform) tr k. kernel_run P tr k AtLoop \<and> card_size P 1 (kn_world k) = 0x1000000 \<and>
     SlotSync_NotifyCardSaved P 1 k = None"
proof -
  obtain d k where r: "kernel_run (bench (\<lambda>es. gale_card (unat (0x1000000 :: u32)) (if es = [] then 0 else 0)) 0x1000000 d)
      [Ended 1 SS_OK 6, Transferred 1 (gale_card (unat (0x1000000 :: u32)) 0), Began 1 5 (gale_card (unat (0x1000000 :: u32)) 0) 0x1000000, Saved 1] k AtLoop"
    and k: "s_pushed_any (kn_slots k ! 1)" "s_fp_valid (kn_slots k ! 1)" "length (kn_slots k) = 2" "kn_worker_running k"
      "kn_handoff_pending k"
    by (rule bench_pushed_gale[of "0x1000000" 2 1 0]) (simp_all add: ss_chunk_count_def SS_MAX_PAYLOAD_def)
  let ?P = "bench (\<lambda>es. gale_card (unat (0x1000000 :: u32)) (if es = [] then 0 else 0)) 0x1000000 d"
  have sz: "length (kn_fingerprints k) = 2048" using kernel_run_tables[OF r] by (simp add: table_inv_def sized_def)
  have "flush_handoff ?P j = None" if "kn_handoff_pending j" "kn_fingerprints j = kn_fingerprints k" "length (kn_slots j) = 2"
    "s_pushed_any (kn_slots j ! 1)" "s_fp_valid (kn_slots j ! 1)" for j
    using that sz by (intro flush_handoff_past[where n = "0x1000000"]) (simp_all add: ss_fp_blocks_def SS_FP_BLOCK_SIZE_def)
  then have "SlotSync_NotifyCardSaved ?P 1 k = None"
    using k by (simp add: SlotSync_NotifyCardSaved_def update_slot_def)
  then show ?thesis using r by (intro exI[of _ ?P] exI[of _ k]) auto
qed

text \<open>
  The game writes its card while the worker reads it. When a byte changes between the scan and the transfer, the push is
  confirmed and the table is marked valid, with a fingerprint that is not that of the bytes the server has.
\<close>

lemma kernel_table_torn:
  "\<exists>(P :: event list platform) tr k sent. kernel_run P tr k AtLoop \<and> s_pushed_any (kn_slots k ! 0) \<and> s_fp_valid (kn_slots k ! 0) \<and>
     last_sent 0 tr = Some sent \<and> length sent = 16384 \<and> s_parent_sha (kn_slots k ! 0) = sha256 sent \<and>
     ss_fp_table 0 k ! 0 \<noteq> block_hash sent 16384 0"
proof -
  let ?P = "\<lambda>d. bench (\<lambda>es. gale_card 16384 (if es = [] then 0 else 1)) 16384 d"
  obtain d k where r: "kernel_run (bench (\<lambda>es. gale_card (unat (16384 :: u32)) (if es = [] then 0 else 1)) 16384 d)
      [Ended 0 SS_OK 6, Transferred 0 (gale_card (unat (16384 :: u32)) 1), Began 0 5 (gale_card (unat (16384 :: u32)) 0) 16384, Saved 0] k AtLoop"
    and k: "s_pushed_any (kn_slots k ! 0)" "s_fp_valid (kn_slots k ! 0)" "length (kn_slots k) = 1"
    by (rule bench_pushed_gale[of 16384 1 0 1]) (simp_all add: ss_chunk_count_def SS_MAX_PAYLOAD_def)
  have share: "ss_fp_share k = 2048" using k(3) by (simp add: ss_fp_share_def SS_FP_ENTRIES_def)
  have "ss_fp_table 0 k ! 0 = block_hash (gale_card 16384 0) 16384 0 \<and> s_parent_sha (kn_slots k ! 0) = sha256 (gale_card 16384 1)"
    using kernel_run_tables[OF r] k share
    by (auto simp: table_inv_def handed_def describes_def length_ss_fp_table length_gale_card block_count_def)
  then have "ss_fp_table 0 k ! 0 \<noteq> block_hash (gale_card 16384 1) 16384 0" "s_parent_sha (kn_slots k ! 0) = sha256 (gale_card 16384 1)"
    using gale_card_hash[of 16384 0 1] by simp_all
  then show ?thesis
    using r k by (intro exI[of _ "?P d"] exI[of _ k] exI conjI) (auto simp: length_gale_card)
qed

subsection \<open>The worker's loop is a run\<close>

lemma push_slot_run:
  assumes "kernel_run P tr k (AtPrepare slot)" "ss_push_slot P slot k = Some k'"
  shows "\<exists>tr'. kernel_run P (tr' @ tr) k' AtLoop"
proof (cases "push_prepare P slot k")
  case (Pair plan k1)
  show ?thesis
  proof (cases plan)
    case None
    then have "kernel_run P tr k' AtLoop" using kernel_run.skip[OF assms(1), of k1] assms(2) Pair by (simp add: ss_push_slot_def)
    then show ?thesis by (intro exI[of _ "[]"]) simp
  next
    case (Some nd)
    obtain n delta where nd: "nd = (n, delta)" by (cases nd)
    note 1 = kernel_run.begin_push[OF assms(1) Pair[unfolded Some nd]]
    obtain ok k2 where k2: "push_reconnect P slot k1 = (ok, k2)" by fastforce
    show ?thesis
    proof (cases ok)
      case True
      then obtain rc assigned k3 where k3: "push_transfer P slot n delta k2 = Some (rc, assigned, k3)"
        "k' = push_settle P slot rc assigned k3"
        using assms(2) by (auto simp: ss_push_slot_def Pair Some nd k2 split: option.splits)
      have "kernel_run P (Ended slot rc assigned # Transferred slot (card_image P slot k2) #
          Began slot (s_parent (kn_slots k ! slot)) (card_image P slot k) n # tr) k' AtLoop"
        using kernel_run.settle[OF kernel_run.transfer[OF kernel_run.reconnect[OF 1 k2[unfolded True[THEN eqTrueI]]] k3(1)]] k3(2) by simp
      then show ?thesis by (intro exI[of _ "[_, _, _]"]) simp
    next
      case False
      then have "kernel_run P (Abandoned slot # Began slot (s_parent (kn_slots k ! slot)) (card_image P slot k) n # tr) k' AtLoop"
        using kernel_run.give_up[OF 1] k2 assms(2) by (simp add: ss_push_slot_def Pair Some nd)
      then show ?thesis by (intro exI[of _ "[_, _]"]) simp
    qed
  qed
qed

lemma worker_slot_run:
  assumes "kernel_run P tr k AtLoop" "slot < length (kn_slots k)" "worker_slot P slot k = Some k'"
  shows "\<exists>tr'. kernel_run P (tr' @ tr) k' AtLoop"
proof -
  obtain wanted k1 where k1: "ss_should_push P slot k = (wanted, k1)" by fastforce
  consider "\<not> wanted" | "wanted" "s_lineage (kn_slots k1 ! slot)" | "wanted" "\<not> s_lineage (kn_slots k1 ! slot)" by blast
  then show ?thesis
  proof cases
    case 1
    then have "kernel_run P tr k' AtLoop" using kernel_run.idle[OF assms(1,2)] k1 assms(3) by (simp add: worker_slot_def)
    then show ?thesis by (intro exI[of _ "[]"]) simp
  next
    case 2
    then show ?thesis
      using push_slot_run[OF kernel_run.pick[OF assms(1,2)]] k1 assms(3) by (simp add: worker_slot_def)
  next
    case 3
    obtain answer k2 where k2: "ss_establish_lineage P slot k1 = (answer, k2)" by fastforce
    note r = kernel_run.ask[OF assms(1,2) k1[unfolded 3(1)[THEN eqTrueI]] 3(2) k2]
    show ?thesis
    proof (cases answer)
      case Settled
      then show ?thesis using push_slot_run[of P tr k2 slot k'] r assms(3) 3 by (simp add: worker_slot_def k1 k2)
    qed (use r assms(3) 3 in \<open>auto simp: worker_slot_def k1 k2 intro: exI[of _ "[]"]\<close>)
  qed
qed

text \<open>The number of slots stays.\<close>

lemma push_prepare_length: "push_prepare P slot k = (plan, k') \<Longrightarrow> length (kn_slots k') = length (kn_slots k)"
  using push_prepare_none[of P slot k k'] push_prepare_some(3)[of P slot k _ _ k']
  by (cases plan) (auto simp: quiet_def)

lemma push_reconnect_length:
  assumes "push_reconnect P slot k = (ok, k')"
  shows "length (kn_slots k') = length (kn_slots k)"
  by (rule push_reconnect_slots[OF assms]) (auto simp: quiet_def split: if_splits)

lemma push_settle_length: "length (kn_slots (push_settle P slot rc assigned k)) = length (kn_slots k)"
  by (rule push_settle_slots[where P = P and slot = slot and rc = rc and assigned = assigned and k = k])
    (simp add: untouched_def quiet_def)

lemma push_slot_length:
  assumes "ss_push_slot P slot k = Some k'"
  shows "length (kn_slots k') = length (kn_slots k)"
proof -
  obtain plan k1 where 1: "push_prepare P slot k = (plan, k1)" by fastforce
  obtain ok k2 where 2: "push_reconnect P slot k1 = (ok, k2)" by fastforce
  note len = push_prepare_length[OF 1] push_reconnect_length[OF 2]
  consider "plan = None" | "plan \<noteq> None" "\<not> ok" | n delta where "plan = Some (n, delta)" ok by fastforce
  then show ?thesis
  proof cases
    case 3
    then obtain rc assigned k3 where k3: "push_transfer P slot n delta k2 = Some (rc, assigned, k3)"
      "k' = push_settle P slot rc assigned k3"
      using assms by (auto simp: ss_push_slot_def 1 2 split: option.splits)
    then show ?thesis using push_transfer_quiet[OF k3(1)] len by (simp add: push_settle_length quiet_def)
  qed (use assms len in \<open>auto simp: ss_push_slot_def 1 2\<close>)
qed

lemma worker_slot_length:
  assumes "worker_slot P slot k = Some k'"
  shows "length (kn_slots k') = length (kn_slots k)"
proof -
  obtain wanted k1 where 1: "ss_should_push P slot k = (wanted, k1)" by fastforce
  obtain answer k2 where 2: "ss_establish_lineage P slot k1 = (answer, k2)" by fastforce
  have "length (kn_slots k1) = length (kn_slots k)" using ss_should_push_untouched(1)[OF 1] by (simp add: untouched_def quiet_def)
  moreover have "length (kn_slots k2) = length (kn_slots k1)"
    using ss_establish_lineage_slots[OF 2] by (auto simp: quiet_def split: if_splits)
  ultimately show ?thesis
    using assms push_slot_length[of P slot]
    by (auto simp: worker_slot_def 1 2 split: if_splits lineage_answer.splits)
qed

lemma worker_slots_run:
  assumes "kernel_run P tr k AtLoop" "worker_slots P slots k = Some k'" "\<forall>i \<in> set slots. i < length (kn_slots k)"
  shows "\<exists>tr'. kernel_run P (tr' @ tr) k' AtLoop"
  using assms
proof (induction slots arbitrary: tr k)
  case Nil
  then show ?case by (auto intro: exI[of _ "[]"])
next
  case (Cons i slots)
  show ?case
  proof (cases "kn_worker_stop k")
    case True
    then show ?thesis using Cons.prems by (auto intro: exI[of _ "[]"])
  next
    case False
    then obtain k1 where k1: "worker_slot P i k = Some k1" "worker_slots P slots k1 = Some k'"
      using Cons.prems(2) by (auto split: option.splits)
    obtain tr1 where r: "kernel_run P (tr1 @ tr) k1 AtLoop" using worker_slot_run[OF Cons.prems(1) _ k1(1)] Cons.prems(3) by auto
    obtain tr2 where "kernel_run P (tr2 @ tr1 @ tr) k' AtLoop"
      using Cons.IH[OF r k1(2)] Cons.prems(3) worker_slot_length[OF k1(1)] by auto
    then show ?thesis by (metis append_assoc)
  qed
qed

lemma net_connected_keeps [simp]:
  "kn_net_connected (sslog P fmt args k) = kn_net_connected k" "kn_net_connected (take_client c k) = kn_net_connected k"
  by (simp_all add: sslog_def SlotSync_Log_def take_client_def Let_def)

lemma ss_connect_net: "ss_connect P k = (ok, k') \<Longrightarrow> kn_net_connected k' = kn_net_connected k"
  by (auto simp: ss_connect_def Let_def outside_def split: prod.splits if_splits)

text \<open>
  An iteration of the worker's loop is a sequence of the steps the runs are made of, so everything shown of
  the runs holds of the worker as it is written.
\<close>

lemma kernel_pass_is_run:
  assumes "kernel_run P tr k AtLoop" "worker_pass P backoff k = Some (b, k')"
  shows "\<exists>tr'. kernel_run P (tr' @ tr) k' AtLoop"
proof -
  obtain connected k1 where k1: "(if kn_net_connected k then (True, k) else ss_connect P k) = (connected, k1)" by fastforce
  let ?k = "k1\<lparr>kn_net_connected := connected\<rparr>"
  have r: "kernel_run P tr ?k AtLoop"
  proof (cases "kn_net_connected k")
    case True
    then have "?k = k" using k1 by auto
    then show ?thesis using assms(1) by simp
  next
    case False
    then show ?thesis using kernel_run.connect[OF assms(1) False, of connected k1] k1 by simp
  qed
  show ?thesis
  proof (cases connected)
    case False
    then have "k1 = ?k" using k1 ss_connect_net[of P k connected k1] by (auto split: if_splits)
    then have "k' = ?k\<lparr>kn_world := mdelay P backoff (kn_world ?k)\<rparr>"
      using assms(2) False unfolding worker_pass_def k1 by (auto simp: Let_def)
    then show ?thesis using kernel_run.around[OF r] by (auto intro: exI[of _ "[]"])
  next
    case True
    then obtain k2 where k2: "worker_slots P [0..<length (kn_slots ?k)] ?k = Some k2"
      "k' = k2\<lparr>kn_world := mdelay P 250 (kn_world k2)\<rparr>"
      using assms(2) unfolding worker_pass_def k1 by (auto simp: Let_def split: option.splits)
    then show ?thesis using worker_slots_run[OF r k2(1)] kernel_run.around by fastforce
  qed
qed

end
