(* ===== verification/SS_Stdio.thy ===== *)
theory SS_Stdio
  imports SS_Prelude
begin

text \<open>
  What the launcher uses of stdio on a FAT card. The disk is a map from path to contents; every call that can fail takes its
  luck from a schedule, so that a property holds for every pattern of failures. Each state the disk passes
  through is kept, the prefixes of a write included: these are the states a power cut can leave.
\<close>

text \<open>The calls that can fail, and how one fares. \<open>Short k\<close>: only the first \<open>k\<close> bytes get through.\<close>

datatype call = C_open | C_read | C_write | C_close | C_remove | C_rename | C_seek | C_malloc

datatype luck = Works | Fails | Short nat

type_synonym disk = "byte list \<Rightarrow> byte list option"

record fs =
  fs_disk :: disk
  fs_luck :: "call \<Rightarrow> nat \<Rightarrow> luck"
  fs_calls :: nat
  fs_past :: "disk list"

text \<open>The luck of the next call, and the change of the disk.\<close>

definition next_luck :: "call \<Rightarrow> fs \<Rightarrow> luck \<times> fs" where
  "next_luck c s = (fs_luck s c (fs_calls s), s\<lparr>fs_calls := fs_calls s + 1\<rparr>)"

definition become :: "disk \<Rightarrow> fs \<Rightarrow> fs" where
  "become d s = s\<lparr>fs_disk := d, fs_past := fs_past s @ [fs_disk s]\<rparr>"

text \<open>\<open>fopen\<close> for reading: the contents. For writing: whether it was opened, which empties the file.\<close>

definition open_read :: "byte list \<Rightarrow> fs \<Rightarrow> byte list option \<times> fs" where
  "open_read p s = (let (l, s) = next_luck C_open s in (if l = Works then fs_disk s p else None, s))"

definition open_write :: "byte list \<Rightarrow> fs \<Rightarrow> bool \<times> fs" where
  "open_write p s = (let (l, s) = next_luck C_open s in if l = Works then (True, become ((fs_disk s)(p \<mapsto> [])) s) else (False, s))"

text \<open>A call that leaves the disk alone and works or not: \<open>fseek\<close>, \<open>malloc\<close>.\<close>

definition attempt :: "call \<Rightarrow> fs \<Rightarrow> bool \<times> fs" where
  "attempt c s = (let (l, s) = next_luck c s in (l = Works, s))"

text \<open>The bytes of a file, as many as are asked for and can be read.\<close>

definition fread :: "byte list \<Rightarrow> nat \<Rightarrow> fs \<Rightarrow> byte list \<times> fs" where
  "fread f n s =
     (let (l, s) = next_luck C_read s in (case l of Works \<Rightarrow> take n f | Fails \<Rightarrow> [] | Short k \<Rightarrow> take (min k n) f, s))"

text \<open>Appends to an open file, byte after byte; how many were written.\<close>

definition fwrite :: "byte list \<Rightarrow> byte list \<Rightarrow> fs \<Rightarrow> nat \<times> fs" where
  "fwrite p data s =
     (let (l, s) = next_luck C_write s;
          n = (case l of Works \<Rightarrow> length data | Fails \<Rightarrow> 0 | Short k \<Rightarrow> min k (length data));
          old = (case fs_disk s p of None \<Rightarrow> [] | Some f \<Rightarrow> f)
      in (n, fold (\<lambda>i. become ((fs_disk s)(p \<mapsto> old @ take (i + 1) data))) [0..<n] s))"

text \<open>\<open>fclose\<close>, whose result the program ignores: what was buffered may fail to reach the disk.\<close>

definition fclose :: "byte list \<Rightarrow> fs \<Rightarrow> fs" where
  "fclose p s =
     (let (l, s) = next_luck C_close s
      in case l of Works \<Rightarrow> s
         | Fails \<Rightarrow> become ((fs_disk s)(p := map_option (\<lambda>f. []) (fs_disk s p))) s
         | Short k \<Rightarrow> become ((fs_disk s)(p := map_option (take k) (fs_disk s p))) s)"

definition remove :: "byte list \<Rightarrow> fs \<Rightarrow> fs" where
  "remove p s = (let (l, s) = next_luck C_remove s in if l = Works then become ((fs_disk s)(p := None)) s else s)"

text \<open>\<open>rename\<close> does not replace a file that exists.\<close>

definition rename :: "byte list \<Rightarrow> byte list \<Rightarrow> fs \<Rightarrow> bool \<times> fs" where
  "rename p q s =
     (let (l, s) = next_luck C_rename s
      in if l = Works \<and> fs_disk s p \<noteq> None \<and> fs_disk s q = None
         then (True, become ((fs_disk s)(q := fs_disk s p, p := None)) s)
         else (False, s))"

subsection \<open>Text\<close>

text \<open>\<open>fgets\<close> into a buffer of \<open>cap\<close> characters, from what is left of the file.\<close>

definition fgets :: "nat \<Rightarrow> byte list \<Rightarrow> (byte list \<times> byte list) option" where
  "fgets cap f =
     (if f = [] then None
      else let upto = takeWhile (\<lambda>c. c \<noteq> 0x0A) f;
               n = min (cap - 1) (if length upto < length f then length upto + 1 else length upto)
           in Some (take n f, drop n f))"

text \<open>The string in a buffer: up to the first NUL.\<close>

definition c_string :: "byte list \<Rightarrow> byte list" where
  "c_string s = takeWhile (\<lambda>c. c \<noteq> 0) s"

definition is_space :: "byte \<Rightarrow> bool" where
  "is_space c \<longleftrightarrow> c = 0x20 \<or> 0x09 \<le> c \<and> c \<le> 0x0D"

definition digit :: "byte \<Rightarrow> bool" where
  "digit c \<longleftrightarrow> 0x30 \<le> c \<and> c \<le> 0x39"

definition number :: "byte list \<Rightarrow> nat" where
  "number ds = foldl (\<lambda>n d. 10 * n + (unat d - 48)) 0 ds"

text \<open>\<open>sscanf\<close>'s \<open>%<w>s\<close> and \<open>%u\<close>: the value and the rest. A number that does not fit is the largest one.\<close>

definition scan_word :: "nat \<Rightarrow> byte list \<Rightarrow> (byte list \<times> byte list) option" where
  "scan_word w s =
     (let s = dropWhile is_space s;
          t = take w (takeWhile (\<lambda>c. \<not> is_space c) s)
      in if t = [] then None else Some (t, drop (length t) s))"

definition scan_unsigned :: "byte list \<Rightarrow> (u32 \<times> byte list) option" where
  "scan_unsigned s =
     (let s = dropWhile is_space s;
          neg = (s \<noteq> [] \<and> hd s = 0x2D);
          s = (if s \<noteq> [] \<and> (hd s = 0x2D \<or> hd s = 0x2B) then tl s else s);
          ds = takeWhile digit s;
          n = number ds
      in if ds = [] then None
         else Some (if 2 ^ 32 \<le> n then 0xFFFFFFFF else if neg then - of_nat n else of_nat n, drop (length ds) s))"

subsection \<open>Lemmas\<close>

lemma next_luck_simps [simp]:
  "fst (next_luck c s) = fs_luck s c (fs_calls s)" "fs_disk (snd (next_luck c s)) = fs_disk s"
  "fs_past (snd (next_luck c s)) = fs_past s" "fs_luck (snd (next_luck c s)) = fs_luck s"
  by (simp_all add: next_luck_def)

lemma become_simps [simp]:
  "fs_disk (become d s) = d" "fs_past (become d s) = fs_past s @ [fs_disk s]" "fs_luck (become d s) = fs_luck s"
  by (simp_all add: become_def)

text \<open>A call that always works.\<close>

definition reliable :: "call \<Rightarrow> fs \<Rightarrow> bool" where
  "reliable c s \<longleftrightarrow> (\<forall>i. fs_luck s c i = Works)"

text \<open>The states the disk passes through between \<open>s\<close> and \<open>s'\<close>, the last one included.\<close>

definition moments :: "fs \<Rightarrow> fs \<Rightarrow> disk set" where
  "moments s s' = set (drop (length (fs_past s)) (fs_past s')) \<union> {fs_disk s'}"

text \<open>From \<open>s\<close> to \<open>s'\<close> on the same schedule, every state of the disk on the way satisfying \<open>Q\<close>.\<close>

definition through :: "(disk \<Rightarrow> bool) \<Rightarrow> fs \<Rightarrow> fs \<Rightarrow> bool" where
  "through Q s s' \<longleftrightarrow> fs_luck s' = fs_luck s \<and> (\<exists>ds. fs_past s' = fs_past s @ ds \<and> (\<forall>d \<in> set ds. Q d)) \<and> Q (fs_disk s')"

lemma through_moments: "through Q s s' \<Longrightarrow> d \<in> moments s s' \<Longrightarrow> Q d"
  by (auto simp: through_def moments_def)

lemma through_refl: "Q (fs_disk s) \<Longrightarrow> through Q s s"
  by (simp add: through_def)

lemma through_trans: "through Q s s1 \<Longrightarrow> through Q s1 s2 \<Longrightarrow> through Q s s2"
  unfolding through_def by fastforce

lemma through_mono: "through Q s s' \<Longrightarrow> (\<And>d. Q d \<Longrightarrow> R d) \<Longrightarrow> through R s s'"
  unfolding through_def by blast

lemma through_disk: "through Q s s' \<Longrightarrow> Q (fs_disk s')"
  by (simp add: through_def)

lemma through_reliable: "through Q s s' \<Longrightarrow> reliable c s' \<longleftrightarrow> reliable c s"
  by (simp add: through_def reliable_def)

lemma through_call: "Q (fs_disk s) \<Longrightarrow> through Q s (snd (next_luck c s))"
  by (simp add: through_def)

lemma through_become: "Q (fs_disk s) \<Longrightarrow> Q d \<Longrightarrow> through Q s (become d (snd (next_luck c s)))"
  by (simp add: through_def)

lemma attempt_through:
  assumes "attempt c s = (ok, s')" "Q (fs_disk s)"
  shows "through Q s s'" "fs_disk s' = fs_disk s" "reliable c s \<Longrightarrow> ok"
  using assms by (auto simp: attempt_def next_luck_def Let_def through_def reliable_def)

lemma open_read_through:
  assumes "open_read p s = (f, s')" "Q (fs_disk s)"
  shows "through Q s s'" "fs_disk s' = fs_disk s" "f = None \<or> f = fs_disk s p" "reliable C_open s \<Longrightarrow> f = fs_disk s p"
  using assms by (auto simp: open_read_def next_luck_def Let_def through_def reliable_def)

lemma fread_through:
  assumes "fread f n s = (got, s')" "Q (fs_disk s)"
  shows "through Q s s'" "fs_disk s' = fs_disk s" "\<exists>k \<le> n. got = take k f" "reliable C_read s \<Longrightarrow> got = take n f"
proof -
  show "through Q s s'" "fs_disk s' = fs_disk s" "reliable C_read s \<Longrightarrow> got = take n f"
    using assms by (auto simp: fread_def next_luck_def Let_def through_def reliable_def)
  show "\<exists>k \<le> n. got = take k f"
    using assms(1) by (cases "fs_luck s C_read (fs_calls s)")
      (auto simp: fread_def next_luck_def Let_def intro: exI[of _ n] exI[of _ "0 :: nat"] exI[of _ "min k n" for k])
qed

lemma open_write_through:
  assumes "open_write p s = (ok, s')" "Q (fs_disk s)" "Q ((fs_disk s)(p \<mapsto> []))"
  shows "through Q s s'" "reliable C_open s \<Longrightarrow> ok"
    "fs_disk s' = (if ok then (fs_disk s)(p \<mapsto> []) else fs_disk s)"
  using assms by (auto simp: open_write_def next_luck_def Let_def through_def reliable_def split: if_splits)

lemma fold_become:
  assumes "Q (fs_disk s)" "\<And>i. i < n \<Longrightarrow> Q (D i)"
  shows "through Q s (fold (\<lambda>i. become (D i)) [0..<n] s) \<and>
    fs_disk (fold (\<lambda>i. become (D i)) [0..<n] s) = (if n = 0 then fs_disk s else D (n - 1))"
  using assms(2)
proof (induction n)
  case 0
  then show ?case using assms(1) by (simp add: through_def)
next
  case (Suc n)
  let ?s = "fold (\<lambda>i. become (D i)) [0..<n] s"
  have "through Q s ?s" using Suc by simp
  moreover have "through Q ?s (become (D n) ?s)" using through_disk[OF calculation] Suc.prems by (simp add: through_def)
  ultimately show ?case using through_trans[of Q s ?s] by simp
qed

lemma fwrite_through:
  assumes "fwrite p data s = (n, s')" "fs_disk s p = Some old" "\<And>t. Q ((fs_disk s)(p \<mapsto> old @ t))"
  shows "through Q s s'" "fs_disk s' = (fs_disk s)(p \<mapsto> old @ take n data)" "n \<le> length data"
    "reliable C_write s \<Longrightarrow> n = length data"
proof -
  let ?s = "snd (next_luck C_write s)" and ?D = "\<lambda>i. (fs_disk s)(p \<mapsto> old @ take (i + 1) data)"
  have e: "s' = fold (\<lambda>i. become (?D i)) [0..<n] ?s" and n: "n \<le> length data"
    using assms(1,2) by (auto simp: fwrite_def next_luck_def Let_def split: luck.splits)
  have q: "Q (fs_disk s)" using assms(3)[of "[]"] assms(2) by (simp add: fun_upd_idem)
  note f = fold_become[of Q ?s n ?D]
  show "through Q s s'"
    using through_trans[OF through_call[where Q = Q and s = s, OF q] f[THEN conjunct1]] q assms(3) unfolding e by simp
  show "fs_disk s' = (fs_disk s)(p \<mapsto> old @ take n data)"
    using f[THEN conjunct2] q assms(2,3) unfolding e by (auto simp: fun_upd_idem)
  show "n \<le> length data" by (rule n)
  show "reliable C_write s \<Longrightarrow> n = length data"
    using assms(1) by (auto simp: fwrite_def next_luck_def Let_def reliable_def)
qed

lemma fclose_through:
  assumes "fs_disk s p = Some f" "\<And>k. Q ((fs_disk s)(p \<mapsto> take k f))"
  shows "through Q s (fclose p s)" "reliable C_close s \<Longrightarrow> fs_disk (fclose p s) = fs_disk s"
    "\<exists>k. fs_disk (fclose p s) = (fs_disk s)(p \<mapsto> take k f)"
proof -
  have q: "Q (fs_disk s)" using assms(2)[of "length f"] assms(1) by (simp add: fun_upd_idem)
  show "through Q s (fclose p s)"
    using q assms(1) assms(2) assms(2)[of 0]
    by (cases "fs_luck s C_close (fs_calls s)") (auto simp: fclose_def next_luck_def Let_def through_def)
  show "reliable C_close s \<Longrightarrow> fs_disk (fclose p s) = fs_disk s"
    by (simp add: fclose_def next_luck_def Let_def reliable_def)
  show "\<exists>k. fs_disk (fclose p s) = (fs_disk s)(p \<mapsto> take k f)"
    using assms(1) by (cases "fs_luck s C_close (fs_calls s)")
      (auto simp: fclose_def next_luck_def Let_def become_def fun_upd_idem intro: exI[of _ "length f"] exI[of _ 0])
qed

lemma remove_through:
  assumes "Q (fs_disk s)" "Q ((fs_disk s)(p := None))"
  shows "through Q s (remove p s)" "fs_disk (remove p s) = fs_disk s \<or> fs_disk (remove p s) = (fs_disk s)(p := None)"
    "reliable C_remove s \<Longrightarrow> fs_disk (remove p s) = (fs_disk s)(p := None)"
  using assms by (auto simp: remove_def next_luck_def Let_def through_def reliable_def)

lemma rename_through:
  assumes "rename p q s = (ok, s')" "Q (fs_disk s)" "Q ((fs_disk s)(q := fs_disk s p, p := None))"
  shows "through Q s s'" "ok \<Longrightarrow> fs_disk s p \<noteq> None \<and> fs_disk s q = None"
    "reliable C_rename s \<Longrightarrow> ok \<longleftrightarrow> fs_disk s p \<noteq> None \<and> fs_disk s q = None"
    "fs_disk s' = (if ok then (fs_disk s)(q := fs_disk s p, p := None) else fs_disk s)"
  using assms by (auto simp: rename_def next_luck_def Let_def through_def reliable_def split: if_splits)

subsection \<open>A file built up under a temporary name\<close>

text \<open>From \<open>s\<close> to \<open>s'\<close> only the contents of \<open>p\<close> change, on a disk that was \<open>d\<close>; at the end they are \<open>t\<close>.\<close>

definition draft :: "byte list \<Rightarrow> disk \<Rightarrow> disk \<Rightarrow> bool" where
  "draft p d e \<longleftrightarrow> e = d \<or> (\<exists>u. e = d(p \<mapsto> u))"

definition building :: "byte list \<Rightarrow> disk \<Rightarrow> byte list \<Rightarrow> fs \<Rightarrow> fs \<Rightarrow> bool" where
  "building p d t s s' \<longleftrightarrow> through (draft p d) s s' \<and> fs_disk s' = d(p \<mapsto> t)"

lemma draft_simps [simp]: "draft p d d" "draft p d (d(p \<mapsto> u))"
  by (auto simp: draft_def)

lemma draft_others: "draft p d e \<Longrightarrow> \<forall>q. q \<noteq> p \<longrightarrow> e q = d q"
  by (auto simp: draft_def)

lemma building_open:
  assumes "open_write p s = (True, s')" "fs_disk s = d"
  shows "building p d [] s s'"
  using assms open_write_through[where Q = "draft p d", OF assms(1)] by (simp add: building_def)

lemma building_fwrite:
  assumes "building p d t s s1" "fwrite p data s1 = (n, s2)"
  shows "building p d (t @ take n data) s s2" "n \<le> length data" "reliable C_write s \<Longrightarrow> n = length data"
proof -
  have b: "through (draft p d) s s1" "fs_disk s1 = d(p \<mapsto> t)" using assms(1) by (simp_all add: building_def)
  note w = fwrite_through[where Q = "draft p d", OF assms(2), of t]
  show "building p d (t @ take n data) s s2" using b w through_trans[OF b(1)] by (simp add: building_def)
  show "n \<le> length data" "reliable C_write s \<Longrightarrow> n = length data" using b w by (simp_all add: through_reliable)
qed

lemma building_fclose:
  assumes "building p d t s s1" "reliable C_close s"
  shows "building p d t s (fclose p s1)"
proof -
  have b: "through (draft p d) s s1" "fs_disk s1 = d(p \<mapsto> t)" using assms(1) by (simp_all add: building_def)
  note w = fclose_through[where Q = "draft p d", of s1 p t]
  show ?thesis using b w through_trans[OF b(1)] assms(2) by (simp add: building_def through_reliable)
qed

text \<open>
  The states an update of a file may leave: other files are as they were, and the file is the old one or the new one, or
  the new one is complete under its temporary name.
\<close>

definition update_safe :: "disk \<Rightarrow> byte list \<Rightarrow> byte list \<Rightarrow> byte list \<Rightarrow> disk \<Rightarrow> bool" where
  "update_safe old temp final data d \<longleftrightarrow> (\<forall>q. q \<noteq> temp \<and> q \<noteq> final \<longrightarrow> d q = old q) \<and>
     (d final = old final \<or> d final = Some data \<or> d final = None \<and> d temp = Some data)"

lemma building_safe:
  assumes "building temp old t s s1" "temp \<noteq> final"
  shows "through (update_safe old temp final data) s s1"
proof (rule through_mono)
  show "through (draft temp old) s s1" using assms(1) by (simp add: building_def)
  show "update_safe old temp final data d" if "draft temp old d" for d
    using that assms(2) unfolding draft_def update_safe_def by auto
qed

text \<open>Giving up: the temporary file goes.\<close>

lemma give_up_through:
  assumes "building temp old t s s1" "temp \<noteq> final"
  shows "through (update_safe old temp final data) s (remove temp s1)" "fs_disk (remove temp s1) final = old final"
proof -
  let ?Q = "update_safe old temp final data"
  have d: "fs_disk s1 = old(temp \<mapsto> t)" using assms(1) by (simp add: building_def)
  then have q: "?Q (fs_disk s1)" "?Q ((fs_disk s1)(temp := None))" using assms(2) by (simp_all add: update_safe_def)
  note r = remove_through[where Q = ?Q and p = temp, OF q]
  show "through ?Q s (remove temp s1)" by (rule through_trans[OF building_safe[OF assms] r(1)])
  show "fs_disk (remove temp s1) final = old final" using r(2) assms(2) d by auto
qed

text \<open>Taking over: the old file goes and the temporary one takes its name.\<close>

lemma take_over_through:
  assumes "building temp old data s s1" "temp \<noteq> final" "reliable C_rename s"
    and "rename temp final (remove final s1) = (moved, s2)" "(ok, s3) = (if \<not> moved then (False, remove temp s2) else (True, s2))"
  shows "through (update_safe old temp final data) s s3"
    and "ok \<Longrightarrow> fs_disk s3 = old(final \<mapsto> data, temp := None)"
    and "\<not> ok \<Longrightarrow> fs_disk s3 final = old final"
    and "reliable C_remove s \<Longrightarrow> ok"
proof -
  let ?Q = "update_safe old temp final data"
  have d: "fs_disk s1 = old(temp \<mapsto> data)" using assms(1) by (simp add: building_def)
  have gone: "?Q ((fs_disk s1)(final := None))" "?Q (fs_disk s1)" "?Q (old(final \<mapsto> data, temp := None))"
    using assms(2) by (simp_all add: d update_safe_def)
  note r = remove_through[where Q = ?Q and p = final, OF gone(2,1)]
  note t = through_trans[OF building_safe[OF assms(1,2)] r(1)]
  have new: "(fs_disk (remove final s1))(final := fs_disk (remove final s1) temp, temp := None) = old(final \<mapsto> data, temp := None)"
    using r(2) assms(2) d by (auto simp: fun_eq_iff)
  note m = rename_through[where Q = ?Q, OF assms(4) through_disk[OF t]]
  have rel: "reliable C_rename (remove final s1)" using assms(3) through_reliable[OF t] by simp
  show "through ?Q s s3"
  proof (cases moved)
    case True
    then show ?thesis using through_trans[OF t m(1)] gone(3) assms(5) by (simp add: new)
  next
    case False
    then have d2: "fs_disk s2 = fs_disk (remove final s1)" "fs_disk (remove final s1) final \<noteq> None"
      using m(3,4) gone(3) rel r(2) d assms(2) by (auto simp: new)
    then have "fs_disk s2 = old(temp \<mapsto> data)" using r(2) d by auto
    then have "through ?Q s2 (remove temp s2)" using assms(2) by (intro remove_through(1)) (simp_all add: update_safe_def)
    then show ?thesis using through_trans[OF through_trans[OF t m(1)]] gone(3) False assms(5) by (simp add: new)
  qed
  show "ok \<Longrightarrow> fs_disk s3 = old(final \<mapsto> data, temp := None)"
    using assms(5) m(4) gone(3) by (auto simp: new split: if_splits)
  show "fs_disk s3 final = old final" if "\<not> ok"
  proof -
    have f: "\<not> moved" "s3 = remove temp s2" using that assms(5) by (auto split: if_splits)
    then have "fs_disk s2 = old(temp \<mapsto> data)" using m(3,4) gone(3) rel r(2) d assms(2) by (auto simp: new)
    then show ?thesis using f(2) remove_through(2)[where Q = "\<lambda>_. True" and s = s2 and p = temp] assms(2) by auto
  qed
  show "reliable C_remove s \<Longrightarrow> ok"
    using r(3) m(3) gone(3) rel assms(1,2,5) d by (auto simp: new building_def through_reliable split: if_splits)
qed

subsection \<open>Files a function leaves alone\<close>

text \<open>Only the files in \<open>ps\<close> may differ from the disk \<open>d\<close>. Every call keeps to its own file, whatever its luck.\<close>

definition apart :: "byte list set \<Rightarrow> disk \<Rightarrow> disk \<Rightarrow> bool" where
  "apart ps d e \<longleftrightarrow> (\<forall>q. q \<notin> ps \<longrightarrow> e q = d q)"

abbreviation only :: "byte list set \<Rightarrow> fs \<Rightarrow> fs \<Rightarrow> bool" where
  "only ps s s' \<equiv> through (apart ps (fs_disk s)) s s'"

lemma apart_refl [simp]: "apart ps d d"
  by (auto simp: apart_def)

lemma apart_upd: "apart ps d e \<Longrightarrow> p \<in> ps \<Longrightarrow> apart ps d (e(p := v))"
  by (auto simp: apart_def)

lemma only_refl [simp]: "only ps s s"
  by (simp add: through_refl)

lemma only_trans: "only ps s s1 \<Longrightarrow> only ps s1 s2 \<Longrightarrow> only ps s s2"
  by (rule through_trans, assumption, rule through_mono, assumption) (auto simp: apart_def dest!: through_disk)

lemma only_mono: "only ps s s' \<Longrightarrow> ps \<subseteq> qs \<Longrightarrow> only qs s s'"
  by (erule through_mono) (auto simp: apart_def)

lemma only_other: "only ps s s' \<Longrightarrow> q \<notin> ps \<Longrightarrow> fs_disk s' q = fs_disk s q"
  by (auto simp: apart_def dest: through_disk)

lemma attempt_only: "attempt c s = (ok, s') \<Longrightarrow> only ps s s'"
  by (rule attempt_through(1)) simp_all

lemma open_read_only: "open_read p s = (f, s') \<Longrightarrow> only ps s s'"
  by (rule open_read_through(1)) simp_all

lemma fread_only: "fread f n s = (got, s') \<Longrightarrow> only ps s s'"
  by (rule fread_through(1)) simp_all

lemma open_write_only: "open_write p s = (ok, s') \<Longrightarrow> p \<in> ps \<Longrightarrow> only ps s s'"
  by (rule open_write_through(1)) (auto intro: apart_upd)

lemma fwrite_only: "fwrite p data s = (n, s') \<Longrightarrow> p \<in> ps \<Longrightarrow> only ps s s'"
proof -
  assume a: "fwrite p data s = (n, s')" "p \<in> ps"
  let ?s = "snd (next_luck C_write s)" and ?old = "case fs_disk s p of None \<Rightarrow> [] | Some f \<Rightarrow> f"
  have "s' = fold (\<lambda>i. become ((fs_disk s)(p \<mapsto> ?old @ take (i + 1) data))) [0..<n] ?s"
    using a(1) by (auto simp: fwrite_def next_luck_def Let_def)
  moreover have "through (apart ps (fs_disk s)) s ?s" by (simp add: through_call)
  ultimately show ?thesis
    using fold_become[of "apart ps (fs_disk s)" ?s n "\<lambda>i. (fs_disk s)(p \<mapsto> ?old @ take (i + 1) data)"] a(2) through_trans
    by (auto simp: apart_upd)
qed

lemma fclose_only: "p \<in> ps \<Longrightarrow> only ps s (fclose p s)"
  by (cases "fs_luck s C_close (fs_calls s)") (simp_all add: fclose_def next_luck_def Let_def through_def apart_upd)

lemma remove_only: "p \<in> ps \<Longrightarrow> only ps s (remove p s)"
  by (rule remove_through(1)) (simp_all add: apart_upd)

lemma rename_only: "rename p q s = (ok, s') \<Longrightarrow> p \<in> ps \<Longrightarrow> q \<in> ps \<Longrightarrow> only ps s s'"
  by (rule rename_through(1)) (auto intro!: apart_upd)

text \<open>A schedule on which everything works but the calls of one kind.\<close>

definition with_fault :: "call \<Rightarrow> luck \<Rightarrow> fs \<Rightarrow> fs" where
  "with_fault c l s = s\<lparr>fs_luck := \<lambda>c' i. if c' = c then l else Works\<rparr>"

lemma with_fault_simps [simp]:
  "fs_disk (with_fault c l s) = fs_disk s" "fs_luck (with_fault c l s) = (\<lambda>c' i. if c' = c then l else Works)"
  "reliable c' (with_fault c l s) \<longleftrightarrow> c' \<noteq> c \<or> l = Works"
  by (auto simp: with_fault_def reliable_def)

end
