(* ===== verification/SS_Saves.thy ===== *)
theory SS_Saves
  imports SS_Logic
begin

text \<open>
  \<open>wii/source/wii_saves.c\<close>, the launcher's table of what it last agreed with the server: the table,
  the lookup that adds a card, and the file it is saved to, which the kernel reads back with
  \<open>ssl_state_find\<close>. A file is the list of its bytes.
\<close>

definition WII_MAX_CARDS :: nat where "WII_MAX_CARDS = 64"
definition WII_GAME_ID_LEN :: nat where "WII_GAME_ID_LEN = 6"

text \<open>\<open>k_game_id\<close> is the string without its NUL.\<close>

record wii_card_state =
  k_game_id :: "byte list"
  k_slot :: byte
  k_version :: u32
  k_sha256 :: "byte list"
  k_known :: bool

text \<open>The table is the list of its \<open>count\<close> entries. The result is it afterwards and the entry's index.\<close>

definition wii_state_get ::
    "wii_card_state list \<Rightarrow> byte list \<Rightarrow> byte \<Rightarrow> wii_card_state list \<times> nat option" where
  "wii_state_get cards game_id slot =
     (case find (\<lambda>i. k_slot (cards ! i) = slot \<and> k_game_id (cards ! i) = game_id) [0..<length cards] of
        Some i \<Rightarrow> (cards, Some i)
      | None \<Rightarrow>
          if WII_MAX_CARDS \<le> length cards then (cards, None)
          else (cards @ [\<lparr>k_game_id = take WII_GAME_ID_LEN game_id, k_slot = slot, k_version = 0,
                          k_sha256 = replicate 32 0, k_known = False\<rparr>], Some (length cards)))"

text \<open>\<open>fprintf\<close> of one byte with \<open>%02x\<close>, and of a card's line.\<close>

definition hex_digit :: "byte \<Rightarrow> byte" where
  "hex_digit x = (if x < 10 then 0x30 + x else 0x57 + x)"

definition hex_byte :: "byte \<Rightarrow> byte list" where
  "hex_byte b = [hex_digit (drop_bit 4 b), hex_digit (b AND 0x0F)]"

definition card_line :: "wii_card_state \<Rightarrow> byte list" where
  "card_line c =
     k_game_id c @ 0x20 # dec (unat (k_slot c)) @ 0x20 # dec (unat (k_version c)) @ 0x20 #
     concat (map hex_byte (k_sha256 c)) @ [0x0A]"

definition wii_state_save :: "wii_card_state list \<Rightarrow> byte list" where
  "wii_state_save cards = concat (map card_line cards)"

subsection \<open>The table\<close>

text \<open>No two entries for one card, and never more entries than the array has.\<close>

definition wf_state :: "wii_card_state list \<Rightarrow> bool" where
  "wf_state cards \<longleftrightarrow>
     length cards \<le> WII_MAX_CARDS \<and> distinct (map (\<lambda>c. (k_game_id c, k_slot c)) cards)"

lemma wii_state_get_found:
  assumes "wii_state_get cards g s = (cards', Some i)" "length g \<le> 6"
  shows "i < length cards' \<and> k_game_id (cards' ! i) = g \<and> k_slot (cards' ! i) = s"
  using assms by (auto simp: wii_state_get_def WII_GAME_ID_LEN_def find_Some_iff split: option.splits if_splits)

lemma wii_state_get_prefix: "\<exists>new. fst (wii_state_get cards g s) = cards @ new"
  by (auto simp: wii_state_get_def split: option.splits)

lemma wii_state_get_wf:
  assumes "wf_state cards" "length g \<le> 6"
  shows "wf_state (fst (wii_state_get cards g s))"
proof (cases "find (\<lambda>i. k_slot (cards ! i) = s \<and> k_game_id (cards ! i) = g) [0..<length cards]")
  case None
  then have "(g, s) \<notin> (\<lambda>c. (k_game_id c, k_slot c)) ` set cards"
    by (auto simp: find_None_iff in_set_conv_nth)
  with None assms show ?thesis
    by (auto simp: wii_state_get_def wf_state_def WII_GAME_ID_LEN_def)
qed (use assms in \<open>simp add: wii_state_get_def\<close>)

subsection \<open>Reading the file back\<close>

lemma nibble_all: "(\<And>n. n \<in> set [0..<16] \<Longrightarrow> P (of_nat n :: byte)) \<Longrightarrow> (x :: byte) < 16 \<Longrightarrow> P x"
proof -
  assume all: "\<And>n. n \<in> set [0..<16] \<Longrightarrow> P (of_nat n :: byte)" and "x < 16"
  then have "unat x \<in> set [0..<16]" by (simp add: word_less_nat_alt)
  from all[OF this] show ?thesis by simp
qed

lemma hex_table:
  "\<forall>n \<in> set [0..<16]. ssl_hex (hex_digit (of_nat n)) = Some (of_nat n) \<and>
     hex_digit (of_nat n) \<noteq> 0 \<and> hex_digit (of_nat n) \<noteq> 0x0A \<and> hex_digit (of_nat n) \<noteq> 0x20 \<and> hex_digit (of_nat n) \<noteq> 0x09"
  by (simp add: upt_rec ssl_hex_def hex_digit_def)

lemma ssl_hex_digit: "x < 16 \<Longrightarrow> ssl_hex (hex_digit x) = Some x"
  by (erule nibble_all[rotated]) (use hex_table in blast)

lemma hex_digit_plain: "x < 16 \<Longrightarrow> hex_digit x \<noteq> 0 \<and> hex_digit x \<noteq> 0x0A \<and> hex_digit x \<noteq> 0x20 \<and> hex_digit x \<noteq> 0x09"
  by (erule nibble_all[rotated]) (use hex_table in blast)

lemma nibbles: "drop_bit 4 (b :: byte) < 16" "b AND 0x0F < 16" "push_bit 4 (drop_bit 4 b) OR (b AND 0x0F) = b"
proof -
  have "unat b < 256" by (rule unat_byte_lt)
  then have "drop_bit 4 (unat b) < 16" by (simp add: drop_bit_eq_div)
  then show "drop_bit 4 b < 16" by (simp add: word_less_nat_alt unat_drop_bit_eq)
  have "b AND 0x0F \<le> 0x0F" by (rule word_and_le1)
  then show "b AND 0x0F < 16" by (simp add: word_le_nat_alt word_less_nat_alt)
  have m: "b AND 0x0F = take_bit 4 b" by (simp add: take_bit_eq_mask mask_numeral)
  show "push_bit 4 (drop_bit 4 b) OR (b AND 0x0F) = b"
    unfolding m by (rule bit_word_eqI) (auto simp: bit_simps)
qed

lemma read_digest_hex: "read_digest (concat (map hex_byte sha) @ rest) (length sha) = Some sha"
  by (induction sha) (simp_all add: hex_byte_def ssl_hex_digit nibbles)

lemma hex_bytes_plain: "c \<in> set (concat (map hex_byte sha)) \<Longrightarrow> c \<noteq> 0 \<and> c \<noteq> 0x0A \<and> c \<noteq> 0x20 \<and> c \<noteq> 0x09"
  by (auto simp: hex_byte_def hex_digit_plain nibbles)

text \<open>A card as the launcher keeps it: a six-character id without a newline or leading blank, a whole digest.\<close>

definition wf_card :: "wii_card_state \<Rightarrow> bool" where
  "wf_card c \<longleftrightarrow> full_id (k_game_id c) \<and> 0x0A \<notin> set (k_game_id c) \<and>
     hd (k_game_id c) \<noteq> 0x20 \<and> hd (k_game_id c) \<noteq> 0x09 \<and> length (k_sha256 c) = 32"

lemma card_line_parse:
  assumes c: "wf_card c" and g: "length g = 6"
  shows "state_line (card_line c @ rest) g slot =
    (if k_game_id c = g \<and> k_slot c = slot then Some (k_version c, k_sha256 c) else None)"
proof -
  let ?h = "concat (map hex_byte (k_sha256 c))"
  have l: "card_line c @ rest = k_game_id c @ 0x20 # dec (unat (k_slot c)) @ 0x20 # dec (unat (k_version c)) @
      0x20 # ?h @ 0x0A # rest"
    by (simp add: card_line_def)
  have sha: "length (k_sha256 c) = 32" using c by (simp add: wf_card_def)
  then have ne: "?h \<noteq> []" by (cases "k_sha256 c") (auto simp: hex_byte_def)
  have "hd (?h @ 0x0A # rest) \<in> set ?h" unfolding hd_append2[OF ne] by (rule hd_in_set[OF ne])
  then have "skip_blanks (?h @ 0x0A # rest) = ?h @ 0x0A # rest"
    using hex_bytes_plain by (intro skip_blanks_id) blast
  then have dig: "read_digest (skip_blanks (?h @ 0x0A # rest)) 32 = Some (k_sha256 c)"
    using read_digest_hex[of "k_sha256 c"] sha by simp
  show ?thesis
    unfolding l using c g by (subst state_line_parse) (auto simp: wf_card_def full_id_def dig)
qed

lemma card_line_text:
  assumes "wf_card c"
  obtains t where "card_line c = t @ [0x0A]" "t \<noteq> []" "0 \<notin> set t" "0x0A \<notin> set t"
proof
  let ?t = "k_game_id c @ 0x20 # dec (unat (k_slot c)) @ 0x20 # dec (unat (k_version c)) @ 0x20 #
    concat (map hex_byte (k_sha256 c))"
  show "card_line c = ?t @ [0x0A]" by (simp add: card_line_def)
  show "?t \<noteq> []" by simp
  have d: "0 \<notin> set (dec n)" "0x0A \<notin> set (dec n)" for n using dec_digits[of _ n] by fastforce+
  have h: "0 \<notin> set (concat (map hex_byte (k_sha256 c)))" "0x0A \<notin> set (concat (map hex_byte (k_sha256 c)))"
    using hex_bytes_plain by blast+
  show "0 \<notin> set ?t" "0x0A \<notin> set ?t"
    using assms d h unfolding wf_card_def full_id_def by (simp_all del: set_concat)
qed

lemma state_find_lines:
  assumes "\<forall>c \<in> set cards. wf_card c" "length g = 6"
  shows "ssl_state_find (wii_state_save cards @ rest) g slot =
    (case find (\<lambda>c. k_game_id c = g \<and> k_slot c = slot) cards of
       None \<Rightarrow> ssl_state_find rest g slot
     | Some c \<Rightarrow> Some (k_version c, k_sha256 c))"
  using assms(1)
proof (induction cards)
  case Nil
  then show ?case by (simp add: wii_state_save_def)
next
  case (Cons c cards)
  have c: "wf_card c" using Cons.prems by simp
  obtain t where t: "card_line c = t @ [0x0A]" "t \<noteq> []" "0 \<notin> set t" "0x0A \<notin> set t"
    by (rule card_line_text[OF c])
  let ?more = "wii_state_save cards @ rest"
  have sv: "wii_state_save (c # cards) @ rest = t @ 0x0A # ?more" by (simp add: wii_state_save_def t(1))
  have line: "state_line (t @ 0x0A # ?more) g slot =
      (if k_game_id c = g \<and> k_slot c = slot then Some (k_version c, k_sha256 c) else None)"
    using card_line_parse[OF c assms(2), of ?more slot] by (simp add: t(1))
  show ?case
    unfolding sv state_find_step[OF t(2-4)] line using Cons by simp
qed

subsection \<open>Properties\<close>

text \<open>
  What the launcher saves about its cards, the kernel reads back: \<open>ssl_state_find\<close> over the
  file \<open>wii_state_save\<close> writes gives the version and digest of the first entry with that game id and
  slot, and -1 when there is none.
\<close>

lemma state_save_find:
  assumes "\<forall>c \<in> set cards. wf_card c" "length g = 6"
  shows "ssl_state_find (wii_state_save cards) g slot =
    map_option (\<lambda>c. (k_version c, k_sha256 c)) (find (\<lambda>c. k_game_id c = g \<and> k_slot c = slot) cards)"
  using state_find_lines[OF assms, of "[]" slot] by (simp add: ssl_state_find.simps split: option.split)

text \<open>
  Looking a card up in the launcher's table keeps the table free of duplicates and within its
  64 entries, leaves the entries it had as they were, and any index it returns is in range and
  holds that card.
\<close>

lemma state_get_unique:
  assumes "wf_state cards" "length g \<le> 6"
  shows "case wii_state_get cards g s of (cards', r) \<Rightarrow>
    wf_state cards' \<and> (\<exists>new. cards' = cards @ new) \<and>
    (case r of None \<Rightarrow> length cards = 64
     | Some i \<Rightarrow> i < length cards' \<and> k_game_id (cards' ! i) = g \<and> k_slot (cards' ! i) = s)"
proof -
  obtain cards' r where e: "wii_state_get cards g s = (cards', r)" by fastforce
  have "r = None \<Longrightarrow> length cards = 64"
    using e assms(1) by (auto simp: wii_state_get_def wf_state_def WII_MAX_CARDS_def split: option.splits if_splits)
  then show ?thesis
    using wii_state_get_wf[OF assms, of s] wii_state_get_prefix[of cards g s] wii_state_get_found[of cards g s] e assms(2)
    by (auto split: option.split)
qed

end
