(* ===== verification/SS_SaveFiles.thy ===== *)
theory SS_SaveFiles
  imports SS_Stdio SS_Saves
begin

text \<open>
  \<open>wii/source/wii_saves.c\<close>, the launcher's files: the card images under \<open>/saves\<close>, the state file and the versions the
  kernel hands back, over the disk of \<open>SS_Stdio\<close>.
\<close>

subsection \<open>Card images\<close>

text \<open>The stem of a card's file name, in upper case.\<close>

definition is_card_name :: "byte list \<Rightarrow> byte list option" where
  "is_card_name name =
     (let len = length name
      in if len \<noteq> WII_GAME_ID_LEN + 4 \<and> len \<noteq> 4 + 4 then None
         else let n = (if len = WII_GAME_ID_LEN + 4 then WII_GAME_ID_LEN else 4)
              in if drop n name \<noteq> ascii ''.raw'' \<and> drop n name \<noteq> ascii ''.RAW'' then None
                 else if list_all (\<lambda>c. 0x41 \<le> c \<and> c \<le> 0x5A \<or> 0x61 \<le> c \<and> c \<le> 0x7A \<or> 0x30 \<le> c \<and> c \<le> 0x39) (take n name)
                 then Some (map (\<lambda>c. if 0x61 \<le> c \<and> c \<le> 0x7A then c - 0x61 + 0x41 else c) (take n name))
                 else None)"

definition wii_saves_game_id :: "byte list \<Rightarrow> int \<Rightarrow> byte list \<Rightarrow> byte list option" where
  "wii_saves_game_id img n stem =
     (if length stem = WII_GAME_ID_LEN then Some stem
      else if length stem \<noteq> 4 \<or> n \<le> 0 then None
      else case ss_card_game_id (Some img) (of_int n) stem of (found, key) \<Rightarrow> if found then Some key else None)"

text \<open>The loop over what \<open>readdir\<close> returns, and the whole of it; \<open>None\<close> when the directory cannot be read.\<close>

fun scan_entries :: "byte list list \<Rightarrow> nat \<Rightarrow> byte list list \<Rightarrow> byte list list" where
  "scan_entries [] cap found = found"
| "scan_entries (name # names) cap found =
     (if cap \<le> length found then found
      else case is_card_name name of
             None \<Rightarrow> scan_entries names cap found
           | Some stem \<Rightarrow> scan_entries names cap (found @ [stem]))"

definition wii_saves_scan :: "byte list list option \<Rightarrow> nat \<Rightarrow> byte list list option" where
  "wii_saves_scan entries cap = map_option (\<lambda>names. scan_entries names cap []) entries"

text \<open>\<open>snprintf\<close> into 256 bytes.\<close>

definition card_path :: "byte list \<Rightarrow> byte list \<Rightarrow> string \<Rightarrow> byte list" where
  "card_path dir stem suffix = take 255 (dir @ ascii ''/'' @ stem @ ascii ''.raw'' @ ascii suffix)"

text \<open>The size, or \<open>None\<close> for -1; the buf; the disk.\<close>

definition wii_saves_read :: "byte list \<Rightarrow> byte list \<Rightarrow> byte list \<Rightarrow> fs \<Rightarrow> nat option \<times> byte list \<times> fs" where
  "wii_saves_read dir stem buf s =
     (let (file, s) = open_read (card_path dir stem '''') s
      in case file of
           None \<Rightarrow> (None, buf, s)
         | Some f \<Rightarrow>
             if f = [] \<or> length buf < length f then (None, buf, s)
             else let (got, s) = fread f (length f) s
                  in (if length got = length f then Some (length f) else None, blit buf 0 got, s))"

text \<open>\<open>True\<close> is 0.\<close>

definition wii_saves_backup :: "byte list \<Rightarrow> byte list \<Rightarrow> byte list \<Rightarrow> fs \<Rightarrow> bool \<times> fs" where
  "wii_saves_backup dir stem data s =
     (let path = card_path dir stem ''.bak'';
          (ok, s) = open_write path s
      in if \<not> ok then (False, s)
         else let (written, s) = fwrite path data s;
                  s = fclose path s
              in if written \<noteq> length data then (False, remove path s) else (True, s))"

definition wii_saves_write :: "byte list \<Rightarrow> byte list \<Rightarrow> byte list \<Rightarrow> fs \<Rightarrow> bool \<times> fs" where
  "wii_saves_write dir stem data s =
     (let temp = card_path dir stem ''.tmp'';
          final = card_path dir stem '''';
          (ok, s) = open_write temp s
      in if \<not> ok then (False, s)
         else let (written, s) = fwrite temp data s;
                  s = fclose temp s
              in if written \<noteq> length data then (False, remove temp s)
                 else let s = remove final s;
                          (moved, s) = rename temp final s
                      in if \<not> moved then (False, remove temp s) else (True, s))"

subsection \<open>The state file\<close>

definition hex_value :: "byte \<Rightarrow> byte option" where
  "hex_value c =
     (if 0x30 \<le> c \<and> c \<le> 0x39 then Some (c - 0x30)
      else if 0x61 \<le> c \<and> c \<le> 0x66 then Some (c - 0x61 + 10)
      else if 0x41 \<le> c \<and> c \<le> 0x46 then Some (c - 0x41 + 10)
      else None)"

text \<open>The loop over the hex digits: the bytes of the digest that could be read.\<close>

fun hex_bytes :: "nat \<Rightarrow> byte list \<Rightarrow> byte list" where
  "hex_bytes 0 hex = []"
| "hex_bytes (Suc n) hex =
     (case (hex_value (peek hex 0), hex_value (peek hex 1)) of
        (Some hi, Some lo) \<Rightarrow> (push_bit 4 hi OR lo) # hex_bytes n (drop 2 hex)
      | _ \<Rightarrow> [])"

text \<open>One line of the file; \<open>None\<close> when \<open>sscanf\<close> does not find its four fields.\<close>

definition load_line :: "byte list \<Rightarrow> wii_card_state option" where
  "load_line line =
     (case scan_word 6 (c_string line) of
        None \<Rightarrow> None
      | Some (game_id, rest) \<Rightarrow>
          (case scan_unsigned rest of
             None \<Rightarrow> None
           | Some (slot, rest) \<Rightarrow>
               (case scan_unsigned rest of
                  None \<Rightarrow> None
                | Some (version, rest) \<Rightarrow>
                    (case scan_word 64 rest of
                       None \<Rightarrow> None
                     | Some (hex, rest) \<Rightarrow>
                         Some \<lparr>k_game_id = game_id, k_slot = ucast slot, k_version = version,
                               k_sha256 = blit (replicate 32 0) 0 (hex_bytes 32 hex), k_known = True\<rparr>))))"

lemma fgets_shorter: "fgets cap f = Some (line, rest) \<Longrightarrow> 2 \<le> cap \<Longrightarrow> length rest < length f"
  using length_takeWhile_le[of "\<lambda>c. c \<noteq> 0x0A" f]
  by (cases "f = []") (auto simp: fgets_def Let_def min_def not_less split: if_splits)

function load_lines :: "byte list \<Rightarrow> wii_card_state list \<Rightarrow> wii_card_state list" where
  "load_lines f cards =
     (case fgets 160 f of
        None \<Rightarrow> cards
      | Some (line, rest) \<Rightarrow>
          if WII_MAX_CARDS \<le> length cards then cards
          else case load_line line of
                 None \<Rightarrow> load_lines rest cards
               | Some c \<Rightarrow> load_lines rest (cards @ [c]))"
  by pat_completeness auto
termination by (relation "measure (\<lambda>(f, cards). length f)") (auto dest: fgets_shorter)

declare load_lines.simps [simp del]

definition wii_state_load :: "byte list \<Rightarrow> fs \<Rightarrow> wii_card_state list \<times> fs" where
  "wii_state_load path s =
     (let (file, s) = open_read path s
      in case file of
           None \<Rightarrow> ([], s)
         | Some f \<Rightarrow> (let (text, s) = fread f (length f) s in (load_lines text [], s)))"

text \<open>One line of the kernel's file, and what it does to the table and the count.\<close>

definition runtime_line :: "byte list \<Rightarrow> (byte list \<times> u32 \<times> u32) option" where
  "runtime_line line =
     (case scan_word 6 (c_string line) of
        None \<Rightarrow> None
      | Some (game_id, rest) \<Rightarrow>
          (case scan_unsigned rest of
             None \<Rightarrow> None
           | Some (slot, rest) \<Rightarrow>
               (case scan_unsigned rest of None \<Rightarrow> None | Some (version, rest) \<Rightarrow> Some (game_id, slot, version))))"

definition merge_line :: "byte list \<Rightarrow> wii_card_state list \<times> nat \<Rightarrow> wii_card_state list \<times> nat" where
  "merge_line line = (\<lambda>(cards, merged).
     (case runtime_line line of
        None \<Rightarrow> (cards, merged)
      | Some (game_id, slot, version) \<Rightarrow>
          (case wii_state_get cards game_id (ucast slot) of
             (cards, None) \<Rightarrow> (cards, merged)
           | (cards, Some i) \<Rightarrow>
               let c = cards ! i
               in if k_known c \<and> version \<le> k_version c then (cards, merged)
                  else (cards[i := c\<lparr>k_version := version, k_known := True\<rparr>], merged + 1))))"

function merge_lines :: "byte list \<Rightarrow> wii_card_state list \<times> nat \<Rightarrow> wii_card_state list \<times> nat" where
  "merge_lines f st =
     (case fgets 160 f of None \<Rightarrow> st | Some (line, rest) \<Rightarrow> merge_lines rest (merge_line line st))"
  by pat_completeness auto
termination by (relation "measure (\<lambda>(f, st). length f)") (auto dest: fgets_shorter)

declare merge_lines.simps [simp del]

definition wii_state_merge_runtime ::
    "wii_card_state list \<Rightarrow> byte list \<Rightarrow> fs \<Rightarrow> wii_card_state list \<times> nat option \<times> fs" where
  "wii_state_merge_runtime cards path s =
     (let (file, s) = open_read path s
      in case file of
           None \<Rightarrow> (cards, None, s)
         | Some f \<Rightarrow>
             (let (text, s) = fread f (length f) s;
                  (cards, merged) = merge_lines text (cards, 0)
              in (cards, Some merged, remove path s)))"

text \<open>\<open>wii_state_save\<close> with its file: the text of \<open>SS_Saves\<close>, whose writes and close are not checked.\<close>

definition state_save_file :: "wii_card_state list \<Rightarrow> byte list \<Rightarrow> fs \<Rightarrow> bool \<times> fs" where
  "state_save_file cards path s =
     (let (ok, s) = open_write path s
      in if \<not> ok then (False, s) else let (written, s) = fwrite path (wii_state_save cards) s in (True, fclose path s))"

subsection \<open>What a write leaves on the disk\<close>

lemma card_path_differ:
  assumes "length dir + length stem \<le> 240"
  shows "card_path dir stem ''.tmp'' \<noteq> card_path dir stem ''''"
    "card_path dir stem ''.bak'' \<noteq> card_path dir stem ''''"
  using assms by (simp_all add: card_path_def ascii_def)

lemma saves_write_through:
  assumes wr: "wii_saves_write dir stem data s = (ok, s')"
    and temp: "temp = card_path dir stem ''.tmp''" and final: "final = card_path dir stem ''''" and ne: "temp \<noteq> final"
    and rel: "reliable C_close s" "reliable C_rename s"
  shows "through (update_safe (fs_disk s) temp final data) s s'"
    and "ok \<Longrightarrow> fs_disk s' = (fs_disk s)(final \<mapsto> data, temp := None)"
    and "\<not> ok \<Longrightarrow> fs_disk s' final = fs_disk s final"
proof -
  let ?Q = "update_safe (fs_disk s) temp final data"
  obtain ok1 s1 where 1: "open_write temp s = (ok1, s1)" by fastforce
  obtain n s2 where 2: "fwrite temp data s1 = (n, s2)" by fastforce
  obtain moved s5 where 5: "rename temp final (remove final (fclose temp s2)) = (moved, s5)" by fastforce
  have e: "(ok, s') = (if \<not> ok1 then (False, s1) else if n \<noteq> length data then (False, remove temp (fclose temp s2))
      else if \<not> moved then (False, remove temp s5) else (True, s5))"
    using wr unfolding wii_saves_write_def Let_def temp[symmetric] final[symmetric] 1 prod.case 2 5
    by (auto split: if_splits)
  have "through ?Q s s' \<and> (ok \<longrightarrow> fs_disk s' = (fs_disk s)(final \<mapsto> data, temp := None)) \<and>
      (\<not> ok \<longrightarrow> fs_disk s' final = fs_disk s final)"
  proof (cases ok1)
    case False
    then show ?thesis using e open_write_through[where Q = ?Q, OF 1] ne by (simp add: update_safe_def)
  next
    case True
    note b = building_fclose[OF building_fwrite(1)[OF building_open[OF 1[unfolded True[THEN eqTrueI]] refl] 2] rel(1), simplified]
    show ?thesis
    proof (cases "n = length data")
      case False
      then show ?thesis using e True give_up_through[OF b ne] by simp
    next
      case whole: True
      then have "(ok, s') = (if \<not> moved then (False, remove temp s5) else (True, s5))" using e True by simp
      then show ?thesis
        using take_over_through[OF b[unfolded whole, simplified] ne rel(2) 5] by blast
    qed
  qed
  then show "through ?Q s s'" "ok \<Longrightarrow> fs_disk s' = (fs_disk s)(final \<mapsto> data, temp := None)"
    "\<not> ok \<Longrightarrow> fs_disk s' final = fs_disk s final" by simp_all
qed

text \<open>Copying a card aside touches nothing but the copy, which is complete when success is reported.\<close>

lemma saves_backup_through:
  assumes "wii_saves_backup dir stem data s = (ok, s')" "bak = card_path dir stem ''.bak''" "reliable C_close s"
  shows "through (\<lambda>d. \<forall>q. q \<noteq> bak \<longrightarrow> d q = fs_disk s q) s s'" "ok \<Longrightarrow> fs_disk s' = (fs_disk s)(bak \<mapsto> data)"
proof -
  let ?Q = "\<lambda>d. \<forall>q. q \<noteq> bak \<longrightarrow> d q = fs_disk s q"
  obtain ok1 s1 where 1: "open_write bak s = (ok1, s1)" by fastforce
  obtain n s2 where 2: "fwrite bak data s1 = (n, s2)" by fastforce
  have e: "(ok, s') = (if \<not> ok1 then (False, s1) else if n \<noteq> length data then (False, remove bak (fclose bak s2))
      else (True, fclose bak s2))"
    using assms(1) unfolding wii_saves_backup_def Let_def assms(2)[symmetric] 1 prod.case 2 by (auto split: if_splits)
  have "through ?Q s s' \<and> (ok \<longrightarrow> fs_disk s' = (fs_disk s)(bak \<mapsto> data))"
  proof (cases ok1)
    case False
    then show ?thesis using e open_write_through[where Q = ?Q, OF 1] by simp
  next
    case True
    note b = building_fclose[OF building_fwrite(1)[OF building_open[OF 1[unfolded True[THEN eqTrueI]] refl] 2] assms(3), simplified]
    have t: "through ?Q s (fclose bak s2)" "fs_disk (fclose bak s2) = (fs_disk s)(bak \<mapsto> take n data)"
      using b through_mono[of "draft bak (fs_disk s)", OF _ draft_others] by (simp_all add: building_def)
    have "through ?Q (fclose bak s2) (remove bak (fclose bak s2))"
      using t(2) by (intro remove_through(1)) simp_all
    then show ?thesis using e True t through_trans[OF t(1)] by (cases "n = length data") simp_all
  qed
  then show "through ?Q s s'" "ok \<Longrightarrow> fs_disk s' = (fs_disk s)(bak \<mapsto> data)" by simp_all
qed

text \<open>What follows when only one kind of call fails.\<close>

lemma saves_write_rename_fails:
  assumes "temp = card_path dir stem ''.tmp''" "final = card_path dir stem ''''" "temp \<noteq> final"
  shows "\<exists>s'. wii_saves_write dir stem data (with_fault C_rename Fails s) = (False, s') \<and>
    fs_disk s' = (fs_disk s)(final := None, temp := None)"
proof -
  let ?s = "with_fault C_rename Fails s"
  obtain ok1 s1 where 1: "open_write temp ?s = (ok1, s1)" by fastforce
  then have ok1: "ok1" using open_write_through(2)[where Q = "\<lambda>_. True"] by fastforce
  obtain n s2 where 2: "fwrite temp data s1 = (n, s2)" by fastforce
  note b = building_open[OF 1[unfolded ok1[THEN eqTrueI]] refl]
  note w = building_fclose[OF building_fwrite(1)[OF b 2]]
  have n: "n = length data" using building_fwrite(3)[OF b 2] by simp
  let ?c = "fclose temp s2"
  have c: "fs_disk ?c = (fs_disk s)(temp \<mapsto> data)" "fs_luck ?c = fs_luck ?s" using w n by (simp_all add: building_def through_def)
  obtain moved s5 where 5: "rename temp final (remove final ?c) = (moved, s5)" by fastforce
  have "\<not> moved" "fs_disk (remove temp s5) = (fs_disk s)(final := None, temp := None)"
    using 5 c assms(3) by (auto simp: rename_def remove_def next_luck_def become_def Let_def fun_upd_twist split: if_splits)
  then show ?thesis
    unfolding wii_saves_write_def Let_def assms(1,2)[symmetric] 1 prod.case 2 n 5 by (simp add: ok1)
qed

lemma saves_write_flush_fails:
  assumes "temp = card_path dir stem ''.tmp''" "final = card_path dir stem ''''" "temp \<noteq> final"
  shows "\<exists>s'. wii_saves_write dir stem data (with_fault C_close (Short k) s) = (True, s') \<and> fs_disk s' final = Some (take k data)"
proof -
  let ?s = "with_fault C_close (Short k) s"
  obtain ok1 s1 where 1: "open_write temp ?s = (ok1, s1)" by fastforce
  then have ok1: "ok1" using open_write_through(2)[where Q = "\<lambda>_. True"] by fastforce
  obtain n s2 where 2: "fwrite temp data s1 = (n, s2)" by fastforce
  note b = building_open[OF 1[unfolded ok1[THEN eqTrueI]] refl]
  have n: "n = length data" using building_fwrite(3)[OF b 2] by simp
  have c: "fs_disk s2 = (fs_disk s)(temp \<mapsto> data)" "fs_luck s2 = fs_luck ?s"
    using building_fwrite(1)[OF b 2] n by (simp_all add: building_def through_def)
  obtain moved s5 where 5: "rename temp final (remove final (fclose temp s2)) = (moved, s5)" by fastforce
  have "moved" "fs_disk s5 final = Some (take k data)"
    using 5 c assms(3) by (auto simp: fclose_def rename_def remove_def next_luck_def become_def Let_def split: if_splits)
  then show ?thesis
    unfolding wii_saves_write_def Let_def assms(1,2)[symmetric] 1 prod.case 2 n 5 by (simp add: ok1)
qed

subsection \<open>Which files the functions touch\<close>

lemma saves_read_only:
  assumes "wii_saves_read dir stem buf s = (got, buf', s')"
  shows "only ps s s'" "fs_disk s' = fs_disk s"
proof -
  obtain fo s1 where 1: "open_read (card_path dir stem '''') s = (fo, s1)" by fastforce
  note o = open_read_through[where Q = "apart ps (fs_disk s)", OF 1]
  have "only ps s s' \<and> fs_disk s' = fs_disk s"
  proof (cases "s' = s1")
    case False
    then obtain f got2 where 2: "fread f (length f) s1 = (got2, s')"
      using assms by (auto simp: wii_saves_read_def 1 split: option.splits if_splits prod.splits)
    show ?thesis using fread_through[where Q = "apart ps (fs_disk s)", OF 2] o through_trans by auto
  qed (use o in simp)
  then show "only ps s s'" "fs_disk s' = fs_disk s" by simp_all
qed

lemma saves_read_found:
  assumes "wii_saves_read dir stem buf s = (got, buf', s')"
  shows "length buf' = length buf"
    "got = Some n \<Longrightarrow> \<exists>f. fs_disk s (card_path dir stem '''') = Some f \<and> n = length f \<and> f \<noteq> [] \<and> n \<le> length buf \<and> take n buf' = f"
proof -
  obtain fo s1 where 1: "open_read (card_path dir stem '''') s = (fo, s1)" by fastforce
  note o = open_read_through(3)[where Q = "\<lambda>_. True", OF 1 TrueI]
  have "length buf' = length buf \<and>
    (\<forall>n. got = Some n \<longrightarrow> (\<exists>f. fs_disk s (card_path dir stem '''') = Some f \<and> n = length f \<and> f \<noteq> [] \<and> n \<le> length buf \<and> take n buf' = f))"
  proof (cases fo)
    case None
    then show ?thesis using assms by (simp add: wii_saves_read_def 1)
  next
    case (Some f)
    obtain got2 s2 where 2: "fread f (length f) s1 = (got2, s2)" by fastforce
    obtain k where "k \<le> length f" "got2 = take k f" using fread_through(3)[where Q = "\<lambda>_. True", OF 2 TrueI] by auto
    moreover have "fs_disk s (card_path dir stem '''') = Some f" using o Some by simp
    ultimately show ?thesis
      using assms by (auto simp: wii_saves_read_def 1 2 Some blit_def not_less min_def split: if_splits)
  qed
  then show "length buf' = length buf"
    "got = Some n \<Longrightarrow> \<exists>f. fs_disk s (card_path dir stem '''') = Some f \<and> n = length f \<and> f \<noteq> [] \<and> n \<le> length buf \<and> take n buf' = f"
    by blast+
qed

lemma saves_backup_only:
  assumes "wii_saves_backup dir stem data s = (ok, s')" "card_path dir stem ''.bak'' \<in> ps"
  shows "only ps s s'"
proof -
  let ?bak = "card_path dir stem ''.bak''"
  obtain ok1 s1 where 1: "open_write ?bak s = (ok1, s1)" by fastforce
  obtain n s2 where 2: "fwrite ?bak data s1 = (n, s2)" by fastforce
  note t = only_trans[OF open_write_only[OF 1 assms(2)] only_trans[OF fwrite_only[OF 2 assms(2)] fclose_only[OF assms(2)]]]
  show ?thesis
    using assms(1) open_write_only[OF 1 assms(2)] t only_trans[OF t remove_only[OF assms(2)]]
    by (auto simp: wii_saves_backup_def 1 2 Let_def split: if_splits)
qed

lemma saves_write_only:
  assumes "wii_saves_write dir stem data s = (ok, s')" "card_path dir stem ''.tmp'' \<in> ps" "card_path dir stem '''' \<in> ps"
  shows "only ps s s'"
proof -
  let ?temp = "card_path dir stem ''.tmp''" and ?final = "card_path dir stem ''''"
  obtain ok1 s1 where 1: "open_write ?temp s = (ok1, s1)" by fastforce
  obtain n s2 where 2: "fwrite ?temp data s1 = (n, s2)" by fastforce
  obtain moved s5 where 5: "rename ?temp ?final (remove ?final (fclose ?temp s2)) = (moved, s5)" by fastforce
  note t = only_trans[OF open_write_only[OF 1 assms(2)] only_trans[OF fwrite_only[OF 2 assms(2)] fclose_only[OF assms(2)]]]
  note m = only_trans[OF t only_trans[OF remove_only[OF assms(3)] rename_only[OF 5 assms(2,3)]]]
  show ?thesis
    using assms(1) open_write_only[OF 1 assms(2)] only_trans[OF t remove_only[OF assms(2)]] m only_trans[OF m remove_only[OF assms(2)]]
    by (auto simp: wii_saves_write_def 1 2 5 Let_def split: if_splits)
qed

lemma state_save_only:
  assumes "state_save_file cards path s = (ok, s')" "path \<in> ps"
  shows "only ps s s'"
proof -
  obtain ok1 s1 where 1: "open_write path s = (ok1, s1)" by fastforce
  obtain n s2 where 2: "fwrite path (wii_state_save cards) s1 = (n, s2)" by fastforce
  note t = only_trans[OF open_write_only[OF 1 assms(2)] only_trans[OF fwrite_only[OF 2 assms(2)] fclose_only[OF assms(2)]]]
  show ?thesis
    using assms(1) open_write_only[OF 1 assms(2)] t by (auto simp: state_save_file_def 1 2 split: if_splits)
qed

subsection \<open>Reading numbers and words back\<close>

lemma digit_value: "d < 10 \<Longrightarrow> unat (of_nat (48 + d) :: byte) - 48 = d \<and> digit (of_nat (48 + d))"
  by (drule less_10_cases) (auto simp: digit_def)

lemma number_dec: "number (dec n) = n"
proof (induction n rule: dec.induct)
  case (1 n)
  have f: "number (ds @ [d]) = 10 * number ds + (unat d - 48)" for ds d by (simp add: number_def)
  show ?case
  proof (cases "n < 10")
    case True
    then show ?thesis using digit_value[OF True] by (subst dec.simps) (simp add: number_def)
  next
    case False
    then have "dec n = dec (n div 10) @ [of_nat (48 + n mod 10)]" by (subst dec.simps) simp
    then show ?thesis using 1[OF False] digit_value[of "n mod 10"] by (simp only: f) simp
  qed
qed

lemma dec_is_digit: "c \<in> set (dec n) \<Longrightarrow> digit c"
  using dec_digits[of c n] by (simp add: digit_def)

lemma digit_plain: "digit c \<Longrightarrow> \<not> is_space c \<and> c \<noteq> 0x2D \<and> c \<noteq> 0x2B \<and> c \<noteq> 0 \<and> c \<noteq> 0x0A"
  by (auto simp: digit_def is_space_def word_le_nat_alt)

lemma length_dec: "n < 10 ^ k \<Longrightarrow> 0 < k \<Longrightarrow> length (dec n) \<le> k"
proof (induction n arbitrary: k rule: dec.induct)
  case (1 n)
  show ?case
  proof (cases "n < 10")
    case True
    then show ?thesis using 1(3) by (subst dec.simps) simp
  next
    case False
    obtain j where k: "k = Suc j" using 1(3) by (cases k) auto
    then have "n div 10 < 10 ^ j" "0 < j" using 1(2) False by (auto simp: less_mult_imp_div_less mult.commute intro!: Nat.gr0I)
    then show ?thesis using 1(1)[OF False, of j] False k by (subst dec.simps) simp
  qed
qed

lemma takeWhile_stop: "\<forall>c \<in> set xs. P c \<Longrightarrow> ys = [] \<or> \<not> P (hd ys) \<Longrightarrow> takeWhile P (xs @ ys) = xs"
  by (cases ys) (auto simp: takeWhile_append)

lemma is_space_blank: "is_space 0x20"
  by (simp add: is_space_def)

lemma scan_unsigned_dec:
  assumes "n < 2 ^ 32" "rest = [] \<or> \<not> digit (hd rest)"
  shows "scan_unsigned (0x20 # dec n @ rest) = Some (of_nat n, rest)"
proof -
  obtain d ds where d: "dec n = d # ds" using dec_not_Nil by (cases "dec n") auto
  have "digit d" using dec_is_digit[of d n] d by simp
  note p = digit_plain[OF this]
  have sk: "dropWhile is_space (0x20 # dec n @ rest) = dec n @ rest" using p by (simp add: d is_space_blank)
  have tw: "takeWhile digit (dec n @ rest) = dec n" using dec_is_digit assms(2) by (intro takeWhile_stop) auto
  have h: "hd (dec n @ rest) = d" by (simp add: d)
  show ?thesis
    unfolding scan_unsigned_def sk Let_def h using p tw assms(1) by (simp add: number_dec dec_not_Nil)
qed

text \<open>Six characters, none of them blank.\<close>

definition plain_id :: "byte list \<Rightarrow> bool" where
  "plain_id g \<longleftrightarrow> length g = 6 \<and> 0 \<notin> set g \<and> (\<forall>c \<in> set g. \<not> is_space c)"

lemma scan_word_plain:
  assumes "\<forall>c \<in> set g. \<not> is_space c" "g \<noteq> []" "length g \<le> w" "rest = [] \<or> is_space (hd rest)"
  shows "scan_word w (g @ rest) = Some (g, rest)" "scan_word w (0x20 # g @ rest) = Some (g, rest)"
proof -
  obtain c cs where "g = c # cs" using assms(2) by (cases g) auto
  then have sk: "dropWhile is_space (g @ rest) = g @ rest" "dropWhile is_space (0x20 # g @ rest) = g @ rest"
    using assms(1) by (simp_all add: is_space_blank)
  have tw: "takeWhile (\<lambda>c. \<not> is_space c) (g @ rest) = g" using assms(1,4) by (intro takeWhile_stop) auto
  show "scan_word w (g @ rest) = Some (g, rest)" "scan_word w (0x20 # g @ rest) = Some (g, rest)"
    unfolding scan_word_def sk Let_def tw using assms(2,3) by simp_all
qed

lemma fgets_line:
  assumes "0x0A \<notin> set t" "length t + 2 \<le> cap"
  shows "fgets cap (t @ 0x0A # rest) = Some (t @ [0x0A], rest)"
proof -
  have "takeWhile (\<lambda>c. c \<noteq> 0x0A) (t @ 0x0A # rest) = t" using assms(1) by (intro takeWhile_stop) auto
  moreover have "min (cap - 1) (length t + 1) = length t + 1" using assms(2) by simp
  ultimately show ?thesis by (simp add: fgets_def Let_def)
qed

subsection \<open>The state file, read back\<close>

lemma hex_value_table:
  "\<forall>n \<in> set [0..<16]. hex_value (hex_digit (of_nat n)) = Some (of_nat n) \<and> \<not> is_space (hex_digit (of_nat n))"
  by (simp add: upt_rec hex_value_def hex_digit_def is_space_def)

lemma hex_value_digit: "x < 16 \<Longrightarrow> hex_value (hex_digit x) = Some x"
  by (erule nibble_all[rotated]) (use hex_value_table in blast)

lemma hex_bytes_back: "hex_bytes (length sha) (concat (map hex_byte sha) @ rest) = sha"
  by (induction sha) (simp_all add: hex_byte_def peek_def hex_value_digit nibbles)

lemma hex_digit_not_space: "x < 16 \<Longrightarrow> \<not> is_space (hex_digit x)"
  by (erule nibble_all[rotated]) (use hex_value_table in blast)

lemma hex_text: "\<forall>c \<in> set (concat (map hex_byte sha)). \<not> is_space c \<and> c \<noteq> 0 \<and> c \<noteq> 0x0A"
  using hex_bytes_plain by (fastforce simp: hex_byte_def hex_digit_not_space nibbles)

lemma length_hex: "length (concat (map hex_byte sha)) = 2 * length sha"
  by (induction sha) (simp_all add: hex_byte_def)

text \<open>An entry as the launcher keeps it.\<close>

definition plain_card :: "wii_card_state \<Rightarrow> bool" where
  "plain_card c \<longleftrightarrow> plain_id (k_game_id c) \<and> length (k_sha256 c) = 32 \<and> k_known c"

lemma card_text:
  assumes "plain_card c"
  obtains t where "card_line c = t @ [0x0A]" "0x0A \<notin> set t" "0 \<notin> set t" "length t + 2 \<le> 160"
    "load_line (t @ [0x0A]) = Some c"
proof -
  let ?h = "concat (map hex_byte (k_sha256 c))"
  let ?s = "unat (k_slot c)" and ?v = "unat (k_version c)"
  let ?t = "k_game_id c @ 0x20 # dec ?s @ 0x20 # dec ?v @ 0x20 # ?h"
  have g: "length (k_game_id c) = 6" "0 \<notin> set (k_game_id c)" "\<forall>x \<in> set (k_game_id c). \<not> is_space x" "k_game_id c \<noteq> []"
    using assms by (auto simp: plain_card_def plain_id_def)
  have "length ?h = 64" using length_hex[of "k_sha256 c"] assms by (simp add: plain_card_def)
  then have h: "length ?h = 64" "?h \<noteq> []" by (auto simp del: length_concat concat_eq_Nil_conv)
  have nl: "0x0A \<notin> set (k_game_id c)" using g(3) by (auto simp: is_space_def)
  have d: "x \<noteq> 0 \<and> x \<noteq> 0x0A" if "x \<in> set (dec n)" for x n using digit_plain[OF dec_is_digit[OF that]] by simp
  have clean: "0x0A \<notin> set ?t" "0 \<notin> set ?t" using nl g(2) d hex_text[of "k_sha256 c"] by (auto simp del: set_concat)
  have sv: "?s < 2 ^ 8" "?v < 2 ^ 32" 
    using unat_byte_lt[of "k_slot c"] unat_u32_lt[of "k_version c"] by simp_all
  then have "?s < 10 ^ 3" "?v < 10 ^ 10" by simp_all
  then have "length ?t + 2 \<le> 160" using length_dec[of ?s 3] length_dec[of ?v 10] g(1) h(1) by simp
  moreover have "load_line (?t @ [0x0A]) = Some c"
  proof -
    have cs: "c_string (?t @ [0x0A]) = ?t @ [0x0A]" using clean(2) by (auto simp: c_string_def takeWhile_eq_all_conv)
    have 1: "scan_word 6 (?t @ [0x0A]) = Some (k_game_id c, 0x20 # dec ?s @ 0x20 # dec ?v @ 0x20 # ?h @ [0x0A])"
      using scan_word_plain(1)[OF g(3,4), of 6 "0x20 # dec ?s @ 0x20 # dec ?v @ 0x20 # ?h @ [0x0A]"] g(1)
      by (simp add: is_space_blank)
    have dg: "\<not> digit 0x20" by (simp add: digit_def)
    have 2: "scan_unsigned (0x20 # dec ?s @ 0x20 # dec ?v @ 0x20 # ?h @ [0x0A]) = Some (of_nat ?s, 0x20 # dec ?v @ 0x20 # ?h @ [0x0A])"
      using sv dg by (intro scan_unsigned_dec) auto
    have 3: "scan_unsigned (0x20 # dec ?v @ 0x20 # ?h @ [0x0A]) = Some (of_nat ?v, 0x20 # ?h @ [0x0A])"
      using sv dg by (intro scan_unsigned_dec) auto
    have 4: "scan_word 64 (0x20 # ?h @ [0x0A]) = Some (?h, [0x0A])"
      using hex_text[of "k_sha256 c"] h by (intro scan_word_plain(2)) (auto simp: is_space_def simp del: set_concat)
    have u: "ucast (of_nat ?s :: u32) = k_slot c" by (rule bit_word_eqI) (simp add: bit_simps)
    have b: "hex_bytes 32 ?h = k_sha256 c" using hex_bytes_back[of "k_sha256 c" "[]"] assms by (simp add: plain_card_def)
    show ?thesis
      unfolding load_line_def cs 1 option.case prod.case 2 3 4 b u using assms
      by (simp add: plain_card_def blit_def)
  qed
  ultimately show ?thesis using that[of ?t] clean by (simp add: card_line_def)
qed

lemma load_lines_saved:
  assumes "\<forall>c \<in> set cards. plain_card c" "length pre + length cards \<le> 64"
  shows "load_lines (wii_state_save cards) pre = pre @ cards"
  using assms
proof (induction cards arbitrary: pre)
  case Nil
  then show ?case by (simp add: wii_state_save_def load_lines.simps fgets_def)
next
  case (Cons c cards)
  have "plain_card c" using Cons.prems(1) by simp
  then obtain t where t: "card_line c = t @ [0x0A]" "0x0A \<notin> set t" "0 \<notin> set t" "length t + 2 \<le> 160"
    "load_line (t @ [0x0A]) = Some c" by (rule card_text)
  have sv: "wii_state_save (c # cards) = t @ 0x0A # wii_state_save cards" by (simp add: wii_state_save_def t(1))
  show ?case
    unfolding sv using Cons.IH[of "pre @ [c]"] Cons.prems
    by (subst load_lines.simps) (simp add: fgets_line[OF t(2,4)] t(5) WII_MAX_CARDS_def)
qed

lemma state_save_file_builds:
  assumes "reliable C_open s" "reliable C_write s" "reliable C_close s"
  shows "building path (fs_disk s) (wii_state_save cards) s (snd (state_save_file cards path s))"
proof -
  obtain ok s1 where 1: "open_write path s = (ok, s1)" by fastforce
  then have ok: "ok" using open_write_through(2)[where Q = "\<lambda>_. True"] assms(1) by blast
  obtain n s2 where 2: "fwrite path (wii_state_save cards) s1 = (n, s2)" by fastforce
  note b = building_open[OF 1[unfolded ok[THEN eqTrueI]] refl]
  show ?thesis
    using building_fclose[OF building_fwrite(1)[OF b 2] assms(3)] building_fwrite(3)[OF b 2 assms(2)]
    by (simp add: state_save_file_def 1 2 ok)
qed

lemma wii_state_load_reads:
  assumes "fs_disk s path = Some f" "reliable C_open s" "reliable C_read s"
  shows "fst (wii_state_load path s) = load_lines f []"
proof -
  obtain fo s1 where 1: "open_read path s = (fo, s1)" by fastforce
  note o = open_read_through[where Q = "\<lambda>_. True", OF 1 TrueI]
  have fl: "fo = Some f" "reliable C_read s1" using o(4)[OF assms(2)] o(1) assms by (simp_all add: through_reliable)
  obtain got s2 where 2: "fread f (length f) s1 = (got, s2)" by fastforce
  have "got = f" using fread_through(4)[where Q = "\<lambda>_. True", OF 2 TrueI fl(2)] by simp
  then show ?thesis by (simp add: wii_state_load_def 1 fl(1) 2)
qed

subsection \<open>The versions the kernel hands back\<close>

lemma runtime_line_id: "runtime_line line = Some (g, slot, v) \<Longrightarrow> length g \<le> 6"
  by (auto simp: runtime_line_def scan_word_def Let_def split: option.splits if_splits)

text \<open>An entry of the table later on: the same card, never at a lower version, and known if it was.\<close>

definition moved_on :: "wii_card_state \<Rightarrow> wii_card_state \<Rightarrow> bool" where
  "moved_on c c' \<longleftrightarrow> k_game_id c' = k_game_id c \<and> k_slot c' = k_slot c \<and> k_sha256 c' = k_sha256 c \<and>
     (k_known c \<longrightarrow> k_known c' \<and> k_version c \<le> k_version c')"

definition table_moved :: "wii_card_state list \<Rightarrow> wii_card_state list \<Rightarrow> bool" where
  "table_moved cards cards' \<longleftrightarrow> wf_state cards' \<and> length cards \<le> length cards' \<and>
     (\<forall>i < length cards. moved_on (cards ! i) (cards' ! i))"

lemma table_moved_refl: "wf_state cards \<Longrightarrow> table_moved cards cards"
  by (simp add: table_moved_def moved_on_def)

lemma moved_on_trans: "moved_on c1 c2 \<Longrightarrow> moved_on c2 c3 \<Longrightarrow> moved_on c1 c3"
  by (auto simp: moved_on_def)

lemma table_moved_trans: "table_moved a b \<Longrightarrow> table_moved b c \<Longrightarrow> table_moved a c"
  unfolding table_moved_def by (meson moved_on_trans order_less_le_trans order_trans)

lemma wf_state_update:
  "wf_state cards \<Longrightarrow> k_game_id c = k_game_id (cards ! i) \<Longrightarrow> k_slot c = k_slot (cards ! i) \<Longrightarrow> wf_state (cards[i := c])"
proof -
  assume a: "wf_state cards" "k_game_id c = k_game_id (cards ! i)" "k_slot c = k_slot (cards ! i)"
  have "map (\<lambda>c. (k_game_id c, k_slot c)) (cards[i := c]) = map (\<lambda>c. (k_game_id c, k_slot c)) cards"
    using a(2,3) by (intro nth_equalityI) (auto simp: nth_update_at)
  then show ?thesis using a(1) by (simp add: wf_state_def)
qed

text \<open>What a version of the kernel does to the table.\<close>

definition take_version ::
    "byte list \<Rightarrow> byte \<Rightarrow> u32 \<Rightarrow> wii_card_state list \<times> nat \<Rightarrow> wii_card_state list \<times> nat" where
  "take_version g slot v = (\<lambda>(cards, merged).
     (case wii_state_get cards g slot of
        (cards, None) \<Rightarrow> (cards, merged)
      | (cards, Some i) \<Rightarrow>
          let c = cards ! i
          in if k_known c \<and> v \<le> k_version c then (cards, merged)
             else (cards[i := c\<lparr>k_version := v, k_known := True\<rparr>], merged + 1)))"

lemma merge_line_version:
  "runtime_line line = Some (g, slot, v) \<Longrightarrow> merge_line line = take_version g (ucast slot) v"
  by (simp add: merge_line_def take_version_def fun_eq_iff)

lemma take_version_moved:
  assumes "wf_state cards" "length g \<le> 6"
  shows "table_moved cards (fst (take_version g slot v (cards, m)))"
proof -
  obtain cards1 r where e: "wii_state_get cards g slot = (cards1, r)" by fastforce
  have w: "wf_state cards1" using wii_state_get_wf[OF assms, of slot] e by simp
  obtain new where new: "cards1 = cards @ new" using wii_state_get_prefix[of cards g slot] e by auto
  then have 1: "table_moved cards cards1" using w by (simp add: table_moved_def moved_on_def nth_append)
  show ?thesis
  proof (cases r)
    case None
    then show ?thesis using 1 e by (simp add: take_version_def)
  next
    case (Some i)
    let ?c = "(cards1 ! i)\<lparr>k_version := v, k_known := True\<rparr>"
    have "table_moved cards1 (cards1[i := ?c])" if "\<not> (k_known (cards1 ! i) \<and> v \<le> k_version (cards1 ! i))"
      using that w wf_state_update[of cards1 ?c i]
      by (auto simp: table_moved_def moved_on_def nth_update_at)
    then show ?thesis using 1 e Some table_moved_trans[OF 1] by (simp add: take_version_def Let_def)
  qed
qed

lemma merge_lines_moved: "wf_state cards \<Longrightarrow> table_moved cards (fst (merge_lines f (cards, m)))"
proof (induction f "(cards, m)" arbitrary: cards m rule: merge_lines.induct)
  case (1 f)
  show ?case
  proof (cases "fgets 160 f")
    case None
    then show ?thesis using 1 by (simp add: merge_lines.simps table_moved_refl)
  next
    case (Some lr)
    obtain line rest where lr: "lr = (line, rest)" by (cases lr)
    obtain cards1 m1 where s: "merge_line line (cards, m) = (cards1, m1)" by fastforce
    have "table_moved cards cards1"
    proof (cases "runtime_line line")
      case None
      then show ?thesis using s 1(2) by (auto simp: merge_line_def intro: table_moved_refl)
    next
      case (Some r)
      obtain g slot v where "runtime_line line = Some (g, slot, v)" using Some by (cases r) auto
      then show ?thesis
        using s take_version_moved[OF 1(2) runtime_line_id, of line g slot v "ucast slot" v m] merge_line_version by auto
    qed
    moreover have "table_moved cards1 (fst (merge_lines rest (cards1, m1)))"
      using 1(1)[OF Some lr[symmetric] s] calculation by (simp add: table_moved_def)
    ultimately show ?thesis
      using table_moved_trans Some lr s by (subst merge_lines.simps) simp
  qed
qed

subsection \<open>Properties\<close>

text \<open>
  C3: whatever call fails, and wherever the power goes, as long as closing and renaming work: writing a card
  leaves every other file as it was and the card old, new, or complete under its temporary name; it reports success only
  when the card is the new one, and failure only with the card as it was.
\<close>

theorem saves_write_safe:
  assumes "wii_saves_write dir stem data s = (ok, s')" "length dir + length stem \<le> 240"
    and "reliable C_close s" "reliable C_rename s"
  shows "(\<forall>d \<in> moments s s'. update_safe (fs_disk s) (card_path dir stem ''.tmp'') (card_path dir stem '''') data d) \<and>
    (ok \<longrightarrow> fs_disk s' = (fs_disk s)(card_path dir stem '''' \<mapsto> data, card_path dir stem ''.tmp'' := None)) \<and>
    (\<not> ok \<longrightarrow> fs_disk s' (card_path dir stem '''') = fs_disk s (card_path dir stem ''''))"
  using saves_write_through[OF assms(1) refl refl card_path_differ(1)[OF assms(2)] assms(3,4)] through_moments by blast

definition sd_card :: fs where
  "sd_card = \<lparr>fs_disk = [card_path (ascii ''sd:/saves'') (ascii ''GALE01'') '''' \<mapsto> [1]], fs_luck = (\<lambda>_ _. Works), fs_calls = 0, fs_past = []\<rparr>"

theorem saves_write_safe_witness:
  "\<exists>ok s'. wii_saves_write (ascii ''sd:/saves'') (ascii ''GALE01'') [2, 3] sd_card = (ok, s') \<and>
     (\<forall>d \<in> moments sd_card s'. update_safe (fs_disk sd_card) (card_path (ascii ''sd:/saves'') (ascii ''GALE01'') ''.tmp'')
        (card_path (ascii ''sd:/saves'') (ascii ''GALE01'') '''') [2, 3] d)"
proof -
  obtain ok s' where w: "wii_saves_write (ascii ''sd:/saves'') (ascii ''GALE01'') [2, 3] sd_card = (ok, s')" by fastforce
  show ?thesis using saves_write_safe[OF w] w by (simp add: sd_card_def ascii_def reliable_def)
qed

text \<open>
  C33: the two calls the property above needs. When the rename fails the old card has been removed already, and the
  code removes the complete temporary file as well: the card is gone. When closing the file fails, which is not checked,
  a part of the new card replaces the old one and success is reported.
\<close>

theorem saves_write_loses_card:
  assumes "length dir + length stem \<le> 240"
  shows "\<exists>s1 s2. wii_saves_write dir stem data (with_fault C_rename Fails s) = (False, s1) \<and>
      fs_disk s1 (card_path dir stem '''') = None \<and> fs_disk s1 (card_path dir stem ''.tmp'') = None \<and>
    wii_saves_write dir stem data (with_fault C_close (Short k) s) = (True, s2) \<and>
      fs_disk s2 (card_path dir stem '''') = Some (take k data)"
  using saves_write_rename_fails[OF refl refl card_path_differ(1)[OF assms], of data s]
    saves_write_flush_fails[OF refl refl card_path_differ(1)[OF assms], of data k s] by fastforce

theorem saves_write_loses_card_witness:
  "\<exists>s1. fs_disk sd_card (card_path (ascii ''sd:/saves'') (ascii ''GALE01'') '''') = Some [1] \<and>
     wii_saves_write (ascii ''sd:/saves'') (ascii ''GALE01'') [2, 3] (with_fault C_rename Fails sd_card) = (False, s1) \<and>
     fs_disk s1 (card_path (ascii ''sd:/saves'') (ascii ''GALE01'') '''') = None"
  using saves_write_loses_card[of "ascii ''sd:/saves''" "ascii ''GALE01''" "[2, 3]" sd_card 0]
  by (auto simp: sd_card_def ascii_def)

text \<open>
  The launcher reads back the table it saved: the same entries in the same order, with their versions and
  digests.
\<close>

lemma state_load_save:
  assumes "\<forall>c \<in> set cards. plain_card c" "length cards \<le> 64"
    and "reliable C_open s" "reliable C_write s" "reliable C_close s" "reliable C_read s"
  shows "fst (wii_state_load path (snd (state_save_file cards path s))) = cards"
proof -
  have "building path (fs_disk s) (wii_state_save cards) s (snd (state_save_file cards path s))"
    by (rule state_save_file_builds[OF assms(3-5)])
  then have d: "fs_disk (snd (state_save_file cards path s)) path = Some (wii_state_save cards)"
    and r: "reliable C_open (snd (state_save_file cards path s))" "reliable C_read (snd (state_save_file cards path s))"
    using assms by (auto simp: building_def through_reliable)
  then show ?thesis using load_lines_saved[of cards "[]"] assms(1,2) by (simp add: wii_state_load_reads)
qed

text \<open>
  Whatever the kernel's file holds, merging it keeps every entry of the table in its place with its digest,
  never lowers a version it knows and adds no duplicate.
\<close>

lemma merge_runtime_forward:
  assumes "wf_state cards" "wii_state_merge_runtime cards path s = (cards', merged, s')"
  shows "wf_state cards' \<and> length cards \<le> length cards' \<and>
    (\<forall>i < length cards. k_game_id (cards' ! i) = k_game_id (cards ! i) \<and> k_slot (cards' ! i) = k_slot (cards ! i) \<and>
       k_sha256 (cards' ! i) = k_sha256 (cards ! i) \<and>
       (k_known (cards ! i) \<longrightarrow> k_known (cards' ! i) \<and> k_version (cards ! i) \<le> k_version (cards' ! i)))"
proof -
  have "table_moved cards cards'"
    using assms merge_lines_moved[OF assms(1)] table_moved_refl[OF assms(1)]
    by (auto simp: wii_state_merge_runtime_def Let_def split: prod.splits option.splits) (metis fst_conv)
  then show ?thesis by (auto simp: table_moved_def moved_on_def)
qed

end
