(* ===== verification/SS_FpFiles.thy ===== *)
theory SS_FpFiles
  imports SS_SaveFiles SS_Fingerprint
begin

text \<open>
  \<open>wii/source/wii_fingerprint.c\<close>: the launcher's half of the fingerprint store. Every card's table is kept in one file, which is
  rewritten whole for each card; the file the kernel leaves is merged into it.
\<close>

subsection \<open>Reading\<close>

text \<open>The bytes of the store; \<open>None\<close> is \<open>bytes == NULL\<close>.\<close>

definition wii_fp_store_read :: "byte list \<Rightarrow> fs \<Rightarrow> byte list option \<times> fs" where
  "wii_fp_store_read path s =
     (let (opened, s) = open_read path s
      in case opened of
           None \<Rightarrow> (None, s)
         | Some f \<Rightarrow>
             let (ok, s) = attempt C_seek s
             in if \<not> ok then (None, s)
                else if length f < SS_FP_HEADER_SIZE then (None, s)
                else let (ok, s) = attempt C_seek s
                     in if \<not> ok then (None, s)
                        else let (ok, s) = attempt C_malloc s
                             in if \<not> ok then (None, s)
                                else let (got, s) = fread f (length f) s
                                     in if length got \<noteq> length f then (None, s) else (Some got, s))"

definition wii_fp_store_get ::
    "byte list option \<Rightarrow> byte list \<Rightarrow> byte \<Rightarrow> u32 list \<Rightarrow> (ss_fp_record \<times> u32 list) option" where
  "wii_fp_store_get store game_id slot fp =
     (case store of None \<Rightarrow> None | Some b \<Rightarrow> ss_fp_store_find b game_id slot fp)"

definition wii_fp_usable :: "ss_fp_record \<Rightarrow> u32 \<Rightarrow> u32 \<Rightarrow> byte list \<Rightarrow> bool" where
  "wii_fp_usable rec version n digest \<longleftrightarrow>
     f_version rec = version \<and> f_size rec = n \<and> take SS_FP_DIGEST_SIZE (f_sha256 rec) = take SS_FP_DIGEST_SIZE digest"

text \<open>The records a loop over \<open>ss_fp_store_next\<close> visits from \<open>cursor\<close> on, each with its values.\<close>

lemma store_next_moves: "ss_fp_store_next store cursor = FP_NEXT r v c' \<Longrightarrow> cursor < c' \<and> cursor < length store"
  by (auto simp: ss_fp_store_next_def Let_def fp_consts split: if_splits option.splits)

function store_walk :: "byte list \<Rightarrow> nat \<Rightarrow> (ss_fp_record \<times> byte list) list" where
  "store_walk store cursor =
     (case ss_fp_store_next store cursor of
        FP_NEXT r values cursor' \<Rightarrow> (r, drop values store) # store_walk store cursor'
      | _ \<Rightarrow> [])"
  by pat_completeness auto
termination by (relation "measure (\<lambda>(store, cursor). length store - cursor)") (auto dest: store_next_moves)

declare store_walk.simps [simp del]

definition same_card :: "ss_fp_record \<Rightarrow> ss_fp_record \<Rightarrow> bool" where
  "same_card rec other \<longleftrightarrow> f_slot other = f_slot rec \<and> strn_eq (f_game_id other) (f_game_id rec) SS_GAME_ID_LEN"

definition count_after_put :: "byte list option \<Rightarrow> ss_fp_record \<Rightarrow> nat" where
  "count_after_put store rec =
     (case store of
        None \<Rightarrow> 1
      | Some b \<Rightarrow> fold (\<lambda>(other, values) count. if same_card rec other then count else count + 1) (store_walk b 0) 1)"

subsection \<open>Writing\<close>

text \<open>The table, 128 values at a time.\<close>

function write_slices :: "byte list \<Rightarrow> u32 list \<Rightarrow> nat \<Rightarrow> nat \<Rightarrow> fs \<Rightarrow> bool \<times> fs" where
  "write_slices path fp at left s =
     (if left = 0 then (True, s)
      else let n = min left 128;
               (written, s) = fwrite path (ss_fp_put_values (drop at fp) n) s
           in if written \<noteq> n * 4 then (False, s) else write_slices path fp (at + n) (left - n) s)"
  by pat_completeness auto
termination by (relation "measure (\<lambda>(path, fp, at, left, s). left)") auto

declare write_slices.simps [simp del]

text \<open>A record with its values: encoded ones are copied, otherwise the table is encoded.\<close>

definition write_record ::
    "byte list \<Rightarrow> ss_fp_record \<Rightarrow> byte list option \<Rightarrow> u32 list \<Rightarrow> fs \<Rightarrow> bool \<times> fs" where
  "write_record path rec values fp s =
     (let (written, s) = fwrite path (ss_fp_put_record rec) s
      in if written \<noteq> SS_FP_RECORD_SIZE then (False, s)
         else case values of
                Some v \<Rightarrow> (let len = unat (f_blocks rec * 4); (written, s) = fwrite path (take len v) s in (written = len, s))
              | None \<Rightarrow> write_slices path fp 0 (unat (f_blocks rec)) s)"

text \<open>The other cards' records, copied across.\<close>

fun write_others :: "byte list \<Rightarrow> ss_fp_record \<Rightarrow> (ss_fp_record \<times> byte list) list \<Rightarrow> fs \<Rightarrow> bool \<times> fs" where
  "write_others path rec [] s = (True, s)"
| "write_others path rec ((other, values) # others) s =
     (if same_card rec other then write_others path rec others s
      else let (ok, s) = write_record path other (Some values) [] s
           in if ok then write_others path rec others s else (False, s))"

text \<open>The whole file: its header, the new record first, then the others.\<close>

definition write_store :: "byte list \<Rightarrow> byte list option \<Rightarrow> ss_fp_record \<Rightarrow> u32 list \<Rightarrow> fs \<Rightarrow> bool \<times> fs" where
  "write_store path store rec fp s =
     (let (written, s) = fwrite path (ss_fp_put_header (of_nat (count_after_put store rec))) s
      in if written \<noteq> SS_FP_HEADER_SIZE then (False, s)
         else let (ok, s) = write_record path rec None fp s
              in if \<not> ok then (False, s)
                 else case store of None \<Rightarrow> (True, s) | Some b \<Rightarrow> write_others path rec (store_walk b 0) s)"

definition wii_fp_store_put :: "byte list \<Rightarrow> ss_fp_record \<Rightarrow> u32 list \<Rightarrow> fs \<Rightarrow> bool \<times> fs" where
  "wii_fp_store_put path rec fp s =
     (if f_blocks rec = 0 \<or> f_blocks rec \<noteq> ss_fp_blocks (f_size rec) then (False, s)
      else let (store, s) = wii_fp_store_read path s;
               temp = path @ ascii ''.tmp''
           in if 256 \<le> length temp then (False, s)
              else let (ok, s) = open_write temp s
                   in if \<not> ok then (False, s)
                      else let (ok, s) = write_store temp store rec fp s;
                               s = fclose temp s
                           in if \<not> ok then (False, remove temp s)
                              else let s = remove path s;
                                       (moved, s) = rename temp path s
                                   in if \<not> moved then (False, remove temp s) else (True, s))"

text \<open>The loop over the kernel's records; \<open>malloc\<close> gives it a table of its own for each.\<close>

fun merge_records :: "byte list \<Rightarrow> (ss_fp_record \<times> byte list) list \<Rightarrow> nat \<Rightarrow> fs \<Rightarrow> nat \<times> fs" where
  "merge_records path [] merged s = (merged, s)"
| "merge_records path ((rec, values) # records) merged s =
     (let (ok, s) = attempt C_malloc s
      in if \<not> ok then (merged, s)
         else let n = unat (f_blocks rec);
                  fp = ss_fp_get_values (replicate n 0) values n;
                  (ok, s) = wii_fp_store_put path rec fp s
              in merge_records path records (if ok then merged + 1 else merged) s)"

definition wii_fp_merge_runtime :: "byte list \<Rightarrow> byte list \<Rightarrow> fs \<Rightarrow> nat option \<times> fs" where
  "wii_fp_merge_runtime path incoming s =
     (let (store, s) = wii_fp_store_read incoming s
      in case store of
           None \<Rightarrow> (None, remove incoming s)
         | Some b \<Rightarrow>
             let (merged, s) = merge_records path (store_walk b 0) 0 s
             in (Some merged, remove incoming s))"

subsection \<open>What the functions compute\<close>

text \<open>A record of a store with its table, and all of them.\<close>

definition decode_entry :: "ss_fp_record \<times> byte list \<Rightarrow> ss_fp_record \<times> u32 list" where
  "decode_entry e = (case e of (r, v) \<Rightarrow> (r, map (\<lambda>i. ss_get_u32 (drop (i * 4) v)) [0..<unat (f_blocks r)]))"

lemma fst_decode_entry [simp]: "fst (decode_entry (r, v)) = r"
  by (simp add: decode_entry_def)

definition entries :: "byte list option \<Rightarrow> (ss_fp_record \<times> u32 list) list" where
  "entries store = (case store of None \<Rightarrow> [] | Some b \<Rightarrow> map decode_entry (store_walk b 0))"

definition put_entry :: "ss_fp_record \<times> u32 list \<Rightarrow> (ss_fp_record \<times> u32 list) list \<Rightarrow> (ss_fp_record \<times> u32 list) list" where
  "put_entry e es = e # filter (\<lambda>e2. \<not> same_card (fst e) (fst e2)) es"

text \<open>A record whose values lie inside the file.\<close>

definition whole :: "ss_fp_record \<times> byte list \<Rightarrow> bool" where
  "whole e \<longleftrightarrow> (case e of (r, v) \<Rightarrow> 4 * unat (f_blocks r) \<le> length v \<and> unat (f_blocks r) < 2 ^ 30)"

lemma store_walk_whole: "length store < 2 ^ 32 \<Longrightarrow> \<forall>e \<in> set (store_walk store cursor). whole e"
proof (induction store cursor rule: store_walk.induct)
  case (1 store cursor)
  show ?case
  proof (cases "ss_fp_store_next store cursor")
    case (FP_NEXT r vals c')
    note b = store_next_bounds[OF FP_NEXT 1(2)]
    have "whole (r, drop vals store)" using b(2,3) 1(2) by (simp add: whole_def)
    then show ?thesis using 1(1)[OF FP_NEXT 1(2)] by (subst store_walk.simps) (simp add: FP_NEXT)
  qed ((subst store_walk.simps, simp)+)
qed

lemma count_after_put_eq:
  "count_after_put store rec = length (put_entry (rec, vs) (entries store))"
proof -
  have "fold (\<lambda>(other, values) count. if same_card rec other then count else count + 1) es n =
      n + length (filter (\<lambda>e. \<not> same_card rec (fst e)) (map decode_entry es))" for es n
    by (induction es arbitrary: n) auto
  then show ?thesis by (simp add: count_after_put_def entries_def put_entry_def split: option.split)
qed

lemma length_put_record [simp]: "length (ss_fp_put_record r) = 56"
  by (simp add: ss_fp_put_record_def fp_consts SS_FP_RECORD_SIZE_def Let_def)

lemma length_put_header [simp]: "length (ss_fp_put_header n) = 16"
  by (simp add: ss_fp_put_header_eq SS_FP_MAGIC_def)

lemma length_put_values [simp]: "length (ss_fp_put_values fp n) = 4 * n"
  using u32.length_table[of "map ((!) fp) [0..<n]"] by (simp add: ss_fp_put_values_def comp_def)

lemma put_values_split:
  assumes "at + n + m \<le> length fp"
  shows "ss_fp_put_values (drop at fp) (n + m) = ss_fp_put_values (drop at fp) n @ ss_fp_put_values (drop (at + n) fp) m"
proof -
  have "[0..<n + m] = [0..<n] @ map (\<lambda>i. i + n) [0..<m]"
    using upt_add_eq_append[of 0 n m] map_add_upt[of n m] by (simp add: add.commute)
  then show ?thesis using assms by (simp add: ss_fp_put_values_def comp_def add.assoc add.commute[of n])
qed

lemma write_slices_building:
  assumes "building path d t s s1" "write_slices path fp at left s1 = (ok, s2)" "at + left \<le> length fp"
  shows "\<exists>u. building path d (t @ u) s s2 \<and> (ok \<longrightarrow> u = ss_fp_put_values (drop at fp) left) \<and> (reliable C_write s \<longrightarrow> ok)"
  using assms
proof (induction path fp at left s1 arbitrary: t rule: write_slices.induct)
  case (1 path fp at left s1)
  show ?case
  proof (cases "left = 0")
    case True
    then show ?thesis using 1(2,3) by (auto simp: write_slices.simps ss_fp_put_values_def intro: exI[of _ "[]"])
  next
    case False
    let ?n = "min left 128"
    obtain w s3 where w: "fwrite path (ss_fp_put_values (drop at fp) ?n) s1 = (w, s3)" by fastforce
    note b = building_fwrite[OF 1(2) w]
    show ?thesis
    proof (cases "w = ?n * 4")
      case True
      then have b2: "building path d (t @ ss_fp_put_values (drop at fp) ?n) s s3" using b(1) by simp
      have rec: "write_slices path fp (at + ?n) (left - ?n) s3 = (ok, s2)"
        using 1(3) False True by (subst (asm) write_slices.simps) (simp add: w Let_def)
      obtain u where "building path d ((t @ ss_fp_put_values (drop at fp) ?n) @ u) s s2"
        "ok \<longrightarrow> u = ss_fp_put_values (drop (at + ?n) fp) (left - ?n)" "reliable C_write s \<longrightarrow> ok"
        using 1(1)[OF False refl w[symmetric] refl _ b2 rec] True 1(4) by auto
      then show ?thesis
        using put_values_split[of at ?n "left - ?n" fp] 1(4)
        by (intro exI[of _ "ss_fp_put_values (drop at fp) ?n @ u"]) auto
    next
      case False2: False
      then have "(ok, s2) = (False, s3)" using 1(3) False by (subst (asm) write_slices.simps) (simp add: w Let_def)
      then show ?thesis using b False2 by (intro exI[of _ "take w (ss_fp_put_values (drop at fp) ?n)"]) auto
    qed
  qed
qed

text \<open>What \<open>write_record\<close> is to append.\<close>

lemma write_record_building:
  assumes b: "building path d t s s1" and w: "write_record path r values fp s1 = (ok, s2)"
    and v: "case values of Some v \<Rightarrow> whole (r, v) \<and> e = decode_entry (r, v)
      | None \<Rightarrow> unat (f_blocks r) \<le> length fp \<and> e = (r, take (unat (f_blocks r)) fp)"
  shows "\<exists>u. building path d (t @ u) s s2 \<and> (ok \<longrightarrow> u = encode_entry e) \<and> (reliable C_write s \<longrightarrow> ok)"
proof -
  obtain n s3 where 1: "fwrite path (ss_fp_put_record r) s1 = (n, s3)" by fastforce
  note b1 = building_fwrite[OF b 1]
  show ?thesis
  proof (cases "n = 56")
    case False
    then show ?thesis using b1 w by (auto simp: write_record_def 1 SS_FP_RECORD_SIZE_def)
  next
    case True
    have b2: "building path d (t @ ss_fp_put_record r) s s3" using b1(1) True by simp
    let ?k = "unat (f_blocks r)"
    show ?thesis
    proof (cases "values")
      case None
      have "write_slices path fp 0 ?k s3 = (ok, s2)" using w None True by (simp add: write_record_def 1 SS_FP_RECORD_SIZE_def)
      moreover have "encode_entry (r, take ?k fp) = ss_fp_put_record r @ ss_fp_put_values fp ?k"
        using v None by (auto simp: encode_entry_def ss_fp_put_values_def min_absorb2 intro!: arg_cong[of _ _ concat])
      ultimately show ?thesis using write_slices_building[OF b2, of fp 0 ?k ok s2] v None by fastforce
    next
      case (Some p)
      have len: "unat (f_blocks r * 4) = 4 * ?k" using v Some by (simp add: whole_def unat_word_ariths)
      obtain m s4 where 2: "fwrite path (take (4 * ?k) p) s3 = (m, s4)" by fastforce
      note b3 = building_fwrite[OF b2 2]
      have p: "4 * ?k \<le> length p" using v Some by (simp add: whole_def)
      have "encode_entry e = ss_fp_put_record r @ take (4 * ?k) p"
        using u32.table_of_bytes[of ?k p] v Some p
        by (simp add: encode_entry_def decode_entry_def put_values_table[of "map _ [0..<?k]", simplified] comp_def mult.commute)
      moreover have "ok \<longleftrightarrow> m = 4 * ?k" "s2 = s4" using w Some True 2 by (auto simp: write_record_def 1 SS_FP_RECORD_SIZE_def len Let_def)
      ultimately show ?thesis using b3 p by auto
    qed
  qed
qed

lemma write_others_building:
  assumes "building path d t s s1" "write_others path rec es s1 = (ok, s2)" "\<forall>e \<in> set es. whole e"
  shows "\<exists>u. building path d (t @ u) s s2 \<and> (reliable C_write s \<longrightarrow> ok) \<and>
    (ok \<longrightarrow> u = concat (map encode_entry (filter (\<lambda>e. \<not> same_card rec (fst e)) (map decode_entry es))))"
  using assms
proof (induction path rec es s1 arbitrary: t rule: write_others.induct)
  case (1 path rec s1)
  then show ?case by (auto intro: exI[of _ "[]"])
next
  case (2 path rec other v others s1)
  show ?case
  proof (cases "same_card rec other")
    case True
    then show ?thesis using 2(1)[OF True 2(3)] 2(4,5) by simp
  next
    case False
    obtain ok1 s3 where r: "write_record path other (Some v) [] s1 = (ok1, s3)" by fastforce
    obtain u where u: "building path d (t @ u) s s3" "ok1 \<longrightarrow> u = encode_entry (decode_entry (other, v))" "reliable C_write s \<longrightarrow> ok1"
      using write_record_building[OF 2(3) r, of "decode_entry (other, v)"] 2(5) by auto
    show ?thesis
    proof (cases ok1)
      case True
      then obtain u2 where "building path d ((t @ u) @ u2) s s2" "reliable C_write s \<longrightarrow> ok"
        "ok \<longrightarrow> u2 = concat (map encode_entry (filter (\<lambda>e. \<not> same_card rec (fst e)) (map decode_entry others)))"
        using 2(2)[OF False r[symmetric] refl True u(1)] 2(4,5) False True by (auto simp: r)
      then show ?thesis using u(2) True False by (intro exI[of _ "u @ u2"]) auto
    next
      case False2: False
      then show ?thesis using u 2(4) False by (auto simp: r)
    qed
  qed
qed

lemma fp_read_only:
  assumes "wii_fp_store_read path s = (store, s')"
  shows "\<exists>c. s' = s\<lparr>fs_calls := c\<rparr>" "store = None \<or> store = fs_disk s path"
proof -
  have "(\<exists>c. s' = s\<lparr>fs_calls := c\<rparr>) \<and> (store = None \<or> store = fs_disk s path)"
    using assms
    by (auto simp: wii_fp_store_read_def open_read_def attempt_def fread_def next_luck_def Let_def
        split: option.splits if_splits luck.splits)
  then show "\<exists>c. s' = s\<lparr>fs_calls := c\<rparr>" "store = None \<or> store = fs_disk s path" by simp_all
qed

lemma fp_read_through:
  assumes "wii_fp_store_read path s = (store, s')"
  shows "Q (fs_disk s) \<Longrightarrow> through Q s s'" "fs_disk s' = fs_disk s" "reliable c s' \<longleftrightarrow> reliable c s"
  using fp_read_only(1)[OF assms] by (auto simp: through_def reliable_def)

text \<open>The calls a read makes.\<close>

definition readable :: "fs \<Rightarrow> bool" where
  "readable s \<longleftrightarrow> reliable C_open s \<and> reliable C_seek s \<and> reliable C_malloc s \<and> reliable C_read s"

lemma entries_short: "length f < 16 \<Longrightarrow> entries (Some f) = []"
  by (subst entries_def) (simp add: store_walk.simps ss_fp_store_next_def ss_fp_store_count_def SS_FP_HEADER_SIZE_def)

lemma fp_read_works:
  assumes "wii_fp_store_read path s = (store, s')" "readable s"
  shows "entries store = entries (fs_disk s path)"
proof (cases "fs_disk s path")
  case None
  then show ?thesis using fp_read_only(2)[OF assms(1)] by auto
next
  case (Some f)
  then have "store = (if length f < 16 then None else Some f)"
    using assms
    by (auto simp: wii_fp_store_read_def open_read_def attempt_def fread_def next_luck_def Let_def readable_def
        reliable_def SS_FP_HEADER_SIZE_def split: if_splits)
  then show ?thesis using Some entries_short by (simp add: entries_def)
qed

lemma write_store_building:
  assumes b: "building path d [] s s1" and w: "write_store path store rec fp s1 = (ok, s2)"
    and fp: "unat (f_blocks rec) \<le> length fp" and len: "\<And>f. store = Some f \<Longrightarrow> length f < 2 ^ 32"
  shows "\<exists>t. building path d t s s2 \<and> (reliable C_write s \<longrightarrow> ok) \<and>
    (ok \<longrightarrow> t = encode_store (put_entry (rec, take (unat (f_blocks rec)) fp) (entries store)))"
proof -
  let ?e = "(rec, take (unat (f_blocks rec)) fp)" and ?h = "ss_fp_put_header (of_nat (count_after_put store rec))"
  have new: "encode_store (put_entry ?e (entries store)) =
      (?h @ encode_entry ?e) @ concat (map encode_entry (filter (\<lambda>e. \<not> same_card rec (fst e)) (entries store)))"
    using count_after_put_eq[of store rec "snd ?e"] by (simp add: encode_store_def put_entry_def)
  obtain n s3 where 1: "fwrite path ?h s1 = (n, s3)" by fastforce
  note b1 = building_fwrite[OF b 1]
  show ?thesis
  proof (cases "n = 16")
    case False
    then show ?thesis using b1 w by (auto simp: write_store_def 1 SS_FP_HEADER_SIZE_def)
  next
    case True
    then have b2: "building path d ?h s s3" using b1(1) by simp
    obtain ok1 s4 where 2: "write_record path rec None fp s3 = (ok1, s4)" by fastforce
    obtain u where u: "building path d (?h @ u) s s4" "ok1 \<longrightarrow> u = encode_entry ?e" "reliable C_write s \<longrightarrow> ok1"
      using write_record_building[OF b2 2, of ?e] fp by auto
    have rest: "(ok, s2) = (if \<not> ok1 then (False, s4)
        else case store of None \<Rightarrow> (True, s4) | Some b \<Rightarrow> write_others path rec (store_walk b 0) s4)"
      using w True by (simp add: write_store_def 1 2 SS_FP_HEADER_SIZE_def)
    show ?thesis
    proof (cases "ok1 \<and> store \<noteq> None")
      case False
      then show ?thesis
        using u rest new by (intro exI[of _ "?h @ u"]) (auto simp: entries_def split: if_splits option.splits)
    next
      case True
      then obtain f where f: "store = Some f" by auto
      have b3: "building path d (?h @ encode_entry ?e) s s4" using u True by simp
      show ?thesis
        using write_others_building[OF b3 _ store_walk_whole[OF len[OF f]], of rec 0 ok s2] rest True f new
        by (auto simp: entries_def)
    qed
  qed
qed

text \<open>A rewrite of the store for one card. The old store counts as empty when it could not be read.\<close>

lemma fp_put_through:
  assumes put: "wii_fp_store_put path rec fp s = (ok, s')"
    and rel: "reliable C_close s" "reliable C_rename s"
    and fp: "unat (f_blocks rec) \<le> length fp" and len: "\<And>f. fs_disk s path = Some f \<Longrightarrow> length f < 2 ^ 32"
  shows "\<exists>es new. (es = [] \<or> es = entries (fs_disk s path)) \<and> (readable s \<longrightarrow> es = entries (fs_disk s path)) \<and>
    new = encode_store (put_entry (rec, take (unat (f_blocks rec)) fp) es) \<and>
    through (update_safe (fs_disk s) (path @ ascii ''.tmp'') path new) s s' \<and>
    (ok \<longrightarrow> fs_disk s' = (fs_disk s)(path \<mapsto> new, path @ ascii ''.tmp'' := None)) \<and>
    (\<not> ok \<longrightarrow> fs_disk s' path = fs_disk s path) \<and>
    (f_blocks rec \<noteq> 0 \<and> f_blocks rec = ss_fp_blocks (f_size rec) \<and> length path < 252 \<and> reliable C_open s \<and>
       reliable C_write s \<and> reliable C_remove s \<longrightarrow> ok)"
proof -
  obtain store s1 where r: "wii_fp_store_read path s = (store, s1)" by fastforce
  note rd = fp_read_through[OF r]
  define new where "new = encode_store (put_entry (rec, take (unat (f_blocks rec)) fp) (entries store))"
  let ?temp = "path @ ascii ''.tmp''" and ?d = "fs_disk s"
  let ?Q = "update_safe ?d ?temp path new"
  define valid where "valid \<longleftrightarrow> f_blocks rec \<noteq> 0 \<and> f_blocks rec = ss_fp_blocks (f_size rec)"
  have lt: "length ?temp = length path + 4" by (simp add: ascii_def)
  have ne: "?temp \<noteq> path" by (simp add: ascii_def)
  have q: "?Q ?d" "through ?Q s s1" using rd(1)[of ?Q] by (simp_all add: update_safe_def)
  have sl: "\<And>f. store = Some f \<Longrightarrow> length f < 2 ^ 32" using fp_read_only(2)[OF r] len by auto
  obtain ok1 s2 where 1: "open_write ?temp s1 = (ok1, s2)" by fastforce
  obtain ok2 s3 where 2: "write_store ?temp store rec fp s2 = (ok2, s3)" by fastforce
  obtain moved s5 where 5: "rename ?temp path (remove path (fclose ?temp s3)) = (moved, s5)" by fastforce
  have e: "(ok, s') = (if \<not> valid then (False, s) else if 256 \<le> length ?temp then (False, s1) else if \<not> ok1 then (False, s2)
      else if \<not> ok2 then (False, remove ?temp (fclose ?temp s3))
      else if \<not> moved then (False, remove ?temp s5) else (True, s5))"
    using put unfolding wii_fp_store_put_def Let_def r prod.case 1 2 5 valid_def by (auto split: if_splits)
  have "through ?Q s s' \<and> (ok \<longrightarrow> fs_disk s' = ?d(path \<mapsto> new, ?temp := None)) \<and> (\<not> ok \<longrightarrow> fs_disk s' path = ?d path) \<and>
    (valid \<and> length path < 252 \<and> reliable C_open s \<and> reliable C_write s \<and> reliable C_remove s \<longrightarrow> ok)"
  proof (cases "valid \<and> length ?temp < 256 \<and> ok1")
    case False
    have o: "through ?Q s1 s2" "reliable C_open s \<Longrightarrow> ok1" "\<not> ok1 \<Longrightarrow> fs_disk s2 = ?d"
      using open_write_through[where Q = ?Q, OF 1] rd(2,3) ne by (auto simp: update_safe_def)
    consider "\<not> valid" "ok = False" "s' = s" | "252 \<le> length path" "ok = False" "s' = s1"
      | "\<not> ok1" "ok = False" "s' = s2"
      using False e by (auto simp: not_less split: if_splits)
    then show ?thesis
      by cases (use q rd(2) o through_trans[OF q(2) o(1)] through_refl[of ?Q s] in auto)
  next
    case True
    have b0: "building ?temp ?d [] s1 s2" using building_open 1 True rd(2) by simp
    obtain t where t: "building ?temp ?d t s1 s3" "reliable C_write s1 \<longrightarrow> ok2" "ok2 \<longrightarrow> t = new"
      using write_store_building[OF b0 2 fp sl] unfolding new_def by blast
    note b = building_fclose[OF t(1) rel(1)[unfolded rd(3)[symmetric]]]
    show ?thesis
    proof (cases ok2)
      case False
      then have "ok = False" "s' = remove ?temp (fclose ?temp s3)" using e True lt by simp_all
      then show ?thesis using False give_up_through[OF b ne] through_trans[OF q(2)] t(2) rd(3) by simp
    next
      case ok2: True
      then have "(ok, s') = (if \<not> moved then (False, remove ?temp s5) else (True, s5))" using e True lt by simp
      note m = take_over_through[OF b[unfolded t(3)[rule_format, OF ok2]] ne rel(2)[unfolded rd(3)[symmetric]] 5 this]
      show ?thesis using m through_trans[OF q(2) m(1)] by (auto simp: rd(3))
    qed
  qed
  then show ?thesis
    using fp_read_only(2)[OF r] fp_read_works[OF r] unfolding valid_def
    by (intro exI[of _ "entries store"] exI[of _ new]) (auto simp: entries_def new_def)
qed

text \<open>Which files a rewrite touches, whatever happens.\<close>

lemma write_slices_only: "write_slices p fp at left s = (ok, s') \<Longrightarrow> p \<in> ps \<Longrightarrow> only ps s s'"
proof (induction p fp at left s rule: write_slices.induct)
  case (1 p fp at left s)
  show ?case
  proof (cases "left = 0")
    case False
    obtain n s1 where w: "fwrite p (ss_fp_put_values (drop at fp) (min left 128)) s = (n, s1)" by fastforce
    note o = fwrite_only[OF w 1(3)]
    show ?thesis
    proof (cases "n = min left 128 * 4")
      case True
      have "write_slices p fp (at + min left 128) (left - min left 128) s1 = (ok, s')"
        using 1(2) False True by (subst (asm) write_slices.simps) (simp add: w Let_def)
      then show ?thesis using 1(1)[OF False refl w[symmetric] refl _ _ 1(3)] True only_trans[OF o] by blast
    next
      case False
      then show ?thesis using 1(2) \<open>left \<noteq> 0\<close> o by (subst (asm) write_slices.simps) (simp add: w Let_def)
    qed
  qed (use 1(2) in \<open>simp add: write_slices.simps\<close>)
qed

lemma write_record_only:
  assumes "write_record p r values fp s = (ok, s')" "p \<in> ps"
  shows "only ps s s'"
proof -
  obtain n s1 where 1: "fwrite p (ss_fp_put_record r) s = (n, s1)" by fastforce
  note o = fwrite_only[OF 1 assms(2)]
  have "s' = s1 \<or> write_slices p fp 0 (unat (f_blocks r)) s1 = (ok, s') \<or>
      (\<exists>v m. fwrite p v s1 = (m, s'))"
    using assms(1) by (auto simp: write_record_def 1 Let_def split: if_splits option.splits prod.splits)
  then show ?thesis
    using o only_trans[OF o] write_slices_only[OF _ assms(2)] fwrite_only[OF _ assms(2)] by metis
qed

lemma write_others_only: "write_others p r es s = (ok, s') \<Longrightarrow> p \<in> ps \<Longrightarrow> only ps s s'"
proof (induction p r es s rule: write_others.induct)
  case (2 p r other v others s)
  show ?case
  proof (cases "same_card r other")
    case False
    obtain ok1 s1 where w: "write_record p other (Some v) [] s = (ok1, s1)" by fastforce
    note o = write_record_only[OF w 2(4)]
    show ?thesis
      using 2(2)[OF False w[symmetric] refl _ _ 2(4)] 2(3) False o only_trans[OF o] by (cases ok1) (auto simp: w)
  qed (use 2(1) 2(3,4) in simp)
qed simp

lemma fp_put_only:
  assumes "wii_fp_store_put path r fp s = (ok, s')"
  shows "only {path, path @ ascii ''.tmp''} s s'"
proof -
  let ?temp = "path @ ascii ''.tmp''" and ?ps = "{path, path @ ascii ''.tmp''}"
  have p: "?temp \<in> ?ps" "path \<in> ?ps" by simp_all
  obtain store s1 where r: "wii_fp_store_read path s = (store, s1)" by fastforce
  have rd: "only ?ps s s1" by (rule fp_read_through(1)[OF r]) simp
  obtain ok1 s2 where 1: "open_write ?temp s1 = (ok1, s2)" by fastforce
  note o = only_trans[OF rd open_write_only[OF 1 p(1)]]
  obtain n s3 where h: "fwrite ?temp (ss_fp_put_header (of_nat (count_after_put store r))) s2 = (n, s3)" by fastforce
  note oh = fwrite_only[OF h p(1)]
  obtain ok2 s4 where 2: "write_store ?temp store r fp s2 = (ok2, s4)" by fastforce
  have ow: "only ?ps s2 s4"
  proof -
    obtain ok3 s5 where 3: "write_record ?temp r None fp s3 = (ok3, s5)" by fastforce
    note t = only_trans[OF oh write_record_only[OF 3 p(1)]]
    have "s4 = s3 \<or> s4 = s5 \<or> (\<exists>es. write_others ?temp r es s5 = (ok2, s4))"
      using 2 by (auto simp: write_store_def h 3 split: if_splits option.splits)
    then show ?thesis using oh t only_trans[OF t write_others_only[OF _ p(1)]] by auto
  qed
  note c = only_trans[OF o only_trans[OF ow fclose_only[OF p(1)]]]
  obtain moved s5 where 5: "rename ?temp path (remove path (fclose ?temp s4)) = (moved, s5)" by fastforce
  note m = only_trans[OF c only_trans[OF remove_only[OF p(2)] rename_only[OF 5 p]]]
  have "s' = s \<or> s' = s1 \<or> s' = s2 \<or> s' = remove ?temp (fclose ?temp s4) \<or> s' = remove ?temp s5 \<or> s' = s5"
    using assms unfolding wii_fp_store_put_def Let_def r prod.case 1 2 5 by (auto split: if_splits)
  then show ?thesis
    using only_refl[of ?ps s] rd o only_trans[OF c remove_only[OF p(1)]] m only_trans[OF m remove_only[OF p(1)]] by blast
qed

subsection \<open>The store as a table\<close>

lemma walk_entries:
  assumes "\<forall>e \<in> set es. wf_entry e" "store = pre @ concat (map encode_entry es)" "length store < 2 ^ 32"
    and "cursor = length pre \<and> 0 < cursor \<or> cursor = 0 \<and> length pre = 16 \<and> ss_fp_store_count store \<noteq> None"
  shows "map decode_entry (store_walk store cursor) = es"
  using assms
proof (induction es arbitrary: pre cursor)
  case Nil
  then have "ss_fp_store_next store cursor = FP_END" by (auto simp: ss_fp_store_next_def fp_consts)
  then show ?case by (simp add: store_walk.simps)
next
  case (Cons e es)
  obtain r vs where e: "e = (r, vs)" by (cases e)
  have wf: "wf_entry (r, vs)" using Cons.prems(1) e by simp
  let ?enc = "encode_entry (r, vs)"
  have st: "store = pre @ ?enc @ concat (map encode_entry es)" using Cons.prems(2) e by simp
  note nxt = store_next_entry[OF wf st Cons.prems(3,4)]
  have vals: "drop (length pre + 56) store = concat (map ss_put_u32 vs) @ concat (map encode_entry es)"
    by (simp add: st encode_entry_def put_values_table)
  have "map (\<lambda>i. ss_get_u32 (drop (i * 4) (concat (map ss_put_u32 vs) @ concat (map encode_entry es)))) [0..<length vs] = vs"
    by (rule nth_equalityI) (simp_all add: u32.get_table del: drop_append)
  moreover have "unat (f_blocks r) = length vs" using wf by (simp add: wf_entry_def)
  ultimately have "decode_entry (r, drop (length pre + 56) store) = (r, vs)" unfolding vals decode_entry_def prod.case by simp
  moreover have "map decode_entry (store_walk store (length pre + length ?enc)) = es"
    using Cons.prems(1,3) st length_encode_entry[OF wf] by (intro Cons.IH[of "pre @ ?enc"]) auto
  ultimately show ?case by (subst store_walk.simps) (simp add: nxt e)
qed

text \<open>A store a file can hold: at most 65535 records, and offsets in 32 bits.\<close>

definition storable :: "(ss_fp_record \<times> u32 list) list \<Rightarrow> bool" where
  "storable es \<longleftrightarrow> (\<forall>e \<in> set es. wf_entry e) \<and> length es < 2 ^ 16 \<and> length (encode_store es) < 2 ^ 32"

lemma entries_encode:
  assumes "storable es"
  shows "entries (Some (encode_store es)) = es"
  using walk_entries[of es "encode_store es" "ss_fp_put_header (of_nat (length es))" 0] assms store_count_encode[of es]
  by (simp add: entries_def storable_def) (simp add: encode_store_def)

lemma encode_put_entry_le:
  "length (encode_store (put_entry e es)) \<le> length (encode_store es) + length (encode_entry e)"
  "length (put_entry e es) \<le> length es + 1"
proof -
  have "length (concat (map encode_entry (filter P es))) \<le> length (concat (map encode_entry es))" for P
    by (induction es) auto
  then show "length (encode_store (put_entry e es)) \<le> length (encode_store es) + length (encode_entry e)"
    by (simp add: encode_store_def put_entry_def add.commute[of "length (encode_entry e)"] flip: add.assoc)
  show "length (put_entry e es) \<le> length es + 1" by (simp add: put_entry_def)
qed

lemma storable_put:
  assumes "storable es" "wf_entry e" "length es + 1 < 2 ^ 16" "length (encode_store es) + length (encode_entry e) < 2 ^ 32"
  shows "storable (put_entry e es)"
proof -
  have "\<forall>e2 \<in> set (put_entry e es). wf_entry e2" using assms(1,2) by (auto simp: storable_def put_entry_def)
  then show ?thesis using assms(3,4) encode_put_entry_le[of e es] by (simp add: storable_def)
qed

lemma same_card_full:
  assumes "wf_entry (r, vs)" "wf_entry (other, ws)"
  shows "same_card r other \<longleftrightarrow> f_slot other = f_slot r \<and> f_game_id other = f_game_id r"
  using assms strn_eq_full[of "f_game_id other" "f_game_id r"]
  by (auto simp: same_card_def wf_entry_def full_id_def SS_GAME_ID_LEN_def)

text \<open>The new record is found for its own card, and what was there for any other.\<close>

lemma find_put_entry:
  assumes "wf_entry (r, vs)" "\<forall>e \<in> set es. wf_entry e"
  shows "find (\<lambda>(r, vs). f_slot r = slot \<and> f_game_id r = g) (put_entry (r, vs) es) =
    (if slot = f_slot r \<and> g = f_game_id r then Some (r, vs) else find (\<lambda>(r, vs). f_slot r = slot \<and> f_game_id r = g) es)"
proof (cases "slot = f_slot r \<and> g = f_game_id r")
  case False
  have "find (\<lambda>(r, vs). f_slot r = slot \<and> f_game_id r = g) (filter (\<lambda>e. \<not> same_card r (fst e)) es) =
      find (\<lambda>(r, vs). f_slot r = slot \<and> f_game_id r = g) es"
    using assms(2)
  proof (induction es)
    case (Cons e es)
    then show ?case using False same_card_full[OF assms(1), of "fst e" "snd e"] by (auto simp: case_prod_beta)
  qed simp
  then show ?thesis using False by (auto simp: put_entry_def)
qed (simp add: put_entry_def)

lemma store_lookup_put:
  assumes "wf_entry (r, vs)" "\<forall>e \<in> set es. wf_entry e"
  shows "store_lookup (put_entry (r, vs) es) game_id slot tbl =
    (if slot = f_slot r \<and> take 6 game_id = f_game_id r
     then if length tbl < length vs then None else Some (r, vs @ drop (length vs) tbl)
     else store_lookup es game_id slot tbl)"
  unfolding store_lookup_def find_put_entry[OF assms] by (simp only: if_distrib option.case prod.case cong: if_cong)

text \<open>The file of a store; there is none yet when it is empty.\<close>

definition store_file :: "disk \<Rightarrow> byte list \<Rightarrow> (ss_fp_record \<times> u32 list) list \<Rightarrow> bool" where
  "store_file d path es \<longleftrightarrow> storable es \<and> (d path = Some (encode_store es) \<or> d path = None \<and> es = [])"

lemma store_file_entries: "store_file d path es \<Longrightarrow> entries (d path) = es"
  using entries_encode by (auto simp: store_file_def) (simp add: entries_def)

text \<open>A put on a card that works.\<close>

lemma fp_put_works:
  assumes rel: "\<forall>c. reliable c s" and old: "store_file (fs_disk s) path es"
    and fp: "wf_entry (rec, take (unat (f_blocks rec)) fp)" and path: "length path < 252"
    and put: "wii_fp_store_put path rec fp s = (ok, s')"
  shows "ok" "\<forall>c. reliable c s'"
    "fs_disk s' = (fs_disk s)(path \<mapsto> encode_store (put_entry (rec, take (unat (f_blocks rec)) fp) es), path @ ascii ''.tmp'' := None)"
proof -
  let ?temp = "path @ ascii ''.tmp''" and ?new = "encode_store (put_entry (rec, take (unat (f_blocks rec)) fp) es)"
  have blocks: "unat (f_blocks rec) \<le> length fp" "f_blocks rec \<noteq> 0" "f_blocks rec = ss_fp_blocks (f_size rec)"
    using fp by (auto simp: wf_entry_def)
  have len: "\<And>f. fs_disk s path = Some f \<Longrightarrow> length f < 2 ^ 32" using old by (auto simp: store_file_def storable_def)
  have rd: "readable s" using rel by (simp add: readable_def)
  note rl = rel[THEN spec]
  from fp_put_through[OF put rl rl blocks(1) len] rd store_file_entries[OF old] blocks(2,3) path rl
  have r: "ok \<and> through (update_safe (fs_disk s) ?temp path ?new) s s' \<and> fs_disk s' = (fs_disk s)(path \<mapsto> ?new, ?temp := None)"
    by fastforce
  show "ok" "fs_disk s' = (fs_disk s)(path \<mapsto> ?new, ?temp := None)" using r by simp_all
  show "\<forall>c. reliable c s'" using r through_reliable rel by blast
qed

lemma fp_get_works:
  assumes "\<forall>c. reliable c s" "store_file (fs_disk s) path es"
  shows "wii_fp_store_get (fst (wii_fp_store_read path s)) game_id slot tbl = store_lookup es game_id slot tbl"
proof -
  obtain store s1 where r: "wii_fp_store_read path s = (store, s1)" by fastforce
  show ?thesis
  proof (cases "fs_disk s path")
    case None
    then have "es = []" "store = None" using assms(2) fp_read_only(2)[OF r] by (auto simp: store_file_def)
    then show ?thesis using r by (simp add: wii_fp_store_get_def store_lookup_def)
  next
    case (Some f)
    then have f: "f = encode_store es" "storable es" using assms(2) by (auto simp: store_file_def)
    have "16 \<le> length f" by (simp add: f encode_store_def)
    then have "store = Some f"
      using r assms(1) Some
      by (auto simp: wii_fp_store_read_def open_read_def attempt_def fread_def next_luck_def Let_def
          reliable_def SS_FP_HEADER_SIZE_def split: if_splits)
    then show ?thesis
      using r ss_fp_store_find_encode[of es] f by (simp add: wii_fp_store_get_def storable_def)
  qed
qed

text \<open>Room for \<open>n\<close> more records of \<open>b\<close> bytes.\<close>

definition room_for :: "(ss_fp_record \<times> u32 list) list \<Rightarrow> (ss_fp_record \<times> u32 list) list \<Rightarrow> bool" where
  "room_for new es \<longleftrightarrow> (\<forall>e \<in> set new. wf_entry e) \<and> length es + length new < 2 ^ 16 \<and>
     length (encode_store es) + length (concat (map encode_entry new)) < 2 ^ 32"

lemma room_for_put:
  assumes "room_for (e # new) es"
  shows "room_for new (put_entry e es)" "storable es \<Longrightarrow> storable (put_entry e es)" "wf_entry e"
proof -
  show "wf_entry e" using assms by (simp add: room_for_def)
  show "room_for new (put_entry e es)" using assms encode_put_entry_le[of e es] by (simp add: room_for_def)
  show "storable es \<Longrightarrow> storable (put_entry e es)" using assms by (intro storable_put) (auto simp: room_for_def)
qed

lemma get_values_entry: "ss_fp_get_values (replicate (unat (f_blocks r)) 0) v (unat (f_blocks r)) = snd (decode_entry (r, v))"
  by (simp add: get_values_eq decode_entry_def)

lemma merge_records_works:
  assumes "\<forall>c. reliable c s" "store_file (fs_disk s) path es" "length path < 252" "room_for (map decode_entry rs) es"
    and "merge_records path rs m s = (m', s')"
  shows "m' = m + length rs \<and> (\<forall>c. reliable c s') \<and> store_file (fs_disk s') path (fold put_entry (map decode_entry rs) es) \<and>
    (\<forall>q. q \<noteq> path \<and> q \<noteq> path @ ascii ''.tmp'' \<longrightarrow> fs_disk s' q = fs_disk s q)"
  using assms
proof (induction rs arbitrary: es m s)
  case Nil
  then show ?case by simp
next
  case (Cons rv rs)
  obtain r v where rv: "rv = (r, v)" by (cases rv)
  let ?e = "decode_entry (r, v)" and ?fp = "ss_fp_get_values (replicate (unat (f_blocks r)) 0) v (unat (f_blocks r))"
  obtain ok1 s1 where 1: "attempt C_malloc s = (ok1, s1)" by fastforce
  note a = attempt_through[where Q = "\<lambda>_. True", OF 1 TrueI]
  have s1: "ok1" "fs_disk s1 = fs_disk s" "\<forall>c. reliable c s1" using a Cons.prems(1) through_reliable[OF a(1)] by auto
  obtain ok2 s2 where put: "wii_fp_store_put path r ?fp s1 = (ok2, s2)" by fastforce
  have e: "(r, take (unat (f_blocks r)) ?fp) = ?e" by (simp add: get_values_entry) (simp add: decode_entry_def)
  have rm: "room_for (?e # map decode_entry rs) es" using Cons.prems(4) by (simp add: rv)
  note p = fp_put_works[OF s1(3) Cons.prems(2)[folded s1(2)] _ Cons.prems(3) put, unfolded e, OF room_for_put(3)[OF rm]]
  have sf: "store_file (fs_disk s2) path (put_entry ?e es)"
    using room_for_put(2)[OF rm] Cons.prems(2) p(3) by (simp add: store_file_def ascii_def)
  have "merge_records path rs (m + 1) s2 = (m', s')" using Cons.prems(5) s1(1) p(1) by (simp add: rv 1 put Let_def)
  then have "m' = m + 1 + length rs \<and> (\<forall>c. reliable c s') \<and> store_file (fs_disk s') path (fold put_entry (map decode_entry rs) (put_entry ?e es)) \<and>
    (\<forall>q. q \<noteq> path \<and> q \<noteq> path @ ascii ''.tmp'' \<longrightarrow> fs_disk s' q = fs_disk s2 q)"
    by (rule Cons.IH[OF p(2) sf Cons.prems(3) room_for_put(1)[OF rm]])
  then show ?case using p(3) s1(2) by (simp add: rv)
qed

text \<open>The calls a lookup needs are those of a read.\<close>

lemma fp_merge_works:
  assumes "\<forall>c. reliable c s" "store_file (fs_disk s) path es" "length path < 252"
    and "fs_disk s incoming = Some (encode_store rs)" "storable rs" "room_for rs es"
    and "incoming \<noteq> path" "incoming \<noteq> path @ ascii ''.tmp''" "wii_fp_merge_runtime path incoming s = (merged, s')"
  shows "merged = Some (length rs)" "\<forall>c. reliable c s'" "store_file (fs_disk s') path (fold put_entry rs es)"
    "fs_disk s' incoming = None" "\<forall>q. q \<noteq> path \<and> q \<noteq> path @ ascii ''.tmp'' \<and> q \<noteq> incoming \<longrightarrow> fs_disk s' q = fs_disk s q"
proof -
  obtain store s1 where r: "wii_fp_store_read incoming s = (store, s1)" by fastforce
  note rd = fp_read_through[OF r]
  have "16 \<le> length (encode_store rs)" by (simp add: encode_store_def)
  then have store: "store = Some (encode_store rs)"
    using r assms(1,4)
    by (auto simp: wii_fp_store_read_def open_read_def attempt_def fread_def next_luck_def Let_def
        reliable_def SS_FP_HEADER_SIZE_def split: if_splits)
  have es: "map decode_entry (store_walk (encode_store rs) 0) = rs" using entries_encode[OF assms(5)] by (simp add: entries_def)
  then have n: "length (store_walk (encode_store rs) 0) = length rs" by (metis length_map)
  obtain m s2 where m: "merge_records path (store_walk (encode_store rs) 0) 0 s1 = (m, s2)" by fastforce
  have mr: "m = length rs" "\<forall>c. reliable c s2" "store_file (fs_disk s2) path (fold put_entry rs es)"
    "\<forall>q. q \<noteq> path \<and> q \<noteq> path @ ascii ''.tmp'' \<longrightarrow> fs_disk s2 q = fs_disk s q"
    using merge_records_works[OF _ _ assms(3) _ m, of es] assms(1,2,6) rd(2,3) es n by auto
  have s': "merged = Some m" "s' = remove incoming s2" using assms(9) by (simp_all add: wii_fp_merge_runtime_def r store m Let_def)
  note rem = remove_through[where Q = "\<lambda>_. True" and s = s2 and p = incoming, OF TrueI TrueI]
  have d: "fs_disk s' = (fs_disk s2)(incoming := None)" using rem(3) mr(2) s'(2) by simp
  show "merged = Some (length rs)" using s'(1) mr(1) by simp
  show "\<forall>c. reliable c s'" using through_reliable[OF rem(1)] mr(2) s'(2) by simp
  show "store_file (fs_disk s') path (fold put_entry rs es)" using mr(3) d assms(7) by (auto simp: store_file_def)
  show "fs_disk s' incoming = None" by (simp add: d)
  show "\<forall>q. q \<noteq> path \<and> q \<noteq> path @ ascii ''.tmp'' \<and> q \<noteq> incoming \<longrightarrow> fs_disk s' q = fs_disk s q" using mr(4) d by simp
qed

subsection \<open>Properties\<close>

text \<open>
  C4: on a card that works, recording a table is an update of a map: a lookup of its card then yields the new record
  and table, a lookup of any other card yields what it did before, and no other file changes.
\<close>

theorem fp_put_update:
  assumes "\<forall>c. reliable c s" "store_file (fs_disk s) path es" "length path < 252"
    and "room_for [(rec, take (unat (f_blocks rec)) fp)] es" "wii_fp_store_put path rec fp s = (ok, s')"
  shows "ok \<and> (\<forall>q. q \<noteq> path \<and> q \<noteq> path @ ascii ''.tmp'' \<longrightarrow> fs_disk s' q = fs_disk s q) \<and>
    wii_fp_store_get (fst (wii_fp_store_read path s')) game_id slot tbl =
      (if slot = f_slot rec \<and> take 6 game_id = f_game_id rec
       then if length tbl < unat (f_blocks rec) then None
            else Some (rec, take (unat (f_blocks rec)) fp @ drop (unat (f_blocks rec)) tbl)
       else wii_fp_store_get (fst (wii_fp_store_read path s)) game_id slot tbl)"
proof -
  let ?e = "(rec, take (unat (f_blocks rec)) fp)"
  note p = fp_put_works[OF assms(1,2) room_for_put(3)[OF assms(4)] assms(3,5)]
  have es: "storable es" "\<forall>e \<in> set es. wf_entry e" "wf_entry ?e"
    using assms(2) room_for_put(3)[OF assms(4)] by (auto simp: store_file_def storable_def)
  have "store_file (fs_disk s') path (put_entry ?e es)"
    using room_for_put(2)[OF assms(4) es(1)] p(3) by (simp add: store_file_def ascii_def)
  moreover have "length (take (unat (f_blocks rec)) fp) = unat (f_blocks rec)" using es(3) unfolding wf_entry_def prod.case by blast
  ultimately show ?thesis
    using fp_get_works[OF p(2)] fp_get_works[OF assms(1,2)] store_lookup_put[OF es(3,2)] p(1,3) by simp
qed

definition gale_record :: ss_fp_record where
  "gale_record = \<lparr>f_game_id = ascii ''GALE01'', f_slot = 0, f_version = 3, f_size = 8192, f_blocks = 1, f_sha256 = replicate 32 0\<rparr>"

lemma gale_entry: "wf_entry (gale_record, [v])"
  by (simp add: wf_entry_def gale_record_def full_id_def ascii_def ss_fp_blocks_def fp_consts)

lemma gale_store: "room_for [(gale_record, [v])] []" "storable [(gale_record, [v])]" "storable []"
proof -
  have "length (encode_entry (gale_record, [v])) = 60" using length_encode_entry[OF gale_entry] by simp
  then show "room_for [(gale_record, [v])] []" "storable [(gale_record, [v])]" "storable []"
    using gale_entry by (simp_all add: room_for_def storable_def encode_store_def)
qed

theorem fp_put_update_witness:
  "\<exists>ok s'. wii_fp_store_put [1] gale_record [7] sd_card = (ok, s') \<and>
     wii_fp_store_get (fst (wii_fp_store_read [1] s')) (ascii ''GALE01'') 0 [0, 9] = Some (gale_record, [7, 9])"
proof -
  obtain ok s' where put: "wii_fp_store_put [1] gale_record [7] sd_card = (ok, s')" by fastforce
  have "\<forall>c. reliable c sd_card" "store_file (fs_disk sd_card) [1] []"
    using gale_store(3) by (simp_all add: sd_card_def reliable_def store_file_def card_path_def ascii_def)
  with fp_put_update[of sd_card "[1]" "[]" gale_record "[7]" ok s' "ascii ''GALE01''" 0 "[0, 9]"] put gale_store(1)[of 7]
  show ?thesis by (auto simp: gale_record_def ascii_def)
qed

text \<open>
  C32: whatever call fails, and wherever the power goes, as long as closing and renaming work: recording a table leaves
  every other file as it was and the store old, new, or complete under its temporary name. The new store holds the new
  record and either all the old ones of other cards or, when the old store could not be read, none of them. Success
  is reported only when the store is the new one, failure only with the store as it was.
\<close>

theorem fp_put_safe:
  assumes "wii_fp_store_put path rec fp s = (ok, s')" "reliable C_close s" "reliable C_rename s"
    and "unat (f_blocks rec) \<le> length fp" "\<And>f. fs_disk s path = Some f \<Longrightarrow> length f < 2 ^ 32"
  shows "\<exists>es new. (es = [] \<or> es = entries (fs_disk s path)) \<and> (readable s \<longrightarrow> es = entries (fs_disk s path)) \<and>
    new = encode_store ((rec, take (unat (f_blocks rec)) fp) # filter (\<lambda>e. \<not> same_card rec (fst e)) es) \<and>
    (\<forall>d \<in> moments s s'. update_safe (fs_disk s) (path @ ascii ''.tmp'') path new d) \<and>
    (ok \<longrightarrow> fs_disk s' path = Some new) \<and> (\<not> ok \<longrightarrow> fs_disk s' path = fs_disk s path)"
proof -
  obtain es new where p: "es = [] \<or> es = entries (fs_disk s path)" "readable s \<longrightarrow> es = entries (fs_disk s path)"
    "new = encode_store (put_entry (rec, take (unat (f_blocks rec)) fp) es)"
    "through (update_safe (fs_disk s) (path @ ascii ''.tmp'') path new) s s'"
    "ok \<longrightarrow> fs_disk s' = (fs_disk s)(path \<mapsto> new, path @ ascii ''.tmp'' := None)"
    "\<not> ok \<longrightarrow> fs_disk s' path = fs_disk s path"
    using fp_put_through[OF assms] by blast
  have "ok \<longrightarrow> fs_disk s' path = Some new" using p(5) by (simp add: ascii_def)
  then show ?thesis
    using p(1,2,3,6) through_moments[OF p(4)] by (intro exI[of _ es] exI[of _ new]) (auto simp: put_entry_def)
qed

theorem fp_put_safe_witness:
  "\<exists>ok s' new. wii_fp_store_put [1] gale_record [7] sd_card = (ok, s') \<and>
     (\<forall>d \<in> moments sd_card s'. update_safe (fs_disk sd_card) ([1] @ ascii ''.tmp'') [1] new d)"
proof -
  obtain ok s' where put: "wii_fp_store_put [1] gale_record [7] sd_card = (ok, s')" by fastforce
  show ?thesis
    using fp_put_safe[OF put] put
    by (auto simp: sd_card_def reliable_def gale_record_def card_path_def ascii_def)
qed

text \<open>
  The case of a store that cannot be read. When there is no memory for it, recording one card's table drops
  the tables of all other cards and reports success.
\<close>

lemma fp_put_forgets:
  assumes "store_file (fs_disk s) path es" "length path < 252" "wf_entry (rec, take (unat (f_blocks rec)) fp)"
    and "wii_fp_store_put path rec fp (with_fault C_malloc Fails s) = (ok, s')"
    and "es \<noteq> []"
  shows "ok \<and> fs_disk s' path = Some (encode_store [(rec, take (unat (f_blocks rec)) fp)])"
proof -
  let ?s = "with_fault C_malloc Fails s"
  have f: "fs_disk s path = Some (encode_store es)" using assms(1,5) by (simp add: store_file_def)
  obtain store s1 where r: "wii_fp_store_read path ?s = (store, s1)" by fastforce
  have none: "store = None"
    using r f by (auto simp: wii_fp_store_read_def open_read_def attempt_def next_luck_def Let_def split: if_splits)
  have "entries store = []" by (simp add: none entries_def)
  note rd = fp_read_through[OF r]
  let ?temp = "path @ ascii ''.tmp''"
  have v: "f_blocks rec \<noteq> 0" "f_blocks rec = ss_fp_blocks (f_size rec)" "unat (f_blocks rec) \<le> length fp"
    using assms(3) by (auto simp: wf_entry_def)
  have lt: "length ?temp < 256" "?temp \<noteq> path" using assms(2) by (simp_all add: ascii_def)
  obtain ok1 s2 where 1: "open_write ?temp s1 = (ok1, s2)" by fastforce
  have ok1: ok1 using open_write_through(2)[where Q = "\<lambda>_. True", OF 1] rd(3) by simp
  obtain ok2 s3 where 2: "write_store ?temp store rec fp s2 = (ok2, s3)" by fastforce
  note b0 = building_open[OF 1[unfolded ok1[THEN eqTrueI]] rd(2)]
  obtain t where t: "building ?temp (fs_disk ?s) t s1 s3" "ok2" "t = encode_store [(rec, take (unat (f_blocks rec)) fp)]"
    using write_store_building[OF b0 2 v(3)] rd(3) none by (auto simp: entries_def put_entry_def)
  have b: "building ?temp (fs_disk ?s) t s1 (fclose ?temp s3)" using building_fclose[OF t(1)] rd(3) by simp
  obtain moved s5 where 5: "rename ?temp path (remove path (fclose ?temp s3)) = (moved, s5)" by fastforce
  have e: "(ok, s') = (if \<not> moved then (False, remove ?temp s5) else (True, s5))"
    using assms(4) v(1,2) lt(1) ok1 t(2) unfolding wii_fp_store_put_def Let_def r prod.case 1 2 5
    by (auto split: if_splits)
  have "reliable C_rename s1" "reliable C_remove s1" by (simp_all add: rd(3))
  note m = take_over_through[OF b lt(2) this(1) 5 e]
  show ?thesis using m(2,4) \<open>reliable C_remove s1\<close> t(3) lt(2) by simp
qed

end
