(* ===== verification/SS_Config.thy ===== *)
theory SS_Config
  imports SS_SaveFiles SS_Client SS_Logic
begin

text \<open>
  \<open>wii/source/wii_config.c\<close> and the paths of \<open>wii_config.h\<close>: the launcher's reader of the configuration file the kernel module
  reads too. A string of the configuration is its bytes before the NUL.
\<close>

definition WII_CFG_PATH :: "byte list" where "WII_CFG_PATH = ascii ''sd:/slotsync/slotsync.cfg''"
definition WII_SAVES_DIR :: "byte list" where "WII_SAVES_DIR = ascii ''sd:/saves''"
definition WII_STATE_PATH :: "byte list" where "WII_STATE_PATH = ascii ''sd:/slotsync/state.txt''"
definition WII_RUNTIME_PATH :: "byte list" where "WII_RUNTIME_PATH = ascii ''sd:/slotsync/runtime.txt''"
definition WII_FP_PATH :: "byte list" where "WII_FP_PATH = ascii ''sd:/slotsync/fingerprints.bin''"
definition WII_FP_RUNTIME_PATH :: "byte list" where "WII_FP_RUNTIME_PATH = ascii ''sd:/slotsync/runtime-fp.bin''"
definition WII_MAX_STR :: nat where "WII_MAX_STR = 128"

lemmas wii_paths = WII_CFG_PATH_def WII_SAVES_DIR_def WII_STATE_PATH_def WII_RUNTIME_PATH_def WII_FP_PATH_def
  WII_FP_RUNTIME_PATH_def

record wii_config =
  w_server :: "byte list"
  w_port :: u16
  w_psk :: "byte list"
  w_device_id :: u64
  w_saves_dir :: "byte list"
  w_nintendont :: "byte list"
  w_timeout_ms :: int
  w_rounds :: int
  w_conflict_timeout_ms :: int
  w_pull_window :: int
  w_pace_every :: int
  w_pace_us :: int
  w_autoboot :: bool

definition wii_config_defaults :: wii_config where
  "wii_config_defaults =
     \<lparr>w_server = [], w_port = 9977, w_psk = [], w_device_id = 0, w_saves_dir = WII_SAVES_DIR,
      w_nintendont = ascii ''sd:/apps/Nintendont/boot.dol'', w_timeout_ms = 2000, w_rounds = 12,
      w_conflict_timeout_ms = 30000, w_pull_window = int SS_PULL_WINDOW, w_pace_every = 16, w_pace_us = 20000,
      w_autoboot = True\<rparr>"

text \<open>The string the pointer ends up at.\<close>

definition trim :: "byte list \<Rightarrow> byte list" where
  "trim s = rev (dropWhile (\<lambda>c. c = 0x20 \<or> c = 0x09 \<or> c = 0x0D \<or> c = 0x0A) (rev (dropWhile (\<lambda>c. c = 0x20 \<or> c = 0x09) s)))"

definition copy_str :: "byte list \<Rightarrow> nat \<Rightarrow> byte list" where
  "copy_str src cap = take (if cap \<le> length src then cap - 1 else length src) src"

text \<open>The library's \<open>atoi\<close>, a value outside \<open>int\<close> being the nearest one, and \<open>strtoull (s, NULL, 0)\<close>.\<close>

definition skip_sign :: "byte list \<Rightarrow> bool \<times> byte list" where
  "skip_sign s =
     (let s = dropWhile is_space s
      in if s \<noteq> [] \<and> hd s = 0x2D then (True, tl s) else if s \<noteq> [] \<and> hd s = 0x2B then (False, tl s) else (False, s))"

definition atoi :: "byte list \<Rightarrow> int" where
  "atoi s =
     (let (neg, s) = skip_sign s;
          n = int (number (takeWhile digit s))
      in if neg then max (- n) (- (2 ^ 31)) else min n (2 ^ 31 - 1))"

definition digit_in :: "nat \<Rightarrow> byte \<Rightarrow> bool" where
  "digit_in base c \<longleftrightarrow> (case hex_value c of None \<Rightarrow> False | Some d \<Rightarrow> unat d < base)"

definition value_in :: "nat \<Rightarrow> byte list \<Rightarrow> nat" where
  "value_in base ds = foldl (\<lambda>n d. base * n + (case hex_value d of None \<Rightarrow> 0 | Some v \<Rightarrow> unat v)) 0 ds"

definition strtoull :: "byte list \<Rightarrow> u64" where
  "strtoull s =
     (let (neg, s) = skip_sign s;
          (base, s) = (if peek s 0 = 0x30 \<and> (peek s 1 = 0x78 \<or> peek s 1 = 0x58) \<and> digit_in 16 (peek s 2) then (16, drop 2 s)
                       else if peek s 0 = 0x30 then (8, s) else (10, s));
          n = value_in base (takeWhile (digit_in base) s)
      in if 2 ^ 64 \<le> n then - 1 else if neg then - of_nat n else of_nat n)"

text \<open>One line: the key and the value when it has them, and what they set.\<close>

definition wii_config_pair :: "byte list \<Rightarrow> (byte list \<times> byte list) option" where
  "wii_config_pair line =
     (let key = trim (c_string line)
      in if peek key 0 = 0 \<or> peek key 0 = 0x23 \<or> peek key 0 = 0x3B then None
         else let name = takeWhile (\<lambda>c. c \<noteq> 0x3D) key
              in if length name = length key then None
                 else Some (trim name, trim (drop (length name + 1) key)))"

definition wii_config_set :: "byte list \<Rightarrow> byte list \<Rightarrow> wii_config \<Rightarrow> wii_config" where
  "wii_config_set key value cfg =
     (if key = ascii ''server'' then cfg\<lparr>w_server := copy_str value WII_MAX_STR\<rparr>
      else if key = ascii ''port'' then cfg\<lparr>w_port := of_int (atoi value)\<rparr>
      else if key = ascii ''psk'' then cfg\<lparr>w_psk := copy_str value WII_MAX_STR\<rparr>
      else if key = ascii ''device_id'' then cfg\<lparr>w_device_id := strtoull value\<rparr>
      else if key = ascii ''saves_dir'' then cfg\<lparr>w_saves_dir := copy_str value WII_MAX_STR\<rparr>
      else if key = ascii ''nintendont'' then cfg\<lparr>w_nintendont := copy_str value WII_MAX_STR\<rparr>
      else if key = ascii ''timeout_ms'' then cfg\<lparr>w_timeout_ms := atoi value\<rparr>
      else if key = ascii ''rounds'' then cfg\<lparr>w_rounds := atoi value\<rparr>
      else if key = ascii ''conflict_timeout_ms'' then cfg\<lparr>w_conflict_timeout_ms := atoi value\<rparr>
      else if key = ascii ''pull_window'' then cfg\<lparr>w_pull_window := atoi value\<rparr>
      else if key = ascii ''pace_every'' then cfg\<lparr>w_pace_every := atoi value\<rparr>
      else if key = ascii ''pace_us'' then cfg\<lparr>w_pace_us := atoi value\<rparr>
      else if key = ascii ''autoboot'' then cfg\<lparr>w_autoboot := (value \<noteq> ascii ''0'' \<and> value \<noteq> ascii ''false'')\<rparr>
      else cfg)"

function wii_config_lines :: "byte list \<Rightarrow> wii_config \<Rightarrow> wii_config" where
  "wii_config_lines f cfg =
     (case fgets 256 f of
        None \<Rightarrow> cfg
      | Some (line, rest) \<Rightarrow>
          wii_config_lines rest
            (case wii_config_pair line of None \<Rightarrow> cfg | Some (key, value) \<Rightarrow> wii_config_set key value cfg))"
  by pat_completeness auto
termination by (relation "measure (\<lambda>(f, cfg). length f)") (auto dest: fgets_shorter)

declare wii_config_lines.simps [simp del]

text \<open>The error, \<open>None\<close> being success, and the configuration.\<close>

definition wii_config_load :: "byte list \<Rightarrow> nat \<Rightarrow> fs \<Rightarrow> byte list option \<times> wii_config \<times> fs" where
  "wii_config_load path error_cap s =
     (let cfg = wii_config_defaults;
          (opened, s) = open_read path s
      in case opened of
           None \<Rightarrow> (Some (take (error_cap - 1) (ascii ''cannot open '' @ path)), cfg, s)
         | Some f \<Rightarrow>
             let (got, s) = fread f (length f) s;
                 cfg = wii_config_lines got cfg
             in if peek (w_server cfg) 0 = 0
                then (Some (take (error_cap - 1) (ascii ''no 'server' set in '' @ path)), cfg, s)
                else if peek (w_psk cfg) 0 = 0
                then (Some (take (error_cap - 1) (ascii ''no 'psk' set in '' @ path)), cfg, s)
                else (None, cfg, s))"

subsection \<open>What a configuration may be\<close>

definition int32 :: "int \<Rightarrow> bool" where
  "int32 n \<longleftrightarrow> - (2 ^ 31) \<le> n \<and> n < 2 ^ 31"

definition wf_wii_config :: "wii_config \<Rightarrow> bool" where
  "wf_wii_config cfg \<longleftrightarrow>
     (\<forall>s \<in> {w_server cfg, w_psk cfg, w_saves_dir cfg, w_nintendont cfg}. length s < WII_MAX_STR \<and> 0 \<notin> set s) \<and>
     (\<forall>n \<in> {w_timeout_ms cfg, w_rounds cfg, w_conflict_timeout_ms cfg, w_pull_window cfg, w_pace_every cfg, w_pace_us cfg}. int32 n)"

lemma set_trim: "c \<in> set (trim s) \<Longrightarrow> c \<in> set s"
  by (auto simp: trim_def dest!: set_dropWhileD)

lemma atoi_int32: "int32 (atoi s)"
  by (auto simp: atoi_def int32_def Let_def split: prod.split)

lemma copy_str_wf: "0 < cap \<Longrightarrow> length (copy_str s cap) < cap" "0 \<notin> set s \<Longrightarrow> 0 \<notin> set (copy_str s cap)"
  by (auto simp: copy_str_def dest: in_set_takeD)

lemma wii_config_pair_no_nul:
  assumes "wii_config_pair line = Some (key, value)"
  shows "0 \<notin> set value"
proof -
  have "0 \<notin> set (c_string line)" by (auto simp: c_string_def dest: set_takeWhileD)
  then have k: "0 \<notin> set (trim (c_string line))" using set_trim by blast
  have "value = trim (drop (length (takeWhile (\<lambda>c. c \<noteq> 0x3D) (trim (c_string line))) + 1) (trim (c_string line)))"
    using assms by (auto simp: wii_config_pair_def Let_def split: if_splits)
  then show ?thesis using k set_trim in_set_dropD by fast
qed

lemma wii_config_set_wf:
  assumes "wf_wii_config cfg" "0 \<notin> set value"
  shows "wf_wii_config (wii_config_set key value cfg)"
  using assms copy_str_wf(1)[of WII_MAX_STR] copy_str_wf(2)[of "value"] atoi_int32[of "value"]
  by (simp add: wii_config_set_def wf_wii_config_def WII_MAX_STR_def)

lemma wii_config_lines_wf: "wf_wii_config cfg \<Longrightarrow> wf_wii_config (wii_config_lines f cfg)"
proof (induction f cfg rule: wii_config_lines.induct)
  case (1 f cfg)
  show ?case
  proof (cases "fgets 256 f")
    case None
    then show ?thesis using 1(2) by (simp add: wii_config_lines.simps)
  next
    case (Some lr)
    obtain line rest where lr: "lr = (line, rest)" by (cases lr)
    have "wf_wii_config (case wii_config_pair line of None \<Rightarrow> cfg | Some (key, value) \<Rightarrow> wii_config_set key value cfg)"
      using 1(2) wii_config_set_wf wii_config_pair_no_nul by (auto split: option.split)
    then show ?thesis using 1(1)[OF Some lr[symmetric]] Some lr by (subst wii_config_lines.simps) simp
  qed
qed

lemma wii_config_defaults_wf: "wf_wii_config wii_config_defaults"
  by (simp add: wf_wii_config_def wii_config_defaults_def int32_def WII_MAX_STR_def WII_SAVES_DIR_def SS_PULL_WINDOW_def ascii_def)

subsection \<open>The same line to both programs\<close>

text \<open>A value both readers take as it is: not empty, at most 127 bytes, on one line, no blank at either end.\<close>

definition plain_value :: "byte list \<Rightarrow> bool" where
  "plain_value v \<longleftrightarrow> v \<noteq> [] \<and> length v \<le> 127 \<and> (\<forall>c \<in> set v. c \<noteq> 0 \<and> c \<noteq> 0x0A \<and> c \<noteq> 0x0D) \<and>
     hd v \<noteq> 0x20 \<and> hd v \<noteq> 0x09 \<and> \<not> ssl_is_space (last v)"

lemma trim_plain:
  assumes "plain_value v" "\<forall>c \<in> set tail. c = 0x20 \<or> c = 0x09 \<or> c = 0x0D \<or> c = 0x0A"
  shows "trim (0x20 # v @ tail) = v" "trim (v @ tail) = v"
proof -
  obtain u c where v: "v = u @ [c]" using assms(1) by (metis plain_value_def rev_exhaust)
  have c: "c \<noteq> 0x20 \<and> c \<noteq> 0x09 \<and> c \<noteq> 0x0D \<and> c \<noteq> 0x0A"
    using assms(1) by (auto simp: v plain_value_def ssl_is_space_def)
  have d: "dropWhile (\<lambda>c. c = 0x20 \<or> c = 0x09) (v @ tail) = v @ tail"
    using assms(1) by (cases v) (auto simp: plain_value_def)
  have r: "dropWhile (\<lambda>c. c = 0x20 \<or> c = 0x09 \<or> c = 0x0D \<or> c = 0x0A) (rev tail @ c # rev u) = c # rev u"
    using assms(2) c by (subst dropWhile_append2) auto
  have "rev (v @ tail) = rev tail @ c # rev u" by (simp add: v)
  then show t: "trim (v @ tail) = v" unfolding trim_def d r by (simp only: r rev.simps rev_rev_ident v)
  show "trim (0x20 # v @ tail) = v" using t by (simp add: trim_def)
qed

lemma copy_value_plain:
  assumes "plain_value v"
  shows "ssl_copy_value (v @ 0x0A # rest) 128 = v"
proof -
  obtain u c where v: "v = u @ [c]" using assms by (metis plain_value_def rev_exhaust)
  have "takeWhile (\<lambda>c. c \<noteq> 0 \<and> c \<noteq> 0x0A \<and> c \<noteq> 0x0D) (v @ take (127 - length v) (0x0A # rest)) = v"
    using assms by (intro takeWhile_stop) (auto simp: plain_value_def take_Cons' )
  then have "ssl_copy_value (v @ 0x0A # rest) 128 = rev (dropWhile ssl_is_space (rev v))"
    using assms by (simp add: ssl_copy_value_def plain_value_def)
  also have "\<dots> = v" using assms by (simp add: v plain_value_def)
  finally show ?thesis .
qed

text \<open>A configuration of two lines.\<close>

definition two_lines :: "byte list \<Rightarrow> byte list \<Rightarrow> byte list" where
  "two_lines server psk = ascii ''server = '' @ server @ 0x0A # ascii ''psk = '' @ psk @ [0x0A]"

lemma pair_plain:
  assumes "plain_value v" "key \<noteq> []" "\<forall>c \<in> set key. 0x61 \<le> c \<and> c \<le> 0x7A"
  shows "wii_config_pair (key @ 0x20 # 0x3D # 0x20 # v @ [0x0A]) = Some (key, v)"
proof -
  have k: "c \<noteq> 0 \<and> c \<noteq> 0x20 \<and> c \<noteq> 0x09 \<and> c \<noteq> 0x0D \<and> c \<noteq> 0x0A \<and> c \<noteq> 0x3D \<and> c \<noteq> 0x23 \<and> c \<noteq> 0x3B" if "c \<in> set key" for c
    using assms(3) that by (auto simp: word_le_nat_alt)
  let ?l = "key @ 0x20 # 0x3D # 0x20 # v @ [0x0A]" and ?t = "key @ 0x20 # 0x3D # 0x20 # v"
  have cs: "c_string ?l = ?l" using k assms(1) by (auto simp: c_string_def takeWhile_eq_all_conv plain_value_def)
  have t: "trim ?l = ?t"
  proof -
    obtain u c where v: "v = u @ [c]" using assms(1) by (metis plain_value_def rev_exhaust)
    have c: "c \<noteq> 0x20 \<and> c \<noteq> 0x09 \<and> c \<noteq> 0x0D \<and> c \<noteq> 0x0A" using assms(1) by (auto simp: v plain_value_def ssl_is_space_def)
    have "dropWhile (\<lambda>c. c = 0x20 \<or> c = 0x09) ?l = ?l" using assms(2) k by (cases key) auto
    then show ?thesis using c by (simp add: trim_def v)
  qed
  have h: "peek ?t 0 = hd key" using assms(2) by (cases key) auto
  have name: "takeWhile (\<lambda>c. c \<noteq> 0x3D) ?t = key @ [0x20]"
    using k takeWhile_stop[of "key @ [0x20]" "\<lambda>c. c \<noteq> 0x3D" "0x3D # 0x20 # v"] by auto
  have tk: "trim (key @ [0x20]) = key"
  proof -
    obtain u c where "key = u @ [c]" using assms(2) rev_exhaust by blast
    moreover have "dropWhile (\<lambda>c. c = 0x20 \<or> c = 0x09) (key @ [0x20]) = key @ [0x20]" using assms(2) k by (cases key) auto
    ultimately show ?thesis using k[of c] by (simp add: trim_def)
  qed
  have tv: "trim (0x20 # v) = v" using trim_plain(1)[OF assms(1), of "[]"] by simp
  show ?thesis
    unfolding wii_config_pair_def cs t Let_def h name using k[of "hd key"] assms(2) by (simp add: tk tv)
qed

lemma launcher_two_lines:
  assumes "plain_value server" "plain_value psk"
  shows "wii_config_lines (two_lines server psk) cfg = cfg\<lparr>w_server := server, w_psk := psk\<rparr>"
proof -
  have len: "length server \<le> 127" "length psk \<le> 127" using assms by (simp_all add: plain_value_def)
  let ?l1 = "ascii ''server'' @ 0x20 # 0x3D # 0x20 # server" and ?l2 = "ascii ''psk'' @ 0x20 # 0x3D # 0x20 # psk"
  have t: "two_lines server psk = ?l1 @ 0x0A # ?l2 @ 0x0A # []" by (simp add: two_lines_def ascii_def)
  have nl: "0x0A \<notin> set ?l1" "0x0A \<notin> set ?l2" using assms by (auto simp: plain_value_def ascii_def)
  have f1: "fgets 256 (?l1 @ 0x0A # ?l2 @ 0x0A # []) = Some (?l1 @ [0x0A], ?l2 @ 0x0A # [])"
    using len by (intro fgets_line nl) simp
  have f2: "fgets 256 (?l2 @ 0x0A # []) = Some (?l2 @ [0x0A], [])" using len by (intro fgets_line nl) simp
  have p1: "wii_config_pair (?l1 @ [0x0A]) = Some (ascii ''server'', server)"
    using pair_plain[OF assms(1), of "ascii ''server''"] by (simp add: ascii_def)
  have p2: "wii_config_pair (?l2 @ [0x0A]) = Some (ascii ''psk'', psk)"
    using pair_plain[OF assms(2), of "ascii ''psk''"] by (simp add: ascii_def)
  have c: "copy_str server 128 = server" "copy_str psk 128 = psk" using len by (simp_all add: copy_str_def)
  show ?thesis
    unfolding t
    apply (subst wii_config_lines.simps)
    apply (subst f1)
    apply (subst option.case)
    apply (subst prod.case)
    apply (subst wii_config_lines.simps)
    apply (subst f2)
    apply (subst option.case)
    apply (subst prod.case)
    apply (subst wii_config_lines.simps)
    by (simp only: p1 p2 option.case prod.case) (simp add: fgets_def wii_config_set_def WII_MAX_STR_def c ascii_def)
qed

lemma load_two_lines:
  assumes "plain_value server" "plain_value psk" "fs_disk s path = Some (two_lines server psk)" "reliable C_open s" "reliable C_read s"
  shows "\<exists>s'. wii_config_load path cap s = (None, wii_config_defaults\<lparr>w_server := server, w_psk := psk\<rparr>, s')"
proof -
  obtain fo s1 where 1: "open_read path s = (fo, s1)" by fastforce
  note o = open_read_through[where Q = "\<lambda>_. True", OF 1 TrueI]
  have fo: "fo = Some (two_lines server psk)" "reliable C_read s1"
    using o(1) o(4)[OF assms(4)] assms(3,5) by (simp_all add: through_reliable)
  obtain got s2 where 2: "fread (two_lines server psk) (length (two_lines server psk)) s1 = (got, s2)" by fastforce
  have got: "got = two_lines server psk" using fread_through(4)[where Q = "\<lambda>_. True", OF 2 TrueI fo(2)] by simp
  have "peek server 0 \<noteq> 0" "peek psk 0 \<noteq> 0" using assms(1,2) by (cases server; cases psk; auto simp: plain_value_def)+
  then show ?thesis by (simp add: wii_config_load_def 1 fo(1) 2 got launcher_two_lines[OF assms(1,2)])
qed

lemma skip_blanks_plain: "plain_value v \<Longrightarrow> skip_blanks (v @ rest) = v @ rest"
  by (cases v) (auto simp: plain_value_def)

lemma next_line_plain: "plain_value v \<Longrightarrow> ssl_next_line (v @ 0x0A # rest) = rest"
proof -
  have "\<forall>c \<in> set v. c \<noteq> 0 \<and> c \<noteq> 0x0A \<Longrightarrow> ssl_next_line (v @ 0x0A # rest) = rest" by (induction v) auto
  then show "plain_value v \<Longrightarrow> ?thesis" by (simp add: plain_value_def)
qed

lemma kernel_two_lines:
  assumes "plain_value server" "plain_value psk" "ssl_parse_ipv4 server = Some a"
  shows "config_lines (two_lines server psk) cfg =
    cfg\<lparr>c_server := a, c_have_server := True, c_psk := psk, c_psk_len := of_nat (length psk)\<rparr>"
proof -
  let ?p2 = "ascii ''psk = '' @ psk @ [0x0A]"
  have c: "ssl_copy_value (server @ 0x0A # ?p2) 128 = server" "ssl_copy_value (psk @ [0x0A]) 128 = psk"
    using copy_value_plain assms(1,2) by simp_all
  have n: "ssl_next_line (two_lines server psk) = ?p2" "ssl_next_line ?p2 = []"
    using next_line_plain[OF assms(1)] next_line_plain[OF assms(2)] by (simp_all add: two_lines_def ascii_def)
  have k1: "config_line config_keys (two_lines server psk) cfg = cfg\<lparr>c_server := a, c_have_server := True\<rparr>" for cfg
    using c(1) assms(3) skip_blanks_plain[OF assms(1), of "0x0A # ?p2"]
    by (simp add: config_keys_def ssl_match_key_def two_lines_def ascii_def SSL_PSK_MAX_def)
  have k2: "config_line config_keys ?p2 cfg = cfg\<lparr>c_psk := psk, c_psk_len := of_nat (length psk)\<rparr>" for cfg
    using c(2) skip_blanks_plain[OF assms(2), of "[0x0A]"]
    by (simp add: config_keys_def ssl_match_key_def ascii_def SSL_PSK_MAX_def Let_def)
  have h: "peek (two_lines server psk) 0 \<noteq> 0" "peek ?p2 0 \<noteq> 0" by (simp_all add: two_lines_def ascii_def)
  have "config_lines (two_lines server psk) cfg = config_lines ?p2 (cfg\<lparr>c_server := a, c_have_server := True\<rparr>)"
    using h(1) by (subst config_lines.simps) (simp add: n k1)
  also have "\<dots> = config_lines [] (cfg\<lparr>c_server := a, c_have_server := True, c_psk := psk, c_psk_len := of_nat (length psk)\<rparr>)"
    using h(2) by (subst config_lines.simps) (simp only: n k2 if_False)
  also have "\<dots> = cfg\<lparr>c_server := a, c_have_server := True, c_psk := psk, c_psk_len := of_nat (length psk)\<rparr>"
    by (subst config_lines.simps) simp
  finally show ?thesis .
qed

subsection \<open>Properties\<close>

text \<open>
  C40: whatever the file holds and however reading it fares, every string of the configuration fits its
  field and every number its type; and the configuration is accepted exactly when the file could be opened and names a
  server and a key.
\<close>

theorem launcher_config_typed:
  assumes "wii_config_load path error_cap s = (error, cfg, s')"
  shows "wf_wii_config cfg \<and>
    (error = None \<longleftrightarrow> fst (open_read path s) \<noteq> None \<and> w_server cfg \<noteq> [] \<and> w_psk cfg \<noteq> [])"
proof -
  have e: "peek v 0 = 0 \<longleftrightarrow> v = []" if "0 \<notin> set v" for v using that by (cases v) auto
  have wf: "wf_wii_config cfg"
    using assms wii_config_lines_wf[OF wii_config_defaults_wf] wii_config_defaults_wf
    by (auto simp: wii_config_load_def Let_def split: prod.splits option.splits if_splits)
  then have "peek (w_server cfg) 0 = 0 \<longleftrightarrow> w_server cfg = []" "peek (w_psk cfg) 0 = 0 \<longleftrightarrow> w_psk cfg = []"
    using e by (auto simp: wf_wii_config_def)
  then show ?thesis
    using assms wf by (auto simp: wii_config_load_def Let_def split: prod.splits option.splits if_splits)
qed


theorem launcher_config_typed_witness:
  "\<exists>error cfg s'. wii_config_load WII_CFG_PATH 128 sd_card = (error, cfg, s') \<and> wf_wii_config cfg"
  using launcher_config_typed[of WII_CFG_PATH 128 sd_card] by (metis prod_cases3)


end
