(* ===== verification/SS_Pull.thy ===== *)
theory SS_Pull
  imports SS_Push SS_Fingerprint
begin

text \<open>
  \<open>wii/core/client.c\<close>, pulling a card: windowed requests, the burst of chunks that answers each, and the rules that
  end the transfer. \<open>size_t\<close> is 32 bits wide, as on both consoles. A \<open>memcpy\<close> that would write outside
  the caller's buffer is the outcome \<open>Fault\<close>; a call that never returns is \<open>None\<close>.
\<close>

text \<open>The locals of \<open>ss_pull\<close> that live across replies, with the two buffers it was given.\<close>

record pull_state =
  p_total :: u32
  p_version :: u32
  p_chunks :: u32
  p_request :: "byte list"
  p_request_len :: nat
  p_request_base :: u32
  p_outstanding :: u32
  p_previous_missing :: u32
  p_budget :: u32
  p_rounds :: u32
  p_want_version :: u32
  p_initialised :: bool
  p_stalled :: int
  p_out :: "byte list"
  p_bitmap :: "byte list"

definition count_missing :: "byte list \<Rightarrow> u32 \<Rightarrow> u32 \<times> u32" where
  "count_missing bitmap chunks =
     fold (\<lambda>i (missing, first).
         if \<not> ss_bitmap_test bitmap 0 (of_nat i)
         then (missing + 1, if missing = 0 then of_nat i else first) else (missing, first))
       [0..<unat chunks] (0, 0)"

text \<open>
  How a burst ends (with the return of \<open>ss_pull\<close>, or with the next round to decide), and what one reply of it
  does.
\<close>

datatype burst_end = BurstReturn ss_result pull_state | BurstFault | BurstOver pull_state
datatype burst_step = BurstEnd burst_end | BurstNext pull_state

text \<open>What the code after a burst decides.\<close>

datatype round_end = RoundReturn ss_result | RoundDone | RoundNext pull_state

definition pull_window_of :: "int \<Rightarrow> u32" where
  "pull_window_of w =
     (let window = (if 0 < w then of_int w else of_nat SS_PULL_WINDOW)
      in if of_nat SS_MAX_PAYLOAD * 8 < window then of_nat SS_MAX_PAYLOAD * 8 else window)"

definition pull_start :: "u32 \<Rightarrow> u32 \<Rightarrow> byte list \<Rightarrow> byte list \<Rightarrow> pull_state" where
  "pull_start window want_version out bitmap =
     \<lparr>p_total = 0, p_version = 0, p_chunks = 0,
      p_request = fold (\<lambda>i rq. ss_bitmap_set rq 0 (of_nat i)) [0..<unat window] (replicate SS_MAX_PAYLOAD 0),
      p_request_len = unat ((window - 1) div 8) + 1, p_request_base = 0, p_outstanding = 0,
      p_previous_missing = 0xFFFFFFFF, p_budget = 0, p_rounds = 0, p_want_version = want_version,
      p_initialised = False, p_stalled = 0, p_out = out, p_bitmap = bitmap\<rparr>"

text \<open>The first reply: the card's size, and how much of the request can arrive.\<close>

definition pull_initialise :: "u32 \<Rightarrow> int \<Rightarrow> pull_state \<Rightarrow> ss_header \<Rightarrow> ss_result + pull_state" where
  "pull_initialise window max_rounds st h =
     (let total = h_total_size h;
          chunks = ss_chunk_count total;
          needed = (unat chunks + 7) div 8
      in if total = 0 then Inl SS_ERR_PROTOCOL
         else if length (p_out st) < unat total then Inl SS_ERR_TOO_BIG
         else if length (p_bitmap st) < needed then Inl SS_ERR_TOO_BIG
         else Inr (st\<lparr>p_total := total, p_version := h_card_version h, p_chunks := chunks,
                p_bitmap := memset (p_bitmap st) 0 needed, p_initialised := True,
                p_budget := (chunks div window + 1) * 4 + of_int max_rounds,
                p_outstanding := of_nat (length (filter (\<lambda>i.
                    ss_bitmap_test (take (p_request_len st) (p_request st)) (p_request_base st) (of_nat i))
                  [0..<unat chunks]))\<rparr>))"

text \<open>A chunk: placed by its own \<open>offset\<close>, accounted for by its own \<open>sequence\<close>.\<close>

definition pull_chunk :: "pull_state \<Rightarrow> ss_header \<Rightarrow> byte list \<Rightarrow> burst_step" where
  "pull_chunk st h payload =
     (if p_total st < h_offset h + of_nat (length payload) then BurstNext st
      else if ss_bitmap_test (p_bitmap st) 0 (h_sequence h)
      then (if p_outstanding st = 0 then BurstEnd (BurstOver st) else BurstNext st)
      else if length (p_out st) < unat (h_offset h) + length payload then BurstEnd BurstFault
      else let wanted = ss_bitmap_test (take (p_request_len st) (p_request st)) (p_request_base st) (h_sequence h);
               st = st\<lparr>p_out := blit (p_out st) (unat (h_offset h)) payload,
                       p_bitmap := ss_bitmap_set (p_bitmap st) 0 (h_sequence h),
                       p_outstanding := (if 0 < p_outstanding st \<and> wanted then p_outstanding st - 1
                                         else p_outstanding st)\<rparr>
           in if p_outstanding st = 0 then BurstEnd (BurstOver st) else BurstNext st)"

text \<open>One ACK or PULL_CHUNK.\<close>

definition pull_reply :: "u32 \<Rightarrow> int \<Rightarrow> pull_state \<Rightarrow> ss_header \<Rightarrow> byte list \<Rightarrow> burst_step" where
  "pull_reply window max_rounds st h payload =
     (case (if p_initialised st then Inr st else pull_initialise window max_rounds st h) of
        Inl rc \<Rightarrow> BurstEnd (BurstReturn rc st)
      | Inr st \<Rightarrow> if h_msg_type h \<noteq> SS_PULL_CHUNK then BurstNext st else pull_chunk st h payload)"

text \<open>The receive loop of one round.\<close>

partial_function (option) pull_burst ::
    "'x ss_client \<Rightarrow> u32 \<Rightarrow> pull_state \<Rightarrow> (burst_end \<times> 'x ss_client) option" where
  "pull_burst c window st =
     (let (r, c) = await_reply c
      in case r of
           Inl rc \<Rightarrow> Some (if rc = SS_ERR_TIMEOUT then BurstOver st else BurstReturn rc st, c)
         | Inr (h, payload) \<Rightarrow>
             if h_msg_type h = SS_NACK then (let (rc, c) = note_nack c h payload in Some (BurstReturn rc st, c))
             else if h_msg_type h \<noteq> SS_ACK \<and> h_msg_type h \<noteq> SS_PULL_CHUNK then pull_burst c window st
             else (case pull_reply window (cl_max_rounds c) st h payload of
                     BurstNext st \<Rightarrow> pull_burst c window st
                   | BurstEnd e \<Rightarrow> Some (e, c)))"

text \<open>The next window: from the first gap, up to \<open>window\<close> chunks still absent.\<close>

fun pick_window :: "byte list \<Rightarrow> u32 \<Rightarrow> u32 \<Rightarrow> u32 list \<Rightarrow> u32 \<Rightarrow> u32 \<Rightarrow> byte list \<Rightarrow> u32 \<times> u32 \<times> byte list" where
  "pick_window bitmap base window [] picked highest request = (picked, highest, request)"
| "pick_window bitmap base window (i # is) picked highest request =
     (if \<not> picked < window then (picked, highest, request)
      else if ss_bitmap_test bitmap 0 i then pick_window bitmap base window is picked highest request
      else if of_nat SS_MAX_PAYLOAD * 8 \<le> i - base then (picked, highest, request)
      else pick_window bitmap base window is (picked + 1) i (ss_bitmap_set request base i))"

text \<open>What follows a burst: done, given up, or another request.\<close>

definition pull_next_round :: "u32 \<Rightarrow> int \<Rightarrow> pull_state \<Rightarrow> round_end" where
  "pull_next_round window max_rounds st =
     (let st = (if p_budget st \<noteq> 0 then st\<lparr>p_rounds := p_rounds st + 1\<rparr> else st)
      in if p_budget st \<noteq> 0 \<and> p_budget st < p_rounds st then RoundReturn SS_ERR_GAVE_UP
         else if \<not> p_initialised st
         then (let st = st\<lparr>p_stalled := p_stalled st + 1\<rparr>
               in if max_rounds \<le> p_stalled st then RoundReturn SS_ERR_GAVE_UP else RoundNext st)
         else let (missing, first) = count_missing (p_bitmap st) (p_chunks st)
              in if missing = 0 then RoundDone
                 else let stalled = (if missing < p_previous_missing st then 0 else p_stalled st + 1)
                      in if \<not> missing < p_previous_missing st \<and> max_rounds \<le> stalled
                         then RoundReturn SS_ERR_GAVE_UP
                         else let (picked, highest, request) =
                                    pick_window (p_bitmap st) first window
                                      (map of_nat [unat first..<unat (p_chunks st)]) 0 first
                                      (replicate SS_MAX_PAYLOAD 0)
                              in RoundNext (st\<lparr>p_stalled := stalled, p_previous_missing := missing,
                                    p_request_base := first, p_request := request,
                                    p_request_len := unat ((highest - first) div 8) + 1,
                                    p_outstanding := picked, p_want_version := p_version st\<rparr>))"

text \<open>
  The end of a pull: the return value, \<open>(*out_size, *out_version)\<close> if they were written, and the caller's card
  and bitmap buffers.
\<close>

datatype pull_end = Fault | PullEnd ss_result "(u32 \<times> u32) option" "byte list" "byte list"

partial_function (option) pull_rounds ::
    "'x ss_client \<Rightarrow> byte list \<Rightarrow> byte \<Rightarrow> u32 \<Rightarrow> pull_state \<Rightarrow> (pull_end \<times> 'x ss_client) option" where
  "pull_rounds c game_id slot window st =
     (let h = (ss_header_init SS_PULL_REQ (cl_device_id c) game_id slot)
                \<lparr>h_card_version := p_want_version st, h_sequence := p_request_base st\<rparr>;
          (rc, c) = emit c h (take (p_request_len st) (p_request st))
      in if rc \<noteq> SS_OK then Some (PullEnd rc None (p_out st) (p_bitmap st), c)
         else case pull_burst c window st of
                None \<Rightarrow> None
              | Some (BurstReturn rc st, c) \<Rightarrow> Some (PullEnd rc None (p_out st) (p_bitmap st), c)
              | Some (BurstFault, c) \<Rightarrow> Some (Fault, c)
              | Some (BurstOver st, c) \<Rightarrow>
                  (case pull_next_round window (cl_max_rounds c) st of
                     RoundReturn rc \<Rightarrow> Some (PullEnd rc None (p_out st) (p_bitmap st), c)
                   | RoundDone \<Rightarrow>
                       Some (PullEnd SS_OK (Some (p_total st, p_version st)) (p_out st) (p_bitmap st), c)
                   | RoundNext st \<Rightarrow> pull_rounds c game_id slot window st))"

definition ss_pull ::
    "'x ss_client \<Rightarrow> byte list \<Rightarrow> byte \<Rightarrow> u32 \<Rightarrow> byte list \<Rightarrow> byte list \<Rightarrow> (pull_end \<times> 'x ss_client) option" where
  "ss_pull c game_id slot want_version out bitmap =
     (let window = pull_window_of (cl_pull_window c)
      in pull_rounds c game_id slot window (pull_start window want_version out bitmap))"

subsection \<open>Counting and choosing chunks\<close>

lemma count_missing_loop:
  fixes bitmap :: "byte list" and m :: nat
  assumes "m < 2 ^ 32"
  defines "r \<equiv> fold (\<lambda>i (missing, first).
         if \<not> ss_bitmap_test bitmap 0 (of_nat i)
         then (missing + 1, if missing = (0 :: u32) then of_nat i else first) else (missing, first)) [0..<m] (0, 0 :: u32)"
  shows "unat (fst r) = length (filter (\<lambda>k. \<not> bitmap_bit bitmap k) [0..<m])"
    and "fst r \<noteq> 0 \<Longrightarrow> unat (snd r) < m \<and> \<not> bitmap_bit bitmap (unat (snd r)) \<and>
      (\<forall>k < unat (snd r). bitmap_bit bitmap k)"
proof -
  have "unat (fst r) = length (filter (\<lambda>k. \<not> bitmap_bit bitmap k) [0..<m]) \<and>
    (fst r \<noteq> 0 \<longrightarrow> unat (snd r) < m \<and> \<not> bitmap_bit bitmap (unat (snd r)) \<and> (\<forall>k < unat (snd r). bitmap_bit bitmap k))"
    using assms(1) unfolding r_def
  proof (induction m)
    case 0
    then show ?case by simp
  next
    case (Suc m)
    define r0 where "r0 = fold (\<lambda>i (missing, first).
         if \<not> ss_bitmap_test bitmap 0 (of_nat i)
         then (missing + 1, if missing = (0 :: u32) then of_nat i else first) else (missing, first)) [0..<m] (0, 0 :: u32)"
    obtain mi fi where r0: "r0 = (mi, fi)" by fastforce
    have IH: "unat mi = length (filter (\<lambda>k. \<not> bitmap_bit bitmap k) [0..<m])"
      "mi \<noteq> 0 \<longrightarrow> unat fi < m \<and> \<not> bitmap_bit bitmap (unat fi) \<and> (\<forall>k < unat fi. bitmap_bit bitmap k)"
      using Suc.IH Suc.prems unfolding r0_def[symmetric] r0 by simp_all
    have um: "unat (of_nat m :: u32) = m" using Suc.prems by (intro unat_of_nat_u32) simp
    have t: "ss_bitmap_test bitmap 0 (of_nat m) \<longleftrightarrow> bitmap_bit bitmap m"
      by (simp add: ss_bitmap_test_bit um)
    have le: "unat mi \<le> m" using IH(1) length_filter_le[of "\<lambda>k. \<not> bitmap_bit bitmap k" "[0..<m]"] by simp
    then have s: "unat (mi + 1) = unat mi + 1" using Suc.prems by (simp add: unat_add_u32)
    have z: "bitmap_bit bitmap k" if "mi = 0" "k < m" for k
      using IH(1) that by (simp add: filter_empty_conv)
    have "fold (\<lambda>i (missing, first).
         if \<not> ss_bitmap_test bitmap 0 (of_nat i)
         then (missing + 1, if missing = (0 :: u32) then of_nat i else first) else (missing, first)) [0..<Suc m] (0, 0 :: u32)
      = (if bitmap_bit bitmap m then (mi, fi) else (mi + 1, if mi = 0 then of_nat m else fi))"
      using r0 unfolding r0_def by (simp add: t)
    then show ?case using IH s um z by (cases "bitmap_bit bitmap m"; cases "mi = 0") auto
  qed
  then show "unat (fst r) = length (filter (\<lambda>k. \<not> bitmap_bit bitmap k) [0..<m])"
    and "fst r \<noteq> 0 \<Longrightarrow> unat (snd r) < m \<and> \<not> bitmap_bit bitmap (unat (snd r)) \<and>
      (\<forall>k < unat (snd r). bitmap_bit bitmap k)" by simp_all
qed

lemma count_missing_spec:
  assumes "count_missing bitmap chunks = (missing, first)"
  shows "unat missing = length (filter (\<lambda>k. \<not> bitmap_bit bitmap k) [0..<unat chunks])"
    and "missing \<noteq> 0 \<Longrightarrow> unat first < unat chunks \<and> \<not> bitmap_bit bitmap (unat first) \<and>
      (\<forall>k < unat first. bitmap_bit bitmap k)"
  using count_missing_loop[OF unat_u32_lt, where bitmap = bitmap and x1 = chunks] assms
  by (simp_all add: count_missing_def)

lemma count_missing_0:
  "count_missing bitmap chunks = (0, first) \<Longrightarrow> k < unat chunks \<Longrightarrow> bitmap_bit bitmap k"
  using count_missing_spec(1)[of bitmap chunks 0 first] by (simp add: filter_empty_conv)

subsection \<open>Assembling the card of a faithful server\<close>

text \<open>
  What a server that holds \<open>img\<close> as version \<open>ver\<close> answers a pull with: size and version in every reply, and chunks that are
  its card's bytes at their place.
\<close>

definition faithful_reply :: "byte list \<Rightarrow> u32 \<Rightarrow> ss_header \<Rightarrow> byte list \<Rightarrow> bool" where
  "faithful_reply img ver h p \<longleftrightarrow>
     (h_msg_type h = SS_ACK \<or> h_msg_type h = SS_PULL_CHUNK \<longrightarrow>
        unat (h_total_size h) = length img \<and> h_card_version h = ver) \<and>
     (h_msg_type h = SS_PULL_CHUNK \<longrightarrow>
        unat (h_sequence h) * 1024 < length img \<and> unat (h_offset h) = unat (h_sequence h) * 1024 \<and>
        p = bytes_at img (unat (h_sequence h) * 1024) 1024)"

definition pull_inv :: "byte list \<Rightarrow> u32 \<Rightarrow> pull_state \<Rightarrow> bool" where
  "pull_inv img ver st \<longleftrightarrow> (p_initialised st \<longrightarrow>
     unat (p_total st) = length img \<and> p_version st = ver \<and> p_chunks st = ss_chunk_count (p_total st) \<and>
     length img \<le> length (p_out st) \<and> unat (p_chunks st) \<le> 8 * length (p_bitmap st) \<and>
     (\<forall>k. k * 1024 < length img \<and> bitmap_bit (p_bitmap st) k \<longrightarrow>
        bytes_at (take (length img) (p_out st)) (k * 1024) 1024 = bytes_at img (k * 1024) 1024))"

lemma pull_initialise_inv:
  assumes "faithful_reply img ver h p" "h_msg_type h = SS_ACK \<or> h_msg_type h = SS_PULL_CHUNK"
    and "pull_initialise window mr st h = Inr st'" and "length img + 1023 < 2 ^ 32"
  shows "pull_inv img ver st' \<and> p_initialised st'"
proof -
  have t: "unat (h_total_size h) = length img" "h_card_version h = ver"
    using assms(1,2) by (auto simp: faithful_reply_def)
  let ?ch = "ss_chunk_count (h_total_size h)" and ?bm = "memset (p_bitmap st) 0 ((unat (ss_chunk_count (h_total_size h)) + 7) div 8)"
  have st': "p_total st' = h_total_size h" "p_version st' = h_card_version h" "p_chunks st' = ?ch" "p_initialised st'"
    "p_out st' = p_out st" "p_bitmap st' = ?bm" "length img \<le> length (p_out st)"
    "(unat ?ch + 7) div 8 \<le> length (p_bitmap st)"
    using assms(3) t by (auto simp: pull_initialise_def Let_def split: if_splits)
  have fit: "unat ?ch \<le> 8 * ((unat ?ch + 7) div 8)" by presburger
  have clear: "\<not> bitmap_bit ?bm k" if "k * 1024 < length img" for k
  proof -
    have "k < unat ?ch" using that t(1) chunk_count_covers[of "h_total_size h" k] assms(4) by simp
    then have "\<not> 8 * ((unat ?ch + 7) div 8) \<le> k" using fit by linarith
    then show ?thesis using bitmap_bit_memset0[OF st'(8)] by blast
  qed
  have "unat ?ch \<le> 8 * length ?bm" using fit st'(8) by simp
  with clear show ?thesis unfolding pull_inv_def st' using t st' by auto
qed

lemma window_after_chunk:
  assumes "length img \<le> length out" "k * 1024 < length img" "j * 1024 < length img"
  shows "bytes_at (take (length img) (blit out (k * 1024) (bytes_at img (k * 1024) 1024))) (j * 1024) 1024 =
    (if j = k then bytes_at img (k * 1024) 1024 else bytes_at (take (length img) out) (j * 1024) 1024)"
proof -
  let ?c = "bytes_at img (k * 1024) 1024"
  have "take (length img) (blit out (k * 1024) ?c) = blit (take (length img) out) (k * 1024) ?c"
    using assms by (simp add: blit_def min_def take_drop)
  then show ?thesis using chunk_after_blit[of "take (length img) out" img k j] assms by simp
qed

lemma pull_chunk_inv:
  assumes f: "faithful_reply img ver h p" "h_msg_type h = SS_PULL_CHUNK"
    and inv: "pull_inv img ver st" "p_initialised st" and len: "length img + 1023 < 2 ^ 32"
  shows "case pull_chunk st h p of BurstNext st' \<Rightarrow> pull_inv img ver st' \<and> p_initialised st'
    | BurstEnd (BurstOver st') \<Rightarrow> pull_inv img ver st' \<and> p_initialised st'
    | BurstEnd (BurstReturn rc st') \<Rightarrow> False | BurstEnd BurstFault \<Rightarrow> False"
proof -
  let ?k = "unat (h_sequence h)"
  have k: "?k * 1024 < length img" "unat (h_offset h) = ?k * 1024" "p = bytes_at img (?k * 1024) 1024"
    using f by (auto simp: faithful_reply_def)
  have i: "unat (p_total st) = length img" "p_version st = ver" "p_chunks st = ss_chunk_count (p_total st)"
    "length img \<le> length (p_out st)" "unat (p_chunks st) \<le> 8 * length (p_bitmap st)"
    "\<And>k. k * 1024 < length img \<Longrightarrow> bitmap_bit (p_bitmap st) k \<Longrightarrow>
        bytes_at (take (length img) (p_out st)) (k * 1024) 1024 = bytes_at img (k * 1024) 1024"
    using inv by (auto simp: pull_inv_def)
  have nofault: "\<not> length (p_out st) < unat (h_offset h) + length p" using k i(4) by simp
  let ?bm = "ss_bitmap_set (p_bitmap st) 0 (h_sequence h)" and ?out = "blit (p_out st) (unat (h_offset h)) p"
  have new: "pull_inv img ver st'" if "p_initialised st'" "p_total st' = p_total st" "p_version st' = p_version st"
      "p_chunks st' = p_chunks st" "p_out st' = ?out" "p_bitmap st' = ?bm" for st'
  proof -
    have lo: "length ?out = length (p_out st)" using nofault by simp
    have "bytes_at (take (length img) ?out) (j * 1024) 1024 = bytes_at img (j * 1024) 1024"
      if "j * 1024 < length img" "bitmap_bit ?bm j" for j
      using that i(6)[of j] window_after_chunk[OF i(4) k(1) that(1)] unfolding k(2,3)
      by (auto simp: bitmap_bit_set)
    then show ?thesis unfolding pull_inv_def that using i lo by simp
  qed
  show ?thesis
    using inv nofault new
    by (auto simp: pull_chunk_def Let_def split: if_splits)
qed

lemma note_nack_not_OK: "note_nack c h p = (rc, c') \<Longrightarrow> rc \<noteq> SS_OK"
  by (auto simp: note_nack_def Let_def split: if_splits)

lemma pull_reply_inv:
  assumes "faithful_reply img ver h p" "h_msg_type h = SS_ACK \<or> h_msg_type h = SS_PULL_CHUNK"
    and "pull_inv img ver st" "length img + 1023 < 2 ^ 32"
  shows "case pull_reply window mr st h p of BurstNext st' \<Rightarrow> pull_inv img ver st'
    | BurstEnd (BurstOver st') \<Rightarrow> pull_inv img ver st'
    | BurstEnd (BurstReturn rc st') \<Rightarrow> rc \<noteq> SS_OK | BurstEnd BurstFault \<Rightarrow> False"
proof (cases "if p_initialised st then Inr st else pull_initialise window mr st h")
  case (Inl rc)
  then have "rc \<noteq> SS_OK" by (auto simp: pull_initialise_def Let_def split: if_splits)
  then show ?thesis using Inl by (simp add: pull_reply_def)
next
  case (Inr st1)
  have i: "pull_inv img ver st1" "p_initialised st1"
    using Inr assms(3) pull_initialise_inv[OF assms(1,2) _ assms(4), of window mr st st1] by (auto split: if_splits)
  show ?thesis
  proof (cases "h_msg_type h = SS_PULL_CHUNK")
    case True
    then show ?thesis using Inr pull_chunk_inv[OF assms(1) True i assms(4)]
      by (auto simp: pull_reply_def split: burst_step.splits burst_end.splits)
  qed (use Inr i in \<open>simp add: pull_reply_def\<close>)
qed

lemma pull_burst_inv:
  fixes c c' :: "'x ss_client"
  assumes "pull_burst c window st = Some (e, c')" "replies c (faithful_reply img ver)" "pull_inv img ver st"
    and len: "length img + 1023 < 2 ^ 32"
  shows "replies c' (faithful_reply img ver) \<and>
    (case e of BurstReturn rc st' \<Rightarrow> rc \<noteq> SS_OK | BurstFault \<Rightarrow> False | BurstOver st' \<Rightarrow> pull_inv img ver st')"
proof -
  let ?F = "faithful_reply img ver"
  define P where "P = (\<lambda>(c :: 'x ss_client) (w :: u32) st (y :: burst_end \<times> 'x ss_client).
    replies c ?F \<and> pull_inv img ver st \<longrightarrow> replies (snd y) ?F \<and>
    (case fst y of BurstReturn rc st' \<Rightarrow> rc \<noteq> SS_OK | BurstFault \<Rightarrow> False | BurstOver st' \<Rightarrow> pull_inv img ver st'))"
  have "P c window st (e, c')"
    using assms(1)
  proof (rule pull_burst.raw_induct[rotated])
    fix self :: "'x ss_client \<Rightarrow> u32 \<Rightarrow> pull_state \<Rightarrow> (burst_end \<times> 'x ss_client) option"
    fix c :: "'x ss_client" and w st y
    assume ih: "\<And>c w st y. self c w st = Some y \<Longrightarrow> P c w st y"
    assume eq: "(let (r, c) = await_reply c
      in case r of
           Inl rc \<Rightarrow> Some (if rc = SS_ERR_TIMEOUT then BurstOver st else BurstReturn rc st, c)
         | Inr (h, payload) \<Rightarrow>
             if h_msg_type h = SS_NACK then (let (rc, c) = note_nack c h payload in Some (BurstReturn rc st, c))
             else if h_msg_type h \<noteq> SS_ACK \<and> h_msg_type h \<noteq> SS_PULL_CHUNK then self c w st
             else (case pull_reply w (cl_max_rounds c) st h payload of
                     BurstEnd e \<Rightarrow> Some (e, c)
                   | BurstNext st \<Rightarrow> self c w st)) = Some y"
    obtain r c1 where a: "await_reply c = (r, c1)" by fastforce
    show "P c w st y"
      unfolding P_def
    proof (intro impI, elim conjE)
      assume rp: "replies c ?F" and inv: "pull_inv img ver st"
      have rp1: "replies c1 ?F" by (rule replies_follows[OF rp follows_await_reply[OF a]])
      show "replies (snd y) ?F \<and> (case fst y of BurstReturn rc st' \<Rightarrow> rc \<noteq> SS_OK | BurstFault \<Rightarrow> False
          | BurstOver st' \<Rightarrow> pull_inv img ver st')"
      proof (cases r)
        case (Inl rc)
        have "rc \<noteq> SS_OK" using await_not_OK[of 16 c] a Inl by (simp add: await_reply_def)
        then show ?thesis using eq Inl rp1 inv by (auto simp: a)
      next
        case (Inr hp)
        obtain h p where hp: "hp = (h, p)" by fastforce
        have f: "?F h p" by (rule replies_await[OF rp a[unfolded Inr hp]])
        obtain rc2 c2 where n: "note_nack c1 h p = (rc2, c2)" by fastforce
        have n2: "rc2 \<noteq> SS_OK" "replies c2 ?F"
          using note_nack_not_OK[OF n] replies_follows[OF rp1 follows_note_nack[of c1 h p]] by (simp_all add: n)
        note eq' = eq[unfolded a Inr hp Let_def prod.case sum.case n]
        show ?thesis
        proof (cases "h_msg_type h = SS_ACK \<or> h_msg_type h = SS_PULL_CHUNK")
          case True
          then have nk: "h_msg_type h \<noteq> SS_NACK" by (auto simp: msg_types)
          note rep = pull_reply_inv[OF f True inv len, of w "cl_max_rounds c1"]
          show ?thesis
          proof (cases "pull_reply w (cl_max_rounds c1) st h p")
            case (BurstEnd e1)
            then have "y = (e1, c1)" using eq' True nk by auto
            then show ?thesis using rep BurstEnd rp1 by (auto split: burst_end.splits)
          next
            case (BurstNext st1)
            then have "self c1 w st1 = Some y" using eq' True nk by auto
            from ih[OF this] show ?thesis using rep BurstNext rp1 by (simp add: P_def)
          qed
        next
          case False
          show ?thesis
          proof (cases "h_msg_type h = SS_NACK")
            case True
            then have "y = (BurstReturn rc2 st, c2)" using eq' by auto
            then show ?thesis using n2 by simp
          next
            case nn: False
            then have "self c1 w st = Some y" using eq' False by auto
            from ih[OF this] show ?thesis using rp1 inv by (simp add: P_def)
          qed
        qed
      qed
    qed
  qed
  then show ?thesis using assms(2,3) by (simp add: P_def)
qed

lemma pull_next_round_inv:
  assumes "pull_inv img ver st"
  shows "pull_next_round window mr st = RoundNext st' \<Longrightarrow> pull_inv img ver st'"
    and "pull_next_round window mr st = RoundReturn rc \<Longrightarrow> rc = SS_ERR_GAVE_UP"
    and "pull_next_round window mr st = RoundDone \<Longrightarrow>
      p_initialised st \<and> (\<forall>k < unat (p_chunks st). bitmap_bit (p_bitmap st) k)"
proof -
  show "pull_next_round window mr st = RoundNext st' \<Longrightarrow> pull_inv img ver st'"
    using assms by (auto simp: pull_next_round_def pull_inv_def Let_def split: if_splits prod.splits)
  show "pull_next_round window mr st = RoundReturn rc \<Longrightarrow> rc = SS_ERR_GAVE_UP"
    by (auto simp: pull_next_round_def Let_def split: if_splits prod.splits)
  obtain m f where m: "count_missing (p_bitmap st) (p_chunks st) = (m, f)" by fastforce
  show "pull_next_round window mr st = RoundDone \<Longrightarrow>
      p_initialised st \<and> (\<forall>k < unat (p_chunks st). bitmap_bit (p_bitmap st) k)"
    using count_missing_0[of "p_bitmap st" "p_chunks st" f] m
    by (auto simp: pull_next_round_def Let_def split: if_splits prod.splits)
qed

lemma pull_complete:
  assumes inv: "pull_inv img ver st" "p_initialised st" and all: "\<forall>k < unat (p_chunks st). bitmap_bit (p_bitmap st) k"
    and len: "length img + 1023 < 2 ^ 32"
  shows "take (length img) (p_out st) = img"
proof (rule list_eq_by_windows[where w = 1024])
  have i: "unat (p_total st) = length img" "p_chunks st = ss_chunk_count (p_total st)" "length img \<le> length (p_out st)"
    "\<And>k. k * 1024 < length img \<Longrightarrow> bitmap_bit (p_bitmap st) k \<Longrightarrow>
        bytes_at (take (length img) (p_out st)) (k * 1024) 1024 = bytes_at img (k * 1024) 1024"
    using inv by (auto simp: pull_inv_def)
  show l: "length (take (length img) (p_out st)) = length img" using i(3) by simp
  fix k assume "k * 1024 < length (take (length img) (p_out st))"
  then have k: "k * 1024 < length img" by (simp only: l)
  then have "k < unat (p_chunks st)" using chunk_count_covers[of "p_total st" k] i(1,2) len by simp
  then show "bytes_at (take (length img) (p_out st)) (k * 1024) 1024 = bytes_at img (k * 1024) 1024"
    using all i(4)[OF k] by simp
qed simp

lemma pull_rounds_faithful:
  fixes c c' :: "'x ss_client"
  assumes "pull_rounds c g s window st = Some (e, c')" "replies c (faithful_reply img ver)" "pull_inv img ver st"
    and len: "length img + 1023 < 2 ^ 32"
  shows "case e of Fault \<Rightarrow> False
    | PullEnd rc r out bm \<Rightarrow> rc = SS_OK \<longrightarrow> r = Some (of_nat (length img), ver) \<and> take (length img) out = img"
proof -
  let ?F = "faithful_reply img ver"
  define Q where "Q = (\<lambda>e. case e of Fault \<Rightarrow> False
    | PullEnd rc r out bm \<Rightarrow> rc = SS_OK \<longrightarrow> r = Some (of_nat (length img), ver) \<and> take (length img) out = img)"
  define P where "P = (\<lambda>(c :: 'x ss_client) (g :: byte list) (s :: byte) (w :: u32) st (y :: pull_end \<times> 'x ss_client).
    replies c ?F \<and> pull_inv img ver st \<longrightarrow> Q (fst y))"
  have "P c g s window st (e, c')"
    using assms(1)
  proof (rule pull_rounds.raw_induct[rotated])
    fix self :: "'x ss_client \<Rightarrow> byte list \<Rightarrow> byte \<Rightarrow> u32 \<Rightarrow> pull_state \<Rightarrow> (pull_end \<times> 'x ss_client) option"
    fix c :: "'x ss_client" and g :: "byte list" and s :: byte and w st y
    assume ih: "\<And>c g s w st y. self c g s w st = Some y \<Longrightarrow> P c g s w st y"
    assume eq: "(let h = (ss_header_init SS_PULL_REQ (cl_device_id c) g s)
                \<lparr>h_card_version := p_want_version st, h_sequence := p_request_base st\<rparr>;
          (rc, c) = emit c h (take (p_request_len st) (p_request st))
      in if rc \<noteq> SS_OK then Some (PullEnd rc None (p_out st) (p_bitmap st), c)
         else case pull_burst c w st of
                None \<Rightarrow> None
              | Some (BurstReturn rc st, c) \<Rightarrow> Some (PullEnd rc None (p_out st) (p_bitmap st), c)
              | Some (BurstFault, c) \<Rightarrow> Some (Fault, c)
              | Some (BurstOver st, c) \<Rightarrow>
                  (case pull_next_round w (cl_max_rounds c) st of
                     RoundReturn rc \<Rightarrow> Some (PullEnd rc None (p_out st) (p_bitmap st), c)
                   | RoundDone \<Rightarrow>
                       Some (PullEnd SS_OK (Some (p_total st, p_version st)) (p_out st) (p_bitmap st), c)
                   | RoundNext st \<Rightarrow> self c g s w st)) = Some y"
    let ?h = "(ss_header_init SS_PULL_REQ (cl_device_id c) g s)
                \<lparr>h_card_version := p_want_version st, h_sequence := p_request_base st\<rparr>"
    obtain rc c1 where e: "emit c ?h (take (p_request_len st) (p_request st)) = (rc, c1)" by fastforce
    show "P c g s w st y"
      unfolding P_def
    proof (intro impI, elim conjE)
      assume rp: "replies c ?F" and inv: "pull_inv img ver st"
      have rp1: "replies c1 ?F" by (rule replies_follows[OF rp follows_emit[OF e]])
      note eq' = eq[unfolded Let_def e prod.case]
      show "Q (fst y)"
      proof (cases "rc = SS_OK")
        case False
        then show ?thesis using eq' by (auto simp: Q_def)
      next
        case True
        obtain b c2 where b: "pull_burst c1 w st = Some (b, c2)" using eq' True by (auto split: option.splits)
        note bi = pull_burst_inv[OF b rp1 inv len]
        show ?thesis
        proof (cases b)
          case (BurstReturn rc2 st2)
          then show ?thesis using eq' True b bi by (auto simp: Q_def)
        next
          case BurstFault
          then show ?thesis using bi by simp
        next
          case (BurstOver st2)
          have i2: "pull_inv img ver st2" "replies c2 ?F" using bi BurstOver by simp_all
          note nr = pull_next_round_inv[OF i2(1), of w "cl_max_rounds c2"]
          show ?thesis
          proof (cases "pull_next_round w (cl_max_rounds c2) st2")
            case (RoundReturn rc3)
            then show ?thesis using eq' True b BurstOver nr(2)[OF RoundReturn] by (auto simp: Q_def)
          next
            case RoundDone
            have d: "p_initialised st2" "\<forall>k < unat (p_chunks st2). bitmap_bit (p_bitmap st2) k" using nr(3)[OF RoundDone] by auto
            have "unat (p_total st2) = length img" "p_version st2 = ver" using i2(1) d(1) by (auto simp: pull_inv_def)
            then have "p_total st2 = of_nat (length img) \<and> p_version st2 = ver" by (metis word_unat_eq_iff unat_of_nat_u32 unat_u32_lt)
            then show ?thesis
              using eq' True b BurstOver RoundDone pull_complete[OF i2(1) d len] by (auto simp: Q_def)
          next
            case (RoundNext st3)
            then have "self c2 g s w st3 = Some y" using eq' True b BurstOver by simp
            from ih[OF this] show ?thesis using nr(1)[OF RoundNext] i2(2) by (simp add: P_def)
          qed
        qed
      qed
    qed
  qed
  then show ?thesis using assms(2,3) by (simp add: P_def Q_def)
qed

subsection \<open>A pull comes to an end\<close>

text \<open>The rounds that are left: the stalls allowed before the card's size is known, then the round budget.\<close>

definition rounds_left :: "int \<Rightarrow> pull_state \<Rightarrow> nat" where
  "rounds_left mr st = (if p_initialised st then unat (p_budget st) - unat (p_rounds st)
     else 2 ^ 32 + nat (mr - p_stalled st))"

definition budgeted :: "pull_state \<Rightarrow> bool" where
  "budgeted st \<longleftrightarrow> (if p_initialised st
     then p_budget st \<noteq> 0 \<and> p_rounds st \<le> p_budget st \<and> unat (p_budget st) < 2 ^ 32 - 1
     else p_budget st = 0 \<and> p_rounds st = 0)"

lemma budget_bounds:
  assumes "0 < mr" "mr < 2 ^ 31"
  shows "0 < unat ((ss_chunk_count n div w + 1) * 4 + of_int mr :: u32)"
    and "unat ((ss_chunk_count n div w + 1) * 4 + of_int mr :: u32) < 2 ^ 32 - 1"
proof -
  define q where "q = unat (ss_chunk_count n) div unat w"
  have "unat (n + of_nat SS_MAX_PAYLOAD - 1) < 2 ^ 32" by (rule unat_u32_lt)
  then have "unat (ss_chunk_count n) < 2 ^ 22"
    by (simp add: ss_chunk_count_def unat_div SS_MAX_PAYLOAD_def less_mult_imp_div_less)
  then have "q < 2 ^ 22" unfolding q_def by (metis div_le_dividend le_less_trans)
  have qd: "unat (ss_chunk_count n div w) = q" by (simp add: unat_div q_def)
  have q1: "unat (ss_chunk_count n div w + 1) = q + 1" using \<open>q < 2 ^ 22\<close> qd by (subst unat_add_u32) simp_all
  then have q4: "unat ((ss_chunk_count n div w + 1) * 4) = (q + 1) * 4"
    using \<open>q < 2 ^ 22\<close> by (simp add: unat_word_ariths(2) q1 del: distrib_right_numeral)
  have "of_int mr = (of_nat (nat mr) :: u32)" using assms by simp
  then have m: "unat (of_int mr :: u32) = nat mr" using assms unat_of_nat_u32[of "nat mr"] by simp
  have nm: "nat mr < 2 ^ 31" using assms by (simp add: nat_less_iff)
  have "unat ((ss_chunk_count n div w + 1) * 4 + of_int mr :: u32) = (q + 1) * 4 + nat mr"
    using \<open>q < 2 ^ 22\<close> nm by (subst unat_add_u32) (simp_all only: q4 m, simp)
  then show "0 < unat ((ss_chunk_count n div w + 1) * 4 + of_int mr :: u32)"
    and "unat ((ss_chunk_count n div w + 1) * 4 + of_int mr :: u32) < 2 ^ 32 - 1"
    using \<open>q < 2 ^ 22\<close> nm by simp_all
qed

lemma pull_initialise_budgeted:
  assumes "pull_initialise w mr st h = Inr st'" "budgeted st" "\<not> p_initialised st" "0 < mr" "mr < 2 ^ 31"
  shows "budgeted st' \<and> p_initialised st'"
proof -
  have b: "p_budget st' = (ss_chunk_count (h_total_size h) div w + 1) * 4 + of_int mr" "p_initialised st'"
    "p_rounds st' = p_rounds st"
    using assms(1) by (auto simp: pull_initialise_def Let_def split: if_splits)
  have "p_rounds st = 0" using assms(2,3) by (simp add: budgeted_def)
  then show ?thesis
    using budget_bounds[OF assms(4,5), of "h_total_size h" w] b by (auto simp: budgeted_def)
qed

lemma pull_chunk_budget:
  "pull_chunk st h p = BurstNext st' \<or> pull_chunk st h p = BurstEnd (BurstOver st') \<Longrightarrow>
   p_initialised st' = p_initialised st \<and> p_budget st' = p_budget st \<and> p_rounds st' = p_rounds st \<and>
   p_stalled st' = p_stalled st"
  by (auto simp: pull_chunk_def Let_def split: if_splits)

lemma rounds_left_init: "p_initialised st' \<Longrightarrow> \<not> p_initialised st \<Longrightarrow> rounds_left mr st' \<le> rounds_left mr st"
  using unat_u32_lt[of "p_budget st'"] by (simp add: rounds_left_def)

lemma pull_reply_budget:
  assumes "pull_reply w mr st h p = BurstNext st' \<or> pull_reply w mr st h p = BurstEnd (BurstOver st')"
    and "budgeted st" "0 < mr" "mr < 2 ^ 31"
  shows "budgeted st' \<and> rounds_left mr st' \<le> rounds_left mr st"
proof -
  obtain st1 where st1: "(if p_initialised st then Inr st else pull_initialise w mr st h) = Inr st1"
    "st' = st1 \<or> pull_chunk st1 h p = BurstNext st' \<or> pull_chunk st1 h p = BurstEnd (BurstOver st')"
    using assms(1) unfolding pull_reply_def
    by (cases "if p_initialised st then Inr st else pull_initialise w mr st h") (auto split: if_splits)
  have 1: "budgeted st1 \<and> rounds_left mr st1 \<le> rounds_left mr st"
  proof (cases "p_initialised st")
    case False
    then show ?thesis
      using st1(1) pull_initialise_budgeted[of w mr st h st1] assms(2-4) rounds_left_init[of st1 st mr] by simp
  qed (use st1(1) assms(2) in simp)
  have same: "p_initialised st' = p_initialised st1" "p_budget st' = p_budget st1" "p_rounds st' = p_rounds st1"
    "p_stalled st' = p_stalled st1"
    using st1(2) pull_chunk_budget[of st1 h p st'] by auto
  then have "budgeted st' = budgeted st1" "rounds_left mr st' = rounds_left mr st1"
    by (simp_all only: budgeted_def rounds_left_def)
  then show ?thesis using 1 by simp
qed

lemma pull_next_round_budget:
  assumes "pull_next_round w mr st = RoundNext st'" "budgeted st"
  shows "budgeted st' \<and> rounds_left mr st' < rounds_left mr st"
proof (cases "p_initialised st")
  case False
  then show ?thesis using assms
    by (auto simp: pull_next_round_def budgeted_def rounds_left_def Let_def split: if_splits)
next
  case True
  have b: "p_budget st \<noteq> 0" "unat (p_rounds st) \<le> unat (p_budget st)" "unat (p_budget st) < 2 ^ 32 - 1"
    using assms(2) True by (simp_all add: budgeted_def word_le_nat_alt)
  then have r: "unat (p_rounds st + 1) = unat (p_rounds st) + 1" by (subst unat_add_u32) simp_all
  have "p_initialised st'" "p_budget st' = p_budget st" "p_rounds st' = p_rounds st + 1"
    "\<not> p_budget st < p_rounds st + 1"
    using assms(1) b(1) True by (auto simp: pull_next_round_def Let_def split: if_splits prod.splits)
  then show ?thesis using b r True by (auto simp: budgeted_def rounds_left_def word_less_nat_alt word_le_nat_alt)
qed

context ending_bursts
begin

lemma pull_burst_returns:
  assumes "receives c" "budgeted st" "0 < cl_max_rounds c" "cl_max_rounds c < 2 ^ 31"
  shows "\<exists>e c'. pull_burst c w st = Some (e, c') \<and> receives c' \<and> cl_max_rounds c' = cl_max_rounds c \<and>
    (\<forall>st'. e = BurstOver st' \<longrightarrow> budgeted st' \<and> rounds_left (cl_max_rounds c) st' \<le> rounds_left (cl_max_rounds c) st)"
  using assms
proof (induction "pending c" arbitrary: c st rule: less_induct)
  case less
  obtain r c1 where a: "await_reply c = (r, c1)" by fastforce
  have f: "follows c c1 0" by (rule follows_await_reply[OF a])
  have c1: "receives c1" "cl_max_rounds c1 = cl_max_rounds c"
    using receives_follows[OF less.prems(1) f] f by (simp_all add: follows_def)
  show ?case
  proof (cases r)
    case (Inl rc)
    then show ?thesis using less.prems c1 by (simp add: pull_burst.simps[of c] a)
  next
    case (Inr hp)
    obtain h p where hp: "hp = (h, p)" by fastforce
    have dec: "pending c1 < pending c" using await_reply_pending[OF less.prems(1), of hp c1] a Inr by simp
    have IH: "\<exists>e c'. pull_burst c1 w st1 = Some (e, c') \<and> receives c' \<and> cl_max_rounds c' = cl_max_rounds c1 \<and>
        (\<forall>st'. e = BurstOver st' \<longrightarrow> budgeted st' \<and> rounds_left (cl_max_rounds c1) st' \<le> rounds_left (cl_max_rounds c1) st1)"
      if "budgeted st1" for st1
      using less.hyps[OF dec c1(1) that] less.prems(3,4) c1(2) by simp
    obtain rc2 c2 where n: "note_nack c1 h p = (rc2, c2)" by fastforce
    have f2: "follows c1 c2 0" using follows_note_nack[of c1 h p] by (simp add: n)
    have c2: "receives c2" "cl_max_rounds c2 = cl_max_rounds c"
      using receives_follows[OF c1(1) f2] f2 c1(2) by (simp_all add: follows_def)
    note step = pull_burst.simps[of c w st, unfolded a Inr hp Let_def prod.case sum.case n]
    consider "h_msg_type h = SS_NACK" | "h_msg_type h \<noteq> SS_NACK" "h_msg_type h \<noteq> SS_ACK" "h_msg_type h \<noteq> SS_PULL_CHUNK"
      | "h_msg_type h = SS_ACK \<or> h_msg_type h = SS_PULL_CHUNK" by blast
    then show ?thesis
    proof cases
      case 1
      then show ?thesis using c2 by (simp add: step)
    next
      case 2
      then show ?thesis using IH[OF less.prems(2)] c1(2) by (simp add: step)
    next
      case 3
      then have nk: "h_msg_type h \<noteq> SS_NACK" by (auto simp: msg_types)
      note rep = pull_reply_budget[of w "cl_max_rounds c1" st h p, OF _ less.prems(2), unfolded c1(2), OF _ less.prems(3,4)]
      show ?thesis
      proof (cases "pull_reply w (cl_max_rounds c1) st h p")
        case (BurstEnd e)
        then have "pull_burst c w st = Some (e, c1)" using step 3 nk by auto
        then show ?thesis using c1 rep[unfolded c1(2)[symmetric]] BurstEnd by (auto simp: c1(2))
      next
        case (BurstNext st1)
        then have e: "pull_burst c w st = pull_burst c1 w st1" using step 3 nk by auto
        have st1: "budgeted st1" "rounds_left (cl_max_rounds c) st1 \<le> rounds_left (cl_max_rounds c) st"
          using rep[of st1] BurstNext c1(2) by simp_all
        show ?thesis using IH[OF st1(1)] st1(2) c1(2) unfolding e by fastforce
      qed
    qed
  qed
qed

lemma pull_rounds_returns:
  assumes "receives c" "budgeted st" "0 < cl_max_rounds c" "cl_max_rounds c < 2 ^ 31"
  shows "\<exists>e c'. pull_rounds c g s w st = Some (e, c')"
  using assms
proof (induction "rounds_left (cl_max_rounds c) st" arbitrary: c st rule: less_induct)
  case less
  let ?h = "(ss_header_init SS_PULL_REQ (cl_device_id c) g s)
                \<lparr>h_card_version := p_want_version st, h_sequence := p_request_base st\<rparr>"
  obtain rc c1 where e: "emit c ?h (take (p_request_len st) (p_request st)) = (rc, c1)" by fastforce
  have f: "follows c c1 1" by (rule follows_emit[OF e])
  have c1: "receives c1" "cl_max_rounds c1 = cl_max_rounds c"
    using receives_follows[OF less.prems(1) f] f by (simp_all add: follows_def)
  note step = pull_rounds.simps[of c g s w st, unfolded Let_def e prod.case]
  show ?case
  proof (cases "rc = SS_OK")
    case True
    obtain b c2 where b: "pull_burst c1 w st = Some (b, c2)" "receives c2" "cl_max_rounds c2 = cl_max_rounds c"
      "\<And>st'. b = BurstOver st' \<Longrightarrow> budgeted st' \<and> rounds_left (cl_max_rounds c) st' \<le> rounds_left (cl_max_rounds c) st"
      using pull_burst_returns[OF c1(1) less.prems(2), of w] less.prems(3,4) c1(2) by auto
    show ?thesis
    proof (cases b)
      case (BurstOver st2)
      show ?thesis
      proof (cases "pull_next_round w (cl_max_rounds c2) st2")
        case (RoundNext st3)
        have lt: "budgeted st3" "rounds_left (cl_max_rounds c2) st3 < rounds_left (cl_max_rounds c) st"
          using pull_next_round_budget[OF RoundNext] b(3) b(4)[OF BurstOver] by auto
        show ?thesis
          using less.hyps[OF lt(2) b(2) lt(1)] less.prems(3,4) b(1,3) BurstOver RoundNext True by (simp add: step)
      qed (use True b(1) BurstOver in \<open>simp_all add: step\<close>)
    qed (use True b(1) in \<open>simp_all add: step\<close>)
  qed (simp add: step)
qed

end

subsection \<open>The window a request names\<close>

text \<open>The chunks of \<open>[a, n)\<close> still missing that a request starting at \<open>base\<close> can name.\<close>

definition nameable :: "byte list \<Rightarrow> nat \<Rightarrow> nat \<Rightarrow> nat \<Rightarrow> nat list" where
  "nameable bm base a n = filter (\<lambda>i. \<not> bitmap_bit bm i \<and> i < base + 8192) [a..<n]"

lemma nameable_past: "base + 8192 \<le> a \<Longrightarrow> nameable bm base a n = []"
  by (auto simp: nameable_def filter_empty_conv)

lemma nameable_step:
  "a < n \<Longrightarrow> nameable bm base a n =
     (if \<not> bitmap_bit bm a \<and> a < base + 8192 then [a] else []) @ nameable bm base (Suc a) n"
  by (simp add: nameable_def upt_conv_Cons)

lemma pick_window_spec:
  assumes "pick_window bm (of_nat base) w (map of_nat [a..<n]) picked highest request = (picked', highest', request')"
    and "base \<le> a" "n < 2 ^ 32" "length request = 1024" "unat picked \<le> unat w"
  defines "chosen \<equiv> take (unat w - unat picked) (nameable bm base a n)"
  shows "unat picked' = unat picked + length chosen \<and> length request' = 1024 \<and>
    (\<forall>k. bitmap_bit request' k \<longleftrightarrow> bitmap_bit request k \<or> base + k \<in> set chosen) \<and>
    highest' = (if chosen = [] then highest else of_nat (last chosen))"
  using assms(1,2,4,5) unfolding chosen_def
proof (induction "n - a" arbitrary: a picked highest request)
  case 0
  then show ?case by (simp add: nameable_def)
next
  case (Suc m)
  have an: "a < n" using Suc.hyps(2) by simp
  have l: "map of_nat [a..<n] = (of_nat a :: u32) # map of_nat [Suc a..<n]" using an by (simp add: upt_conv_Cons)
  have ua: "unat (of_nat a :: u32) = a" using an assms(3) by (intro unat_of_nat_u32) simp
  have ub: "unat (of_nat base :: u32) = base" using an assms(3) Suc.prems(2) by (intro unat_of_nat_u32) simp
  have le: "(of_nat base :: u32) \<le> of_nat a" using Suc.prems(2) ua ub by (simp add: word_le_nat_alt)
  have ud: "unat (of_nat a - of_nat base :: u32) = a - base" using unat_sub[OF le] ua ub by simp
  have t: "ss_bitmap_test bm 0 (of_nat a) \<longleftrightarrow> bitmap_bit bm a" by (simp add: ss_bitmap_test_bit ua)
  have far: "of_nat SS_MAX_PAYLOAD * 8 \<le> (of_nat a - of_nat base :: u32) \<longleftrightarrow> base + 8192 \<le> a"
    using Suc.prems(2) by (auto simp: word_le_nat_alt ud SS_MAX_PAYLOAD_def)
  note eq = Suc.prems(1)[unfolded l pick_window.simps t far]
  show ?case
  proof (cases "picked < w")
    case False
    then have "unat w = unat picked" using Suc.prems(4) by (simp add: word_less_nat_alt)
    then show ?thesis using eq False Suc.prems(3) by simp
  next
    case True
    then have pw: "unat picked < unat w" by (simp add: word_less_nat_alt)
    show ?thesis
    proof (cases "bitmap_bit bm a")
      case True
      then show ?thesis
        using eq \<open>picked < w\<close> Suc.hyps(1)[of "Suc a" picked highest request] Suc.hyps(2) Suc.prems(2-4)
        by (simp add: nameable_step[OF an])
    next
      case False
      show ?thesis
      proof (cases "base + 8192 \<le> a")
        case True
        then show ?thesis using eq \<open>picked < w\<close> False Suc.prems(3) by (simp add: nameable_past)
      next
        case near: False
        let ?rq = "ss_bitmap_set request (of_nat base) (of_nat a)"
        have up: "unat (picked + 1) = unat picked + 1" using pw unat_u32_lt[of w] by (subst unat_add_u32) simp_all
        obtain d where d: "unat w - unat picked = Suc d" "unat w - unat (picked + 1) = d"
          using pw up by (cases "unat w - unat picked") simp_all
        have bits: "bitmap_bit ?rq k \<longleftrightarrow> bitmap_bit request k \<or> base + k = a" for k
          using Suc.prems(2,3) near le by (auto simp: bitmap_bit_set ud)
        have nm: "nameable bm base a n = a # nameable bm base (Suc a) n"
          using near False by (simp add: nameable_step[OF an])
        have IH: "unat picked' = unat (picked + 1) + length (take d (nameable bm base (Suc a) n)) \<and> length request' = 1024 \<and>
          (\<forall>k. bitmap_bit request' k \<longleftrightarrow> bitmap_bit ?rq k \<or> base + k \<in> set (take d (nameable bm base (Suc a) n))) \<and>
          highest' = (if take d (nameable bm base (Suc a) n) = [] then of_nat a else of_nat (last (take d (nameable bm base (Suc a) n))))"
          using Suc.hyps(1)[of "Suc a" "picked + 1" "of_nat a" ?rq] eq \<open>picked < w\<close> False near Suc.hyps(2) Suc.prems(2,3) pw up
          unfolding d(2) by simp
        show ?thesis
          using IH up bits unfolding d(1) nm take_Suc_Cons by auto
      qed
    qed
  qed
qed

lemma bitmap_bit_prefix: "bitmap_bit (take n bm) k \<longleftrightarrow> k div 8 < n \<and> bitmap_bit bm k"
  by (auto simp: bitmap_bit_def)

lemma sorted_take_nameable: "sorted (take m (nameable bm base a n)) \<and> distinct (take m (nameable bm base a n))"
  using sorted_wrt_take[of "(\<le>)" "nameable bm base a n" m]
  by (simp add: nameable_def sorted_wrt_filter)

lemma sorted_le_last: "sorted xs \<Longrightarrow> x \<in> set xs \<Longrightarrow> x \<le> last xs"
  by (induction xs) (auto split: if_splits)

lemma next_request:
  assumes "pull_next_round w mr st = RoundNext st'" "p_initialised st" "0 < w"
  defines "b \<equiv> unat (p_request_base st')" and "n \<equiv> unat (p_chunks st)"
  defines "asked \<equiv> filter (\<lambda>i. ss_bitmap_test (take (p_request_len st') (p_request st')) (p_request_base st') (of_nat i)) [0..<n]"
  shows "asked = take (unat w) (nameable (p_bitmap st) b b n)" "\<forall>i < b. bitmap_bit (p_bitmap st) i"
    "b \<in> set asked" "unat (p_outstanding st') = length asked" "p_want_version st' = p_version st"
proof -
  obtain m f where cm: "count_missing (p_bitmap st) (p_chunks st) = (m, f)" by fastforce
  obtain pk hi rq where pw: "pick_window (p_bitmap st) f w (map of_nat [unat f..<n]) 0 f (replicate SS_MAX_PAYLOAD 0) = (pk, hi, rq)"
    using prod_cases3 by blast
  have st': "m \<noteq> 0" "p_request_base st' = f" "p_request st' = rq" "p_request_len st' = unat ((hi - f) div 8) + 1"
    "p_outstanding st' = pk" "p_want_version st' = p_version st"
    using assms(1,2) cm pw unfolding n_def
    by (auto simp: pull_next_round_def Let_def split: if_splits)
  have b: "b = unat f" by (simp add: b_def st'(2))
  note first = count_missing_spec(2)[OF cm st'(1)]
  have n32: "n < 2 ^ 32" unfolding n_def by (rule unat_u32_lt)
  define chosen where "chosen = take (unat w) (nameable (p_bitmap st) b b n)"
  have spec: "unat pk = length chosen" "length rq = 1024" "\<And>k. bitmap_bit rq k \<longleftrightarrow> b + k \<in> set chosen"
    "hi = (if chosen = [] then f else of_nat (last chosen))"
    using pick_window_spec[of "p_bitmap st" b w b n 0 f "replicate SS_MAX_PAYLOAD 0" pk hi rq] pw n32
    by (simp_all add: b chosen_def SS_MAX_PAYLOAD_def)
  have "nameable (p_bitmap st) b b n = b # nameable (p_bitmap st) b (Suc b) n"
    using first by (simp add: nameable_step b n_def)
  moreover obtain d where "unat w = Suc d" using assms(3) by (cases "unat w") (auto simp: word_less_nat_alt)
  ultimately have bc: "b \<in> set chosen" by (simp add: chosen_def)
  then have ne: "chosen \<noteq> []" by auto
  have srt: "sorted chosen" "distinct chosen" unfolding chosen_def using sorted_take_nameable by blast+
  have sub: "i \<in> set chosen \<Longrightarrow> b \<le> i \<and> i < n" for i
    unfolding chosen_def nameable_def by (auto dest: in_set_takeD)
  have l: "last chosen \<in> set chosen" using ne by simp
  have ul: "unat hi = last chosen" using spec(4) ne sub[OF l] n32 by (simp add: unat_of_nat_u32)
  have "f \<le> hi" using sub[OF l] ul by (simp add: word_le_nat_alt b)
  then have len: "p_request_len st' = (last chosen - b) div 8 + 1"
    using ul by (simp add: st'(4) unat_div unat_sub b)
  have last_max: "i \<in> set chosen \<Longrightarrow> i \<le> last chosen" for i
    by (rule sorted_le_last[OF srt(1)])
  have "ss_bitmap_test (take (p_request_len st') (p_request st')) (p_request_base st') (of_nat i) \<longleftrightarrow> i \<in> set chosen"
    if "i < n" for i
  proof (cases "b \<le> i")
    case False
    then have "\<not> f \<le> of_nat i" using that n32 by (simp add: word_le_nat_alt unat_of_nat_u32 b)
    then show ?thesis using sub[of i] False by (auto simp: ss_bitmap_test_bit st')
  next
    case True
    then have fi: "f \<le> of_nat i" using that n32 by (simp add: word_le_nat_alt unat_of_nat_u32 b)
    have "unat (of_nat i - f) = i - b" using unat_sub[OF fi] that n32 by (simp add: unat_of_nat_u32 b)
    moreover have "i \<in> set chosen \<Longrightarrow> (i - b) div 8 < p_request_len st'"
      using last_max[of i] by (simp add: len div_le_mono less_Suc_eq_le)
    ultimately show ?thesis using fi True spec(3)[of "i - b"] by (auto simp: ss_bitmap_test_bit bitmap_bit_prefix st'(2,3))
  qed
  then have a: "set asked = set chosen" using sub by (auto simp: asked_def)
  have "asked = chosen"
    by (rule sorted_distinct_set_unique) (use srt a in \<open>simp_all add: asked_def sorted_wrt_filter\<close>)
  then show "asked = take (unat w) (nameable (p_bitmap st) b b n)" "b \<in> set asked" "unat (p_outstanding st') = length asked"
    using bc spec(1) st'(5) by (simp_all add: chosen_def)
  show "\<forall>i < b. bitmap_bit (p_bitmap st) i" "p_want_version st' = p_version st" using first st'(6) by (simp_all add: b)
qed

subsection \<open>Pulling from an environment that repeats one reply\<close>

lemma pull_start_request: "length (p_request (pull_start w v out bm)) = 1024"
proof -
  have "length (fold (\<lambda>i rq. ss_bitmap_set rq 0 (of_nat i)) xs rq) = length rq" for xs rq
    by (induction xs arbitrary: rq) simp_all
  then show ?thesis by (simp add: pull_start_def SS_MAX_PAYLOAD_def)
qed

lemma echoing_request:
  assumes "echoing c h p" "length (p_request st) = 1024"
  obtains c1 where "emit c ((ss_header_init SS_PULL_REQ (cl_device_id c) g s)
      \<lparr>h_card_version := p_want_version st, h_sequence := p_request_base st\<rparr>)
      (take (p_request_len st) (p_request st)) = (SS_OK, c1)" "echoing c1 h p" "follows c c1 1"
  using assms(2) by (auto intro: echoing_emit[OF assms(1), of "(ss_header_init SS_PULL_REQ (cl_device_id c) g s)
      \<lparr>h_card_version := p_want_version st, h_sequence := p_request_base st\<rparr>" "take (p_request_len st) (p_request st)"])

lemma echoing_burst:
  assumes "echoing c h p" "h_msg_type h = SS_ACK \<or> h_msg_type h = SS_PULL_CHUNK"
  obtains c1 where "echoing c1 h p" "follows c c1 0" "pull_burst c w st =
    (case pull_reply w (cl_max_rounds c) st h p of BurstEnd e \<Rightarrow> Some (e, c1) | BurstNext st1 \<Rightarrow> pull_burst c1 w st1)"
proof -
  obtain c1 where c1: "await_reply c = (Inr (h, p), c1)" "echoing c1 h p" "follows c c1 0"
    by (rule echoing_await[OF assms(1)])
  have "cl_max_rounds c1 = cl_max_rounds c" using c1(3) by (simp add: follows_def)
  then have "pull_burst c w st =
    (case pull_reply w (cl_max_rounds c) st h p of BurstEnd e \<Rightarrow> Some (e, c1) | BurstNext st1 \<Rightarrow> pull_burst c1 w st1)"
    using assms(2) by (auto simp: pull_burst.simps[of c w st] c1(1) msg_types split: burst_step.split)
  then show ?thesis using that c1(2,3) by blast
qed

text \<open>A reply the buffers have room for.\<close>

definition fits :: "ss_header \<Rightarrow> pull_state \<Rightarrow> bool" where
  "fits h st \<longleftrightarrow> h_total_size h \<noteq> 0 \<and> unat (h_total_size h) \<le> length (p_out st) \<and>
     (unat (ss_chunk_count (h_total_size h)) + 7) div 8 \<le> length (p_bitmap st)"

lemma fits_initialise:
  assumes "fits h st"
  obtains st1 where "pull_initialise w mr st h = Inr st1" "p_initialised st1" "p_total st1 = h_total_size h"
    "p_chunks st1 = ss_chunk_count (h_total_size h)" "p_out st1 = p_out st"
    "p_bitmap st1 = memset (p_bitmap st) 0 ((unat (ss_chunk_count (h_total_size h)) + 7) div 8)"
  using assms by (auto simp: fits_def pull_initialise_def Let_def)

lemma pull_burst_ack_forever:
  fixes c :: "'x ss_client"
  assumes e: "echoing c h p" and ack: "h_msg_type h = SS_ACK" and st: "p_initialised st \<or> fits h st"
  shows "pull_burst c w st = None"
proof -
  define P where "P = (\<lambda>(c :: 'x ss_client) (w :: u32) st (y :: burst_end \<times> 'x ss_client).
    \<not> (echoing c h p \<and> (p_initialised st \<or> fits h st)))"
  have step: "\<exists>st1. pull_reply w mr st h p = BurstNext st1 \<and> p_initialised st1" if "p_initialised st \<or> fits h st" for w mr st
  proof (cases "p_initialised st")
    case True
    then show ?thesis using ack by (simp add: pull_reply_def msg_types)
  next
    case False
    then have "fits h st" using that by blast
    then obtain st1 where "pull_initialise w mr st h = Inr st1" "p_initialised st1"
      by (rule fits_initialise[of h st w mr])
    then show ?thesis using ack False by (simp add: pull_reply_def msg_types)
  qed
  have "False" if "pull_burst c w st = Some y" for y
  proof -
    have "P c w st y"
      using that
    proof (rule pull_burst.raw_induct[rotated])
      fix self :: "'x ss_client \<Rightarrow> u32 \<Rightarrow> pull_state \<Rightarrow> (burst_end \<times> 'x ss_client) option"
      fix c :: "'x ss_client" and w st y
      assume ih: "\<And>c w st y. self c w st = Some y \<Longrightarrow> P c w st y"
      assume eq: "(let (r, c) = await_reply c
        in case r of
             Inl rc \<Rightarrow> Some (if rc = SS_ERR_TIMEOUT then BurstOver st else BurstReturn rc st, c)
           | Inr (h, payload) \<Rightarrow>
               if h_msg_type h = SS_NACK then (let (rc, c) = note_nack c h payload in Some (BurstReturn rc st, c))
               else if h_msg_type h \<noteq> SS_ACK \<and> h_msg_type h \<noteq> SS_PULL_CHUNK then self c w st
               else (case pull_reply w (cl_max_rounds c) st h payload of
                       BurstEnd e \<Rightarrow> Some (e, c)
                     | BurstNext st \<Rightarrow> self c w st)) = Some y"
      show "P c w st y"
        unfolding P_def
      proof
        assume a: "echoing c h p \<and> (p_initialised st \<or> fits h st)"
        obtain c1 where c1: "await_reply c = (Inr (h, p), c1)" "echoing c1 h p"
          using a by (auto elim: echoing_await)
        obtain st1 where st1: "pull_reply w (cl_max_rounds c1) st h p = BurstNext st1" "p_initialised st1"
          using step a by blast
        have "self c1 w st1 = Some y" using eq ack by (simp add: c1(1) st1(1) msg_types)
        from ih[OF this] show False using c1(2) st1(2) by (simp add: P_def)
      qed
    qed
    then show False using e st by (simp add: P_def)
  qed
  then show ?thesis by (cases "pull_burst c w st") auto
qed

subsection \<open>Properties\<close>

text \<open>
  C5: whatever the network loses, repeats, delays or reorders, if every authentic reply the client can receive is
  faithful to one card \<open>img\<close> at one version, a pull never writes outside the caller's buffer, and when it reports success the
  size and version it returns are that card's and the buffer holds the card.
\<close>

theorem pull_faithful:
  assumes "replies c (faithful_reply img ver)" "length img + 1023 < 2 ^ 32"
    and "ss_pull c g s want out bm = Some (e, c')"
  shows "case e of Fault \<Rightarrow> False
    | PullEnd rc r out' bm' \<Rightarrow> rc = SS_OK \<longrightarrow> r = Some (of_nat (length img), ver) \<and> take (length img) out' = img"
proof -
  have "pull_inv img ver (pull_start w want out bm)" for w by (simp add: pull_inv_def pull_start_def)
  then show ?thesis
    using pull_rounds_faithful[OF _ assms(1) _ assms(2)] assms(3) unfolding ss_pull_def Let_def by blast
qed

text \<open>The reply the witnesses look at: a three-byte card in one chunk.\<close>

definition example_chunk :: ss_header where
  "example_chunk = (ss_header_init SS_PULL_CHUNK 7 (ascii ''GALE01'') 0)
     \<lparr>h_card_version := 5, h_total_size := 3, h_length := 3\<rparr>"

lemma example_chunk_echo: "echoing (echo_client example_chunk [1, 2, 3]) example_chunk [1, 2, 3]"
  by (rule echoing_echo_client) (simp_all add: example_chunk_def wf_header_def ss_header_init_def SS_NONCE_SIZE_def)

lemma echo_replies: "echoing (echo_client h p) h p \<Longrightarrow> P h p \<Longrightarrow> replies (echo_client h p) P"
  by (auto simp: echoing_def replies_def echo_client_fields net_transport_def net_recv_def)

lemma example_chunk_faithful: "replies (echo_client example_chunk [1, 2, 3]) (faithful_reply [1, 2, 3] 5)"
  by (rule echo_replies[OF example_chunk_echo])
    (simp add: faithful_reply_def example_chunk_def ss_header_init_def bytes_at_def)

text \<open>That pull, run: one request, one chunk, done.\<close>

lemma example_pull_step:
  "(case pull_reply 32 8 (pull_start 32 0 [0, 0, 0] [0]) example_chunk [1, 2, 3] of
      BurstEnd (BurstOver st) \<Rightarrow> p_out st = [1, 2, 3] \<and> p_total st = 3 \<and> p_version st = 5 \<and>
        pull_next_round 32 8 st = RoundDone
    | _ \<Rightarrow> False)"
  by code_simp

lemma example_pull:
  "\<exists>bm' c'. ss_pull (echo_client example_chunk [1, 2, 3]) g s 0 [0, 0, 0] [0] =
     Some (PullEnd SS_OK (Some (3, 5)) [1, 2, 3] bm', c')"
proof -
  let ?c = "echo_client example_chunk [1, 2, 3]" and ?st = "pull_start 32 0 [0, 0, 0] [0]"
  obtain st where st: "pull_reply 32 8 ?st example_chunk [1, 2, 3] = BurstEnd (BurstOver st)" "p_out st = [1, 2, 3]"
    "p_total st = 3" "p_version st = 5" "pull_next_round 32 8 st = RoundDone"
    using example_pull_step by (auto split: burst_step.splits burst_end.splits)
  obtain c1 where c1: "emit ?c ((ss_header_init SS_PULL_REQ (cl_device_id ?c) g s)
      \<lparr>h_card_version := p_want_version ?st, h_sequence := p_request_base ?st\<rparr>)
      (take (p_request_len ?st) (p_request ?st)) = (SS_OK, c1)" "echoing c1 example_chunk [1, 2, 3]" "follows ?c c1 1"
    by (rule echoing_request[OF example_chunk_echo pull_start_request])
  have chunk: "h_msg_type example_chunk = SS_ACK \<or> h_msg_type example_chunk = SS_PULL_CHUNK"
    by (simp add: example_chunk_def ss_header_init_def)
  have mr: "cl_max_rounds c1 = 8" using c1(3) by (simp add: follows_def echo_client_fields)
  obtain c2 where c2: "follows c1 c2 0" "pull_burst c1 32 ?st = Some (BurstOver st, c2)"
    using echoing_burst[OF c1(2) chunk, of 32 ?st] st(1) mr by (metis burst_step.case(1))
  have w: "pull_window_of (cl_pull_window ?c) = 32"
    by (simp add: pull_window_of_def echo_client_fields SS_MAX_PAYLOAD_def)
  have "ss_pull ?c g s 0 [0, 0, 0] [0] = pull_rounds ?c g s 32 ?st" by (simp only: ss_pull_def Let_def w)
  also have "\<dots> = Some (PullEnd SS_OK (Some (3, 5)) [1, 2, 3] (p_bitmap st), c2)"
    using st c2 mr by (simp add: pull_rounds.simps[of ?c g s 32 ?st] c1(1) follows_def)
  finally show ?thesis by blast
qed

theorem pull_faithful_witness:
  "\<exists>bm' c'. ss_pull (echo_client example_chunk [1, 2, 3]) (ascii ''GALE01'') 0 0 [0, 0, 0] [0] =
     Some (PullEnd SS_OK (Some (3, 5)) [1, 2, 3] bm', c') \<and> take 3 [1, 2, 3] = [1, 2, 3 :: byte]"
proof -
  obtain bm' c' where r: "ss_pull (echo_client example_chunk [1, 2, 3]) (ascii ''GALE01'') 0 0 [0, 0, 0] [0] =
     Some (PullEnd SS_OK (Some (3, 5)) [1, 2, 3] bm', c')" using example_pull[of "ascii ''GALE01''" 0] by blast
  from pull_faithful[OF example_chunk_faithful _ r] r show ?thesis by auto
qed

text \<open>
  C24: however the environment behaves, as long as it delivers only finitely many datagrams in a row between two of the
  client's sends, a pull returns (or faults): the stall count before the card's size is known and the round budget after bound its
  rounds.
\<close>

theorem pull_returns:
  assumes "transport c = net_transport accepts (capped b delivers) es" "0 < cl_max_rounds c" "cl_max_rounds c < 2 ^ 31"
  shows "\<exists>e c'. ss_pull c g s want out bm = Some (e, c')"
proof -
  have "capped.receives b delivers c" using assms(1) by (simp add: capped.receives_def net_transport_def)
  then show ?thesis
    using capped.pull_rounds_returns[OF _ _ assms(2,3)] unfolding ss_pull_def Let_def
    by (auto simp: budgeted_def pull_start_def)
qed

theorem pull_returns_witness:
  "\<exists>e c'. ss_pull (ss_client_init (net_transport (\<lambda>_ _. True) (capped 3 (\<lambda>_. RecvData [])) [])
     (ascii ''key'') 7 None) (ascii ''GALE01'') 0 0 [0, 0, 0] [0] = Some (e, c')"
  by (rule pull_returns) (simp_all add: ss_client_init_def)

text \<open>
  Once the size is known, the next request names exactly the first \<open>window\<close> chunks still missing (of those
  within one bitmap's reach of the first gap, where it starts), in \<open>request_len\<close> bytes; what is waited for is what
  was asked for, at least one chunk; and the version is pinned to the one being read.
\<close>

lemma pull_window_exact:
  assumes "pull_next_round w mr st = RoundNext st'" "p_initialised st" "0 < w"
  defines "b \<equiv> unat (p_request_base st')" and "n \<equiv> unat (p_chunks st)"
  defines "asked \<equiv> filter (\<lambda>i. ss_bitmap_test (take (p_request_len st') (p_request st')) (p_request_base st') (of_nat i)) [0..<n]"
  shows "asked = take (unat w) (filter (\<lambda>i. \<not> bitmap_bit (p_bitmap st) i \<and> i < b + 8192) [b..<n]) \<and>
    (\<forall>i < b. bitmap_bit (p_bitmap st) i) \<and> b \<in> set asked \<and> unat (p_outstanding st') = length asked \<and>
    p_want_version st' = p_version st"
  using next_request[OF assms(1-3)] unfolding nameable_def b_def n_def asked_def by blast

text \<open>
  The round budget does not cover the burst loop: against a server that answers every receive with an ACK
  whose size fits the buffers, \<open>ss_pull\<close> never returns.
\<close>

lemma pull_held_forever:
  assumes "echoing c h p" "h_msg_type h = SS_ACK" "h_total_size h \<noteq> 0" "unat (h_total_size h) \<le> length out"
    and "(unat (ss_chunk_count (h_total_size h)) + 7) div 8 \<le> length bm"
  shows "ss_pull c g s want out bm = None"
proof -
  let ?st = "pull_start (pull_window_of (cl_pull_window c)) want out bm"
  have f: "fits h ?st" using assms(3-5) by (simp add: fits_def pull_start_def)
  obtain c1 where c1: "emit c ((ss_header_init SS_PULL_REQ (cl_device_id c) g s)
      \<lparr>h_card_version := p_want_version ?st, h_sequence := p_request_base ?st\<rparr>)
      (take (p_request_len ?st) (p_request ?st)) = (SS_OK, c1)" "echoing c1 h p"
    by (rule echoing_request[OF assms(1) pull_start_request])
  show ?thesis
    using pull_burst_ack_forever[OF c1(2) assms(2), of ?st] f c1(1)
    by (simp add: ss_pull_def Let_def pull_rounds.simps[of c g s _ ?st])
qed

text \<open>
  C31: the bounds check on a chunk adds its offset and length in 32 bits. A chunk near the top of the
  address range whose sum wraps passes it, and the copy is made outside the caller's buffer.
\<close>

theorem pull_offset_overflow:
  assumes "echoing c h p" "h_msg_type h = SS_PULL_CHUNK" "h_total_size h \<noteq> 0" "unat (h_total_size h) \<le> length out"
    and "(unat (ss_chunk_count (h_total_size h)) + 7) div 8 \<le> length bm"
    and "h_sequence h < ss_chunk_count (h_total_size h)"
    and "2 ^ 32 \<le> unat (h_offset h) + length p" "h_offset h + of_nat (length p) \<le> h_total_size h" "length out < 2 ^ 32"
  shows "\<exists>c'. ss_pull c g s want out bm = Some (Fault, c')"
proof -
  let ?w = "pull_window_of (cl_pull_window c)"
  let ?st = "pull_start ?w want out bm"
  have f: "fits h ?st" using assms(3-5) by (simp add: fits_def pull_start_def)
  obtain c1 where c1: "emit c ((ss_header_init SS_PULL_REQ (cl_device_id c) g s)
      \<lparr>h_card_version := p_want_version ?st, h_sequence := p_request_base ?st\<rparr>)
      (take (p_request_len ?st) (p_request ?st)) = (SS_OK, c1)" "echoing c1 h p"
    by (rule echoing_request[OF assms(1) pull_start_request])
  obtain st1 where st1: "pull_initialise ?w (cl_max_rounds c1) ?st h = Inr st1" "p_total st1 = h_total_size h"
    "p_out st1 = p_out ?st"
    "p_bitmap st1 = memset (p_bitmap ?st) 0 ((unat (ss_chunk_count (h_total_size h)) + 7) div 8)"
    by (rule fits_initialise[OF f])
  have out: "p_out ?st = out" "p_bitmap ?st = bm" by (simp_all add: pull_start_def)
  have "unat (h_sequence h) < 8 * ((unat (ss_chunk_count (h_total_size h)) + 7) div 8)"
    using assms(6) by (simp add: word_less_nat_alt)
  then have new: "\<not> ss_bitmap_test (p_bitmap st1) 0 (h_sequence h)"
    using assms(5) by (simp add: ss_bitmap_test_bit st1(4) out bitmap_bit_memset0)
  have "pull_chunk st1 h p = BurstEnd BurstFault"
    using new assms(7-9) by (simp add: pull_chunk_def st1(2,3) out not_less)
  then have "pull_reply ?w (cl_max_rounds c1) ?st h p = BurstEnd BurstFault"
    using st1(1) assms(2) by (simp add: pull_reply_def) (simp add: pull_start_def)
  moreover obtain c2 where "pull_burst c1 ?w ?st =
    (case pull_reply ?w (cl_max_rounds c1) ?st h p of BurstEnd e \<Rightarrow> Some (e, c2) | BurstNext st1 \<Rightarrow> pull_burst c2 ?w st1)"
    using assms(2) by (blast intro: echoing_burst[OF c1(2), of ?w ?st])
  ultimately show ?thesis using c1(1)
    by (simp add: ss_pull_def Let_def pull_rounds.simps[of c g s _ ?st])
qed

theorem pull_offset_overflow_witness:
  "\<exists>h c'. ss_pull (echo_client h (replicate 1024 0)) (ascii ''GALE01'') 0 0 [0, 0, 0] [0] = Some (Fault, c')"
proof -
  define h where "h = (ss_header_init SS_PULL_CHUNK 7 (ascii ''GALE01'') 0)
    \<lparr>h_card_version := 5, h_total_size := 3, h_offset := 0xFFFFFC00, h_length := 1024\<rparr>"
  have "echoing (echo_client h (replicate 1024 0)) h (replicate 1024 0)"
    by (rule echoing_echo_client) (simp_all add: h_def wf_header_def ss_header_init_def SS_NONCE_SIZE_def)
  from pull_offset_overflow[OF this, of "[0, 0, 0]" "[0]" "ascii ''GALE01''" 0 0] show ?thesis
    by (simp add: h_def ss_header_init_def ss_chunk_count_def SS_MAX_PAYLOAD_def) blast
qed

end
