(* ===== verification/SS_Drc.thy ===== *)
theory SS_Drc
  imports SS_Wire
begin

text \<open>
  \<open>wii/source/wii_drc.c\<close>: the Wii U GamePad, whose state IOS keeps in memory. The statics of the file are one record; what
  \<open>DCInvalidateRange\<close> makes visible is the memory given to each call.
\<close>

definition WIIDRC_BUTTON_A :: u32 where "WIIDRC_BUTTON_A = 0x8000"
definition WIIDRC_BUTTON_B :: u32 where "WIIDRC_BUTTON_B = 0x4000"
definition WIIDRC_BUTTON_HOME :: u32 where "WIIDRC_BUTTON_HOME = 0x0002"

type_synonym mem = "u32 \<Rightarrow> byte"

definition word_at :: "mem \<Rightarrow> u32 \<Rightarrow> u32" where
  "word_at m a = ss_get_u32 [m a, m (a + 1), m (a + 2), m (a + 3)]"

record WiiDRCStat =
  xAxisLmid :: u16
  xAxisRmid :: u16
  yAxisLmid :: u16
  yAxisRmid :: u16

record WiiDRCData =
  xAxisL :: u16
  xAxisR :: u16
  yAxisL :: u16
  yAxisR :: u16
  d_button :: u16
  d_battery :: byte
  d_extra :: byte

record WiiDRCButtons =
  b_up :: u32
  b_down :: u32
  b_state :: u32

record drc =
  Status :: WiiDRCStat
  PadData :: WiiDRCData
  PadButtons :: WiiDRCButtons
  ShutdownRequested :: bool
  Inited :: bool
  I2CBuf :: "u32 option"
  DRCStateBuf :: "u32 option"

definition drc_at_start :: drc where
  "drc_at_start =
     \<lparr>Status = \<lparr>xAxisLmid = 0, xAxisRmid = 0, yAxisLmid = 0, yAxisRmid = 0\<rparr>,
      PadData = \<lparr>xAxisL = 0, xAxisR = 0, yAxisL = 0, yAxisR = 0, d_button = 0, d_battery = 0, d_extra = 0\<rparr>,
      PadButtons = \<lparr>b_up = 0, b_down = 0, b_state = 0\<rparr>, ShutdownRequested = False, Inited = False,
      I2CBuf = None, DRCStateBuf = None\<rparr>"

definition WiiDRC_SetI2CBuf :: "mem \<Rightarrow> drc \<Rightarrow> bool \<times> drc" where
  "WiiDRC_SetI2CBuf m D =
     (if word_at m 0x938B2964 = 0x138BB004 then (True, D\<lparr>I2CBuf := Some 0x938BB004\<rparr>)
      else if word_at m 0x938B2564 = 0x138BB004 then (True, D\<lparr>I2CBuf := Some 0x938BB004\<rparr>)
      else if word_at m 0x938B2564 = 0x138BA004 then (True, D\<lparr>I2CBuf := Some 0x938BA004\<rparr>)
      else (False, D))"

definition WiiDRC_SetDRCStateBuf :: "mem \<Rightarrow> drc \<Rightarrow> bool \<times> drc" where
  "WiiDRC_SetDRCStateBuf m D =
     (if word_at m 0x938B563C = 0x138BE770 then (True, D\<lparr>DRCStateBuf := Some 0x938BE770\<rparr>)
      else if word_at m 0x938B5724 = 0x138BD770 then (True, D\<lparr>DRCStateBuf := Some 0x938BD770\<rparr>)
      else (False, D))"

text \<open>Byte \<open>i\<close> of the buffer the pointer names, and a stick's position: a byte around 0x80, as a signed 16-bit number.\<close>

definition i2c :: "mem \<Rightarrow> drc \<Rightarrow> nat \<Rightarrow> byte" where
  "i2c m D i = (case I2CBuf D of None \<Rightarrow> 0 | Some a \<Rightarrow> m (a + of_nat i))"

definition axis :: "byte \<Rightarrow> u16" where
  "axis b = scast (b - 0x80)"

definition WiiDRC_Recalibrate :: "mem \<Rightarrow> drc \<Rightarrow> bool \<times> drc" where
  "WiiDRC_Recalibrate m D =
     (if \<not> Inited D then (False, D)
      else (True, D\<lparr>Status := \<lparr>xAxisLmid = axis (i2c m D 4), xAxisRmid = axis (i2c m D 6),
                                yAxisLmid = axis (i2c m D 5), yAxisRmid = axis (i2c m D 7)\<rparr>\<rparr>))"

definition WiiDRC_Init :: "mem \<Rightarrow> drc \<Rightarrow> bool \<times> drc" where
  "WiiDRC_Init m D =
     (if Inited D then (False, D)
      else let (found, D) = WiiDRC_SetI2CBuf m D
           in if \<not> found then (False, D)
              else let (_, D) = WiiDRC_SetDRCStateBuf m D;
                       (_, D) = WiiDRC_Recalibrate m (D\<lparr>Inited := True\<rparr>)
                   in (True, D\<lparr>PadData := PadData drc_at_start, PadButtons := PadButtons drc_at_start, ShutdownRequested := False\<rparr>))"

definition WiiDRC_ScanPads :: "mem \<Rightarrow> drc \<Rightarrow> bool \<times> drc" where
  "WiiDRC_ScanPads m D =
     (if \<not> Inited D then (False, D)
      else let st = Status D;
               newstate = push_bit 8 (ucast (i2c m D 2)) OR ucast (i2c m D 3) :: u16;
               oldstate = ucast (b_state (PadButtons D)) :: u16
           in (True, D\<lparr>ShutdownRequested := (i2c m D 1 AND 0x80 \<noteq> 0),
                PadData := \<lparr>xAxisL = axis (i2c m D 4) - xAxisLmid st, xAxisR = axis (i2c m D 6) - xAxisRmid st,
                            yAxisL = axis (i2c m D 5) - yAxisLmid st, yAxisR = axis (i2c m D 7) - yAxisRmid st,
                            d_button = newstate, d_battery = drop_bit 1 (i2c m D 8) AND 7, d_extra = i2c m D 8\<rparr>,
                PadButtons := \<lparr>b_up = ucast (oldstate AND NOT newstate), b_down = ucast (newstate AND (newstate XOR oldstate)),
                               b_state = ucast newstate\<rparr>\<rparr>))"

definition WiiDRC_Connected :: "mem \<Rightarrow> drc \<Rightarrow> bool" where
  "WiiDRC_Connected m D = (case DRCStateBuf D of None \<Rightarrow> True | Some a \<Rightarrow> word_at m a \<noteq> 0)"

definition WiiDRC_ButtonsDown :: "drc \<Rightarrow> u32" where "WiiDRC_ButtonsDown D = b_down (PadButtons D)"
definition WiiDRC_ButtonsUp :: "drc \<Rightarrow> u32" where "WiiDRC_ButtonsUp D = b_up (PadButtons D)"
definition WiiDRC_ButtonsHeld :: "drc \<Rightarrow> u32" where "WiiDRC_ButtonsHeld D = b_state (PadButtons D)"

text \<open>The rest gives what is there; a stick is a signed number in 16 bits.\<close>

definition WiiDRC_Inited :: "drc \<Rightarrow> bool" where "WiiDRC_Inited D = Inited D"
definition WiiDRC_ShutdownRequested :: "drc \<Rightarrow> bool" where "WiiDRC_ShutdownRequested D = ShutdownRequested D"
definition WiiDRC_GetRawI2CAddr :: "drc \<Rightarrow> u32 option" where "WiiDRC_GetRawI2CAddr D = I2CBuf D"
definition WiiDRC_Data :: "drc \<Rightarrow> WiiDRCData" where "WiiDRC_Data D = PadData D"
definition WiiDRC_lStickX :: "drc \<Rightarrow> int" where "WiiDRC_lStickX D = sint (xAxisL (PadData D))"
definition WiiDRC_lStickY :: "drc \<Rightarrow> int" where "WiiDRC_lStickY D = sint (yAxisL (PadData D))"
definition WiiDRC_rStickX :: "drc \<Rightarrow> int" where "WiiDRC_rStickX D = sint (xAxisR (PadData D))"
definition WiiDRC_rStickY :: "drc \<Rightarrow> int" where "WiiDRC_rStickY D = sint (yAxisR (PadData D))"

subsection \<open>Lemmas\<close>

text \<open>The word of buttons IOS holds.\<close>

definition buttons_at :: "mem \<Rightarrow> u32 \<Rightarrow> u16" where
  "buttons_at m a = push_bit 8 (ucast (m (a + 2))) OR ucast (m (a + 3))"

text \<open>A pad that is up: the buffer is one of the known two, and the held buttons fit 16 bits.\<close>

definition pad_up :: "drc \<Rightarrow> bool" where
  "pad_up D \<longleftrightarrow> Inited D \<and> I2CBuf D \<in> {Some 0x938BB004, Some 0x938BA004} \<and> drop_bit 16 (b_state (PadButtons D)) = 0"

lemma high_half: "drop_bit 16 (ucast (x :: u16) :: u32) = 0"
  by (rule bit_word_eqI) (auto simp: bit_simps dest: bit_imp_le_length)

text \<open>A scan reports as down what is held now and was not at the scan before, as up what was and is not.\<close>

lemma scan_edges:
  assumes "pad_up D" "I2CBuf D = Some a" "WiiDRC_ScanPads m D = (ok, D')"
  shows "ok" "pad_up D'" "I2CBuf D' = I2CBuf D" "DRCStateBuf D' = DRCStateBuf D" "WiiDRC_ButtonsHeld D' = ucast (buttons_at m a)"
    "bit (WiiDRC_ButtonsDown D') n \<longleftrightarrow> bit (buttons_at m a) n \<and> \<not> bit (WiiDRC_ButtonsHeld D) n"
    "bit (WiiDRC_ButtonsUp D') n \<longleftrightarrow> \<not> bit (buttons_at m a) n \<and> bit (WiiDRC_ButtonsHeld D) n"
proof -
  have old: "bit (b_state (PadButtons D)) n \<Longrightarrow> n < 16" for n
  proof (rule ccontr)
    assume "bit (b_state (PadButtons D)) n" "\<not> n < 16"
    then have "bit (drop_bit 16 (b_state (PadButtons D))) (n - 16)" by (simp add: bit_drop_bit_eq)
    then show False using assms(1) by (simp add: pad_up_def)
  qed
  have new: "bit (buttons_at m a) n \<Longrightarrow> n < 16" for n using bit_imp_le_length[of "buttons_at m a" n] by simp
  show "ok" "I2CBuf D' = I2CBuf D" "DRCStateBuf D' = DRCStateBuf D" "WiiDRC_ButtonsHeld D' = ucast (buttons_at m a)"
    using assms by (auto simp: WiiDRC_ScanPads_def pad_up_def WiiDRC_ButtonsHeld_def buttons_at_def i2c_def Let_def)
  have "PadButtons D' = \<lparr>b_up = b_up (PadButtons D'), b_down = b_down (PadButtons D'), b_state = ucast (buttons_at m a)\<rparr>"
    "Inited D'" "I2CBuf D' = I2CBuf D"
    using assms by (auto simp: WiiDRC_ScanPads_def pad_up_def buttons_at_def i2c_def Let_def)
  then show "pad_up D'" using assms(1) high_half[of "buttons_at m a"] by (simp add: pad_up_def) (metis WiiDRCButtons.select_convs(3))
  let ?old = "ucast (WiiDRC_ButtonsHeld D) :: u16"
  have e: "WiiDRC_ButtonsDown D' = ucast (buttons_at m a AND (buttons_at m a XOR ?old))"
    "WiiDRC_ButtonsUp D' = ucast (?old AND NOT (buttons_at m a))"
    using assms by (auto simp: WiiDRC_ScanPads_def pad_up_def WiiDRC_ButtonsDown_def WiiDRC_ButtonsUp_def WiiDRC_ButtonsHeld_def
        buttons_at_def i2c_def Let_def)
  show "bit (WiiDRC_ButtonsDown D') n \<longleftrightarrow> bit (buttons_at m a) n \<and> \<not> bit (WiiDRC_ButtonsHeld D) n"
    "bit (WiiDRC_ButtonsUp D') n \<longleftrightarrow> \<not> bit (buttons_at m a) n \<and> bit (WiiDRC_ButtonsHeld D) n"
    using old[of n] new[of n] unfolding e by (auto simp: bit_and_iff bit_xor_iff bit_not_iff bit_unsigned_iff WiiDRC_ButtonsHeld_def)
qed

text \<open>On a console without the GamePad's memory nothing is set up, and nothing is read.\<close>

lemma no_pad:
  assumes "word_at m 0x938B2964 \<noteq> 0x138BB004" "word_at m 0x938B2564 \<notin> {0x138BB004, 0x138BA004}"
  shows "WiiDRC_Init m drc_at_start = (False, drc_at_start)"
  using assms by (simp add: WiiDRC_Init_def WiiDRC_SetI2CBuf_def drc_at_start_def)

lemma init_pad:
  assumes "WiiDRC_Init m drc_at_start = (True, D)"
  shows "pad_up D" "WiiDRC_ButtonsHeld D = 0"
  using assms
  by (auto simp: WiiDRC_Init_def WiiDRC_SetI2CBuf_def WiiDRC_SetDRCStateBuf_def WiiDRC_Recalibrate_def drc_at_start_def pad_up_def
      WiiDRC_ButtonsHeld_def Let_def split: if_splits prod.splits)

end
