(* ===== verification/SS_Sync.thy ===== *)
theory SS_Sync
  imports SS_FpFiles SS_Config SS_Pull SS_Drc
begin

text \<open>
  The launcher's \<open>wii/source/main.c\<close>: the buttons and the question asked on a conflict, the synchronisation of one card and of all
  of them. Its state is the client, the table of cards, the SD card and the four buffers \<open>sync_all\<close> allocates. What it
  prints is left out.
\<close>

definition CARD_BUFFER_BYTES :: nat where "CARD_BUFFER_BYTES = 16 * 1024 * 1024"
definition BITMAP_BYTES :: nat where "BITMAP_BYTES = 2048"
definition FP_ENTRIES :: nat where "FP_ENTRIES = CARD_BUFFER_BYTES div unat SS_FP_BLOCK_SIZE"

subsection \<open>Buttons\<close>

definition BTN_A :: u32 where "BTN_A = 1"
definition BTN_B :: u32 where "BTN_B = 2"
definition BTN_EXIT :: u32 where "BTN_EXIT = 4"

text \<open>The button masks are libogc's. What one scan sees: memory, which has the GamePad, and each channel's new buttons.\<close>

record masks =
  m_wii_a :: u32
  m_wii_b :: u32
  m_wii_home :: u32
  m_gcn_a :: u16
  m_gcn_b :: u16
  m_gcn_start :: u16

record pads =
  pad_mem :: mem
  pad_wii :: "nat \<Rightarrow> u32"
  pad_gcn :: "nat \<Rightarrow> u16"

definition press :: "bool \<Rightarrow> u32 \<Rightarrow> u32 \<Rightarrow> u32" where
  "press down btn out = (if down then out OR btn else out)"

definition buttons_down :: "masks \<Rightarrow> pads \<Rightarrow> drc \<Rightarrow> u32 \<times> drc" where
  "buttons_down M pads D =
     (let out = 0;
          (out, D) = (if WiiDRC_Inited D \<and> WiiDRC_Connected (pad_mem pads) D
                      then let (_, D) = WiiDRC_ScanPads (pad_mem pads) D;
                               drc = WiiDRC_ButtonsDown D
                           in (press (drc AND WIIDRC_BUTTON_HOME \<noteq> 0) BTN_EXIT
                                 (press (drc AND WIIDRC_BUTTON_B \<noteq> 0) BTN_B
                                   (press (drc AND WIIDRC_BUTTON_A \<noteq> 0) BTN_A out)), D)
                      else (out, D))
      in (fold (\<lambda>chan out.
                  let wii = pad_wii pads chan; gcn = pad_gcn pads chan
                  in press (wii AND m_wii_home M \<noteq> 0 \<or> gcn AND m_gcn_start M \<noteq> 0) BTN_EXIT
                       (press (wii AND m_wii_b M \<noteq> 0 \<or> gcn AND m_gcn_b M \<noteq> 0) BTN_B
                         (press (wii AND m_wii_a M \<noteq> 0 \<or> gcn AND m_gcn_a M \<noteq> 0) BTN_A out)))
            [0..<4] out, D))"

text \<open>
  The console: what the \<open>n\<close>th scan sees, and the milliseconds between two scans, as the \<open>int\<close> the program makes of the timer.
\<close>

record console =
  cn_masks :: masks
  cn_pads :: "nat \<Rightarrow> pads"
  cn_elapsed :: "nat \<Rightarrow> nat \<Rightarrow> int"

datatype answer = Ans_A | Ans_B | Ans_exit

text \<open>Division in C rounds towards zero.\<close>

definition c_div :: "int \<Rightarrow> int \<Rightarrow> int" where
  "c_div a b = (if 0 \<le> a then a div b else - (- a div b))"

text \<open>The loop, at scan \<open>n\<close> of a question first asked at scan \<open>start\<close>; the answer, the next scan and the GamePad.\<close>

partial_function (option) ask_loop :: "console \<Rightarrow> int \<Rightarrow> nat \<Rightarrow> nat \<Rightarrow> drc \<Rightarrow> (answer \<times> nat \<times> drc) option" where
  "ask_loop C timeout_ms start n D =
     (let (pressed, D) = buttons_down (cn_masks C) (cn_pads C n) D
      in if pressed AND BTN_A \<noteq> 0 then Some (Ans_A, n + 1, D)
         else if pressed AND BTN_B \<noteq> 0 then Some (Ans_B, n + 1, D)
         else if pressed AND BTN_EXIT \<noteq> 0 then Some (Ans_exit, n + 1, D)
         else if 0 < timeout_ms \<and> c_div (timeout_ms - cn_elapsed C start n + 999) 1000 \<le> 0 then Some (Ans_B, n + 1, D)
         else ask_loop C timeout_ms start (n + 1) D)"

definition ask_a_or_b :: "console \<Rightarrow> int \<Rightarrow> nat \<Rightarrow> drc \<Rightarrow> (answer \<times> nat \<times> drc) option" where
  "ask_a_or_b C timeout_ms n D = ask_loop C timeout_ms n n D"

text \<open>\<open>True\<close>: A was pressed. \<open>False\<close>: the program left for the loader.\<close>

partial_function (option) wait_for_button :: "console \<Rightarrow> nat \<Rightarrow> drc \<Rightarrow> (bool \<times> nat \<times> drc) option" where
  "wait_for_button C n D =
     (let (pressed, D) = buttons_down (cn_masks C) (cn_pads C n) D
      in if pressed AND BTN_A \<noteq> 0 then Some (True, n + 1, D)
         else if pressed AND BTN_EXIT \<noteq> 0 then Some (False, n + 1, D)
         else wait_for_button C (n + 1) D)"

subsection \<open>One card\<close>

record 'x launcher =
  la_client :: "'x ss_client"
  la_cards :: "wii_card_state list"
  la_fs :: fs
  la_card :: "byte list"
  la_bitmap :: "byte list"
  la_fp :: "u32 list"
  la_dirty :: "byte list"
  la_scan :: nat
  la_drc :: drc

definition digests_match :: "byte list \<Rightarrow> byte list \<Rightarrow> bool" where
  "digests_match a b = slotsync_memequal a b SHA256_DIGEST_SIZE"

text \<open>The table and the bitmap afterwards, and the disk. \<open>img\<close> is the whole buffer, \<open>n\<close> the card's size in it.\<close>

definition save_fingerprints ::
    "byte list \<Rightarrow> byte list \<Rightarrow> u32 \<Rightarrow> u32 \<Rightarrow> byte list \<Rightarrow> u32 list \<Rightarrow> byte list \<Rightarrow> bool \<Rightarrow> fs \<Rightarrow> u32 list \<times> byte list \<times> fs" where
  "save_fingerprints game_id img n version digest fp dirty current s =
     (if n = 0 \<or> version = 0 then (fp, dirty, s)
      else let zero = replicate FP_ENTRIES 0;
               scan = (if current then Some (fp, dirty, 0) else ss_fp_scan img n zero dirty)
           in case scan of
                None \<Rightarrow> (zero, dirty, s)
              | Some (fp, dirty, marked) \<Rightarrow>
                  let rec = \<lparr>f_game_id = take WII_GAME_ID_LEN game_id, f_slot = 0, f_version = version, f_size = n,
                             f_blocks = ss_fp_blocks n, f_sha256 = take SS_FP_DIGEST_SIZE digest\<rparr>;
                      (ok, s) = wii_fp_store_put WII_FP_PATH rec fp s
                  in (fp, dirty, s))"

text \<open>How the synchronisation of a card ends: 0, -1, \<open>exit\<close>, or a write outside the card buffer.\<close>

datatype sync_end = Sync_done | Sync_failed | Sync_left | Sync_fault

text \<open>Up to the server's answer: the card's key, its size, the index of its entry, and the version the server has.\<close>

definition sync_identify ::
    "wii_config \<Rightarrow> byte list \<Rightarrow> 'x launcher \<Rightarrow> (sync_end + byte list \<times> nat \<times> nat \<times> u32) \<times> 'x launcher" where
  "sync_identify cfg stem la =
     (let (got, buf, s) = wii_saves_read (w_saves_dir cfg) stem (la_card la) (la_fs la);
          la = la\<lparr>la_card := buf, la_fs := s\<rparr>
      in case got of
           None \<Rightarrow> (Inl Sync_failed, la)
         | Some n \<Rightarrow>
             case wii_saves_game_id (la_card la) (int n) stem of
               None \<Rightarrow> (Inl Sync_done, la)
             | Some game_id \<Rightarrow>
                 case wii_state_get (la_cards la) game_id 0 of
                   (cards, None) \<Rightarrow> (Inl Sync_failed, la\<lparr>la_cards := cards\<rparr>)
                 | (cards, Some i) \<Rightarrow>
                     let (rc, head, c) = ss_head (la_client la) game_id 0;
                         la = la\<lparr>la_cards := cards, la_client := c\<rparr>
                     in if rc \<noteq> SS_OK \<and> cl_last_error_code c \<noteq> SS_NACK_UNKNOWN_CARD then (Inl Sync_failed, la)
                        else (Inr (game_id, n, i,
                                   if rc \<noteq> SS_OK then 0 else case head of None \<Rightarrow> 0 | Some (version, sz) \<Rightarrow> version), la))"

text \<open>Whether the store has a table of the image last agreed, and its scan is worth a delta.\<close>

definition sync_table :: "byte list \<Rightarrow> nat \<Rightarrow> wii_card_state \<Rightarrow> 'x launcher \<Rightarrow> bool \<times> 'x launcher" where
  "sync_table game_id n entry la =
     (let (store, s) = wii_fp_store_read WII_FP_PATH (la_fs la);
          la = la\<lparr>la_fs := s\<rparr>
      in case wii_fp_store_get store game_id 0 (la_fp la) of
           None \<Rightarrow> (False, la)
         | Some (rec, fp) \<Rightarrow>
             let la = la\<lparr>la_fp := fp\<rparr>
             in if \<not> wii_fp_usable rec (k_version entry) (of_nat n) (k_sha256 entry) then (False, la)
                else case ss_fp_scan (la_card la) (of_nat n) fp (la_dirty la) of
                       None \<Rightarrow> (False, la)
                     | Some (fp, dirty, marked) \<Rightarrow>
                         (ss_fp_worthwhile marked (ss_chunk_count (of_nat n)), la\<lparr>la_fp := fp, la_dirty := dirty\<rparr>))"

definition agree :: "nat \<Rightarrow> u32 \<Rightarrow> byte list \<Rightarrow> 'x launcher \<Rightarrow> 'x launcher" where
  "agree i version digest la =
     la\<lparr>la_cards := (la_cards la)[i := (la_cards la ! i)\<lparr>k_version := version, k_known := True, k_sha256 := digest\<rparr>]\<rparr>"

definition keep_table :: "byte list \<Rightarrow> u32 \<Rightarrow> u32 \<Rightarrow> byte list \<Rightarrow> bool \<Rightarrow> 'x launcher \<Rightarrow> 'x launcher" where
  "keep_table game_id n version digest current la =
     (let (fp, dirty, s) = save_fingerprints game_id (la_card la) n version digest (la_fp la) (la_dirty la) current (la_fs la)
      in la\<lparr>la_fp := fp, la_dirty := dirty, la_fs := s\<rparr>)"

text \<open>The push, and what follows a conflict: the version the server then has, or the end. \<open>None\<close>: it does not return.\<close>

definition sync_push ::
    "console \<Rightarrow> wii_config \<Rightarrow> byte list \<Rightarrow> byte list \<Rightarrow> nat \<Rightarrow> nat \<Rightarrow> byte list \<Rightarrow> 'x launcher
     \<Rightarrow> ((sync_end + u32) \<times> 'x launcher) option" where
  "sync_push C cfg stem game_id n i digest la =
     (let entry = la_cards la ! i;
          (fp_ready, la) = (if k_known entry then sync_table game_id n entry la else (False, la))
      in case ss_push_delta (la_client la) game_id 0 (la_card la) (of_nat n) (k_version entry) (k_version entry + 1)
                (if fp_ready then Some (la_dirty la) else None) (la_bitmap la) of
           None \<Rightarrow> None
         | Some (rc, assigned, bitmap, c) \<Rightarrow>
             let la = la\<lparr>la_client := c, la_bitmap := bitmap\<rparr>
             in if rc = SS_ERR_CONFLICT
                then case ask_a_or_b C (w_conflict_timeout_ms cfg) (la_scan la) (la_drc la) of
                       None \<Rightarrow> None
                     | Some (answer, scan, drc) \<Rightarrow>
                         let la = la\<lparr>la_scan := scan, la_drc := drc\<rparr>
                         in case answer of
                              Ans_exit \<Rightarrow> Some (Inl Sync_left, la)
                            | Ans_B \<Rightarrow> Some (Inl Sync_failed, la)
                            | Ans_A \<Rightarrow>
                                let (ok, s) = wii_saves_backup (w_saves_dir cfg) stem (take n (la_card la)) (la_fs la);
                                    la = la\<lparr>la_fs := s\<rparr>
                                in if \<not> ok then Some (Inl Sync_failed, la) else Some (Inr (cl_last_head c), la)
                else if rc \<noteq> SS_OK then Some (Inl Sync_failed, la)
                else let version = (case assigned of None \<Rightarrow> 0 | Some v \<Rightarrow> v)
                     in Some (Inr version,
                          keep_table game_id (of_nat n) version digest fp_ready (agree i version digest la)))"

definition sync_pull ::
    "wii_config \<Rightarrow> byte list \<Rightarrow> byte list \<Rightarrow> nat \<Rightarrow> u32 \<Rightarrow> 'x launcher \<Rightarrow> (sync_end \<times> 'x launcher) option" where
  "sync_pull cfg stem game_id i server_version la =
     (if \<not> k_version (la_cards la ! i) < server_version then Some (Sync_done, la)
      else case ss_pull (la_client la) game_id 0 0 (la_card la) (la_bitmap la) of
             None \<Rightarrow> None
           | Some (Fault, c) \<Rightarrow> Some (Sync_fault, la\<lparr>la_client := c\<rparr>)
           | Some (PullEnd rc got img bitmap, c) \<Rightarrow>
               let la = la\<lparr>la_client := c, la_card := img, la_bitmap := bitmap\<rparr>
               in case got of
                    None \<Rightarrow> Some (Sync_failed, la)
                  | Some (got_size, got_version) \<Rightarrow>
                      if rc \<noteq> SS_OK then Some (Sync_failed, la)
                      else let data = take (unat got_size) img;
                               (ok, s) = wii_saves_write (w_saves_dir cfg) stem data (la_fs la);
                               la = la\<lparr>la_fs := s\<rparr>
                           in if \<not> ok then Some (Sync_failed, la)
                              else let digest = sha256 data
                                   in Some (Sync_done,
                                        keep_table game_id got_size got_version digest False (agree i got_version digest la)))"

definition sync_one :: "console \<Rightarrow> wii_config \<Rightarrow> byte list \<Rightarrow> 'x launcher \<Rightarrow> (sync_end \<times> 'x launcher) option" where
  "sync_one C cfg stem la =
     (case sync_identify cfg stem la of
        (Inl e, la) \<Rightarrow> Some (e, la)
      | (Inr (game_id, n, i, server_version), la) \<Rightarrow>
          let digest = sha256 (take n (la_card la));
              entry = la_cards la ! i
          in if k_known entry \<and> digests_match digest (k_sha256 entry)
             then sync_pull cfg stem game_id i server_version la
             else case sync_push C cfg stem game_id n i digest la of
                    None \<Rightarrow> None
                  | Some (Inl e, la) \<Rightarrow> Some (e, la)
                  | Some (Inr server_version, la) \<Rightarrow> sync_pull cfg stem game_id i server_version la)"

subsection \<open>Which files each stage touches\<close>

text \<open>The files of one card.\<close>

abbreviation card_file :: "wii_config \<Rightarrow> byte list \<Rightarrow> byte list" where
  "card_file cfg stem \<equiv> card_path (w_saves_dir cfg) stem ''''"

abbreviation temp_file :: "wii_config \<Rightarrow> byte list \<Rightarrow> byte list" where
  "temp_file cfg stem \<equiv> card_path (w_saves_dir cfg) stem ''.tmp''"

abbreviation bak_file :: "wii_config \<Rightarrow> byte list \<Rightarrow> byte list" where
  "bak_file cfg stem \<equiv> card_path (w_saves_dir cfg) stem ''.bak''"

abbreviation table_files :: "byte list set" where
  "table_files \<equiv> {WII_FP_PATH, WII_FP_PATH @ ascii ''.tmp''}"

lemma paths_apart:
  assumes "length (w_saves_dir cfg) + length stem \<le> 240"
  shows "card_file cfg stem \<notin> table_files" "bak_file cfg stem \<notin> table_files" "card_file cfg stem \<noteq> bak_file cfg stem"
    "temp_file cfg stem \<noteq> card_file cfg stem" "temp_file cfg stem \<noteq> bak_file cfg stem"
proof -
  have ne: "a \<noteq> b" if "rev a \<noteq> rev b" for a b :: "byte list" using that by auto
  show "card_file cfg stem \<notin> table_files" "bak_file cfg stem \<notin> table_files" "card_file cfg stem \<noteq> bak_file cfg stem"
    "temp_file cfg stem \<noteq> card_file cfg stem" "temp_file cfg stem \<noteq> bak_file cfg stem"
    using assms by (auto simp: card_path_def WII_FP_PATH_def ascii_def dest!: arg_cong[of _ _ rev])
qed

lemma save_fingerprints_only:
  assumes "save_fingerprints g img n v d fp dirty current s = (fp', dirty', s')"
  shows "only table_files s s'"
  using assms fp_put_only
  by (auto simp: save_fingerprints_def Let_def split: if_splits option.splits prod.splits)

lemma keep_table_fields [simp]:
  "la_cards (keep_table g n v d current la) = la_cards la" "la_client (keep_table g n v d current la) = la_client la"
  "la_card (keep_table g n v d current la) = la_card la" "la_bitmap (keep_table g n v d current la) = la_bitmap la"
  "la_scan (keep_table g n v d current la) = la_scan la" "la_drc (keep_table g n v d current la) = la_drc la"
  by (simp_all add: keep_table_def split: prod.split)

lemma keep_table_only: "only table_files (la_fs la) (la_fs (keep_table g n v d current la))"
  using save_fingerprints_only by (fastforce simp: keep_table_def split: prod.split)

lemma agree_fields [simp]:
  "la_client (agree i v d la) = la_client la" "la_card (agree i v d la) = la_card la" "la_fs (agree i v d la) = la_fs la"
  "la_bitmap (agree i v d la) = la_bitmap la" "la_fp (agree i v d la) = la_fp la" "la_dirty (agree i v d la) = la_dirty la"
  "la_scan (agree i v d la) = la_scan la" "la_drc (agree i v d la) = la_drc la"
  by (simp_all add: agree_def)

lemma sync_table_keeps:
  assumes "sync_table g n entry la = (ready, la')"
  shows "only {} (la_fs la) (la_fs la')" "la_cards la' = la_cards la" "la_card la' = la_card la" "la_client la' = la_client la"
    "la_bitmap la' = la_bitmap la" "la_scan la' = la_scan la"
proof -
  obtain store s where r: "wii_fp_store_read WII_FP_PATH (la_fs la) = (store, s)" by fastforce
  have "only {} (la_fs la) s" by (rule fp_read_through(1)[OF r]) simp
  then show "only {} (la_fs la) (la_fs la')" "la_cards la' = la_cards la" "la_card la' = la_card la" "la_client la' = la_client la"
    "la_bitmap la' = la_bitmap la" "la_scan la' = la_scan la"
    using assms by (auto simp: sync_table_def r Let_def split: option.splits prod.splits if_splits)
qed

text \<open>Identifying a card: nothing is written, the card is in the buffer, and its entry is an old one or a blank one.\<close>

lemma sync_identify_keeps:
  assumes "sync_identify cfg stem la = (r, la')"
  shows "only {} (la_fs la) (la_fs la')" "fs_disk (la_fs la') = fs_disk (la_fs la)"
    "length (la_card la') = length (la_card la)" "\<exists>new. la_cards la' = la_cards la @ new \<and> (\<forall>c \<in> set new. \<not> k_known c)"
    "wf_state (la_cards la) \<Longrightarrow> wf_state (la_cards la')"
    "r = Inr (g, n, i, v) \<Longrightarrow> i < length (la_cards la') \<and> k_game_id (la_cards la' ! i) = g \<and> k_slot (la_cards la' ! i) = 0 \<and>
       (\<exists>f. fs_disk (la_fs la) (card_file cfg stem) = Some f \<and> n = length f \<and> f \<noteq> [] \<and> n \<le> length (la_card la) \<and> take n (la_card la') = f)"
proof -
  obtain got buf s where r: "wii_saves_read (w_saves_dir cfg) stem (la_card la) (la_fs la) = (got, buf, s)" by (metis prod_cases3)
  note rd = saves_read_only[OF r] saves_read_found[OF r]
  have key: "length g2 \<le> 6" if "wii_saves_game_id buf (int n) stem = Some g2" "n \<le> length buf" for g2 n
  proof -
    have "unat (of_nat n :: u32) \<le> length buf" using that(2) by (simp add: unat_of_nat take_bit_eq_mod order_trans[OF mod_less_eq_dividend])
    then show ?thesis
      using that(1) length_ss_card_game_id[of "of_nat n" buf stem]
      by (auto simp: wii_saves_game_id_def WII_GAME_ID_LEN_def split: if_splits prod.splits)
  qed
  have "only {} (la_fs la) (la_fs la') \<and> fs_disk (la_fs la') = fs_disk (la_fs la) \<and> length (la_card la') = length (la_card la) \<and>
    (\<exists>new. la_cards la' = la_cards la @ new \<and> (\<forall>c \<in> set new. \<not> k_known c)) \<and> (wf_state (la_cards la) \<longrightarrow> wf_state (la_cards la')) \<and>
    (\<forall>g n i v. r = Inr (g, n, i, v) \<longrightarrow> i < length (la_cards la') \<and> k_game_id (la_cards la' ! i) = g \<and> k_slot (la_cards la' ! i) = 0 \<and>
       (\<exists>f. fs_disk (la_fs la) (card_file cfg stem) = Some f \<and> n = length f \<and> f \<noteq> [] \<and> n \<le> length (la_card la) \<and> take n (la_card la') = f))"
  proof (cases "\<exists>n g2. got = Some n \<and> wii_saves_game_id buf (int n) stem = Some g2")
    case False
    then show ?thesis using assms rd by (auto simp: sync_identify_def r Let_def split: option.splits)
  next
    case True
    then obtain n g2 where n: "got = Some n" "wii_saves_game_id buf (int n) stem = Some g2" by blast
    obtain cards at where get: "wii_state_get (la_cards la) g2 0 = (cards, at)" by fastforce
    have c: "\<exists>new. cards = la_cards la @ new \<and> (\<forall>c \<in> set new. \<not> k_known c)" "wf_state (la_cards la) \<longrightarrow> wf_state cards"
      "\<forall>i. at = Some i \<longrightarrow> i < length cards \<and> k_game_id (cards ! i) = g2 \<and> k_slot (cards ! i) = 0"
    proof -
      have g2: "length g2 \<le> 6" using key[OF n(2)] rd(3) rd(4)[of n] n(1) by simp
      show "\<exists>new. cards = la_cards la @ new \<and> (\<forall>c \<in> set new. \<not> k_known c)"
        using get by (auto simp: wii_state_get_def split: option.splits if_splits)
      show "wf_state (la_cards la) \<longrightarrow> wf_state cards" using wii_state_get_wf[OF _ g2, of "la_cards la" 0] get by simp
      show "\<forall>i. at = Some i \<longrightarrow> i < length cards \<and> k_game_id (cards ! i) = g2 \<and> k_slot (cards ! i) = 0"
        using wii_state_get_found[OF _ g2] get by blast
    qed
    obtain rc head c2 where h: "ss_head (la_client la) g2 0 = (rc, head, c2)" by (metis prod_cases3)
    show ?thesis
      using assms rd c n by (auto simp: sync_identify_def r get h Let_def split: option.splits if_splits)
  qed
  then show "only {} (la_fs la) (la_fs la')" "fs_disk (la_fs la') = fs_disk (la_fs la)"
    "length (la_card la') = length (la_card la)" "\<exists>new. la_cards la' = la_cards la @ new \<and> (\<forall>c \<in> set new. \<not> k_known c)"
    "wf_state (la_cards la) \<Longrightarrow> wf_state (la_cards la')"
    "r = Inr (g, n, i, v) \<Longrightarrow> i < length (la_cards la') \<and> k_game_id (la_cards la' ! i) = g \<and> k_slot (la_cards la' ! i) = 0 \<and>
       (\<exists>f. fs_disk (la_fs la) (card_file cfg stem) = Some f \<and> n = length f \<and> f \<noteq> [] \<and> n \<le> length (la_card la) \<and> take n (la_card la') = f)"
    by blast+
qed

text \<open>The push stage: how it ends, and what it has written by then.\<close>

lemma sync_push_ends:
  assumes "sync_push C cfg stem g n i digest la = Some (r, la')" "reliable C_close (la_fs la)"
  shows "only (insert (bak_file cfg stem) table_files) (la_fs la) (la_fs la')"
    "r = Inl e \<Longrightarrow> la_cards la' = la_cards la"
    "r = Inr v \<Longrightarrow>
       la_cards la' = la_cards la \<and> fs_disk (la_fs la') (bak_file cfg stem) = Some (take n (la_card la)) \<or>
       la_cards la' = (la_cards la)[i := (la_cards la ! i)\<lparr>k_version := v, k_known := True, k_sha256 := digest\<rparr>] \<and>
         only table_files (la_fs la) (la_fs la')"
proof -
  let ?bak = "bak_file cfg stem" and ?e = "la_cards la ! i"
  let ?ps = "insert ?bak table_files"
  obtain ready la1 where t: "(if k_known ?e then sync_table g n ?e la else (False, la)) = (ready, la1)" by fastforce
  then have k: "only {} (la_fs la) (la_fs la1)" "la_cards la1 = la_cards la" "la_card la1 = la_card la"
    using sync_table_keeps[of g n ?e la ready la1] by (auto split: if_splits)
  have rel: "reliable C_close (la_fs la1)" using assms(2) through_reliable[OF k(1)] by simp
  obtain rc assigned bitmap c where p: "ss_push_delta (la_client la1) g 0 (la_card la1) (of_nat n) (k_version ?e) (k_version ?e + 1)
      (if ready then Some (la_dirty la1) else None) (la_bitmap la1) = Some (rc, assigned, bitmap, c)"
    using assms(1) by (auto simp: sync_push_def t Let_def split: option.splits)
  let ?la2 = "la1\<lparr>la_client := c, la_bitmap := bitmap\<rparr>"
  have "only ?ps (la_fs la) (la_fs la') \<and> (\<forall>e. r = Inl e \<longrightarrow> la_cards la' = la_cards la) \<and> (\<forall>v. r = Inr v \<longrightarrow>
       la_cards la' = la_cards la \<and> fs_disk (la_fs la') ?bak = Some (take n (la_card la)) \<or>
       la_cards la' = (la_cards la)[i := ?e\<lparr>k_version := v, k_known := True, k_sha256 := digest\<rparr>] \<and>
         only table_files (la_fs la) (la_fs la'))"
  proof (cases "rc = SS_ERR_CONFLICT")
    case True
    obtain answer scan drc where a: "ask_a_or_b C (w_conflict_timeout_ms cfg) (la_scan la1) (la_drc la1) = Some (answer, scan, drc)"
      using assms(1) by (auto simp: sync_push_def t p True Let_def split: option.splits)
    obtain ok s where b: "wii_saves_backup (w_saves_dir cfg) stem (take n (la_card la1)) (la_fs la1) = (ok, s)" by fastforce
    have bk: "only ?ps (la_fs la) s" "ok \<Longrightarrow> fs_disk s ?bak = Some (take n (la_card la))"
      using only_trans[OF only_mono[OF k(1)] saves_backup_only[OF b]] saves_backup_through(2)[OF b refl rel] k(3) by auto
    have "(r, la') = (case answer of Ans_exit \<Rightarrow> (Inl Sync_left, ?la2\<lparr>la_scan := scan, la_drc := drc\<rparr>) | Ans_B \<Rightarrow> (Inl Sync_failed, ?la2\<lparr>la_scan := scan, la_drc := drc\<rparr>)
        | Ans_A \<Rightarrow> if \<not> ok then (Inl Sync_failed, ?la2\<lparr>la_scan := scan, la_drc := drc, la_fs := s\<rparr>) else (Inr (cl_last_head c), ?la2\<lparr>la_scan := scan, la_drc := drc, la_fs := s\<rparr>))"
      using assms(1) by (cases answer) (simp_all add: sync_push_def t p True a b Let_def split: if_splits)
    then show ?thesis using k bk only_mono[OF k(1), of ?ps] by (auto split: answer.splits if_splits)
  next
    case False
    let ?v = "case assigned of None \<Rightarrow> 0 | Some v \<Rightarrow> v"
    let ?la3 = "keep_table g (of_nat n) ?v digest ready (agree i ?v digest ?la2)"
    have "(r, la') = (if rc \<noteq> SS_OK then (Inl Sync_failed, ?la2) else (Inr ?v, ?la3))"
      using assms(1) False by (simp add: sync_push_def t p Let_def split: if_splits)
    moreover have "only table_files (la_fs la) (la_fs ?la3)"
      using only_trans[OF only_mono[OF k(1), of table_files], of "la_fs ?la3"]
        keep_table_only[of "agree i ?v digest ?la2" g "of_nat n" ?v digest ready] by simp
    ultimately show ?thesis
      using k only_mono[OF k(1), of ?ps] only_mono[of table_files "la_fs la" "la_fs la'" ?ps]
      by (auto simp: agree_def split: if_splits)
  qed
  then show "only ?ps (la_fs la) (la_fs la')" "r = Inl e \<Longrightarrow> la_cards la' = la_cards la"
    "r = Inr v \<Longrightarrow>
       la_cards la' = la_cards la \<and> fs_disk (la_fs la') ?bak = Some (take n (la_card la)) \<or>
       la_cards la' = (la_cards la)[i := ?e\<lparr>k_version := v, k_known := True, k_sha256 := digest\<rparr>] \<and>
         only table_files (la_fs la) (la_fs la')" by blast+
qed

lemma sync_pull_ends:
  assumes "sync_pull cfg stem g i v la = Some (e, la')"
  shows "only ({temp_file cfg stem, card_file cfg stem} \<union> table_files) (la_fs la) (la_fs la')"
    "\<not> k_version (la_cards la ! i) < v \<Longrightarrow> la' = la"
    "length (w_saves_dir cfg) + length stem \<le> 240 \<Longrightarrow> reliable C_close (la_fs la) \<Longrightarrow> reliable C_rename (la_fs la) \<Longrightarrow>
       la_cards la' = la_cards la \<or>
       (\<exists>version data. la_cards la' = (la_cards la)[i := (la_cards la ! i)\<lparr>k_version := version, k_known := True, k_sha256 := sha256 data\<rparr>] \<and>
          fs_disk (la_fs la') (card_file cfg stem) = Some data)"
proof -
  let ?ps = "{temp_file cfg stem, card_file cfg stem} \<union> table_files"
  have "only ?ps (la_fs la) (la_fs la') \<and> (\<not> k_version (la_cards la ! i) < v \<longrightarrow> la' = la) \<and>
    (length (w_saves_dir cfg) + length stem \<le> 240 \<and> reliable C_close (la_fs la) \<and> reliable C_rename (la_fs la) \<longrightarrow>
       la_cards la' = la_cards la \<or>
       (\<exists>version data. la_cards la' = (la_cards la)[i := (la_cards la ! i)\<lparr>k_version := version, k_known := True, k_sha256 := sha256 data\<rparr>] \<and>
          fs_disk (la_fs la') (card_file cfg stem) = Some data))"
  proof (cases "\<exists>rc sz ver img bm c. k_version (la_cards la ! i) < v \<and> rc = SS_OK \<and>
      ss_pull (la_client la) g 0 0 (la_card la) (la_bitmap la) = Some (PullEnd rc (Some (sz, ver)) img bm, c)")
    case False
    then have "la_fs la' = la_fs la \<and> la_cards la' = la_cards la \<and> (\<not> k_version (la_cards la ! i) < v \<longrightarrow> la' = la)"
      using assms by (auto simp: sync_pull_def Let_def split: if_splits option.splits pull_end.splits prod.splits)
    then show ?thesis by simp
  next
    case True
    then obtain sz ver img bm c where v: "k_version (la_cards la ! i) < v"
      and p: "ss_pull (la_client la) g 0 0 (la_card la) (la_bitmap la) = Some (PullEnd SS_OK (Some (sz, ver)) img bm, c)" by blast
    let ?data = "take (unat sz) img"
    let ?la2 = "la\<lparr>la_client := c, la_card := img, la_bitmap := bm\<rparr>"
    obtain ok s where w: "wii_saves_write (w_saves_dir cfg) stem ?data (la_fs la) = (ok, s)" by fastforce
    have o: "only ?ps (la_fs la) s" by (rule saves_write_only[OF w]) simp_all
    let ?la3 = "keep_table g sz ver (sha256 ?data) False (agree i ver (sha256 ?data) (?la2\<lparr>la_fs := s\<rparr>))"
    have la': "la' = (if ok then ?la3 else ?la2\<lparr>la_fs := s\<rparr>)"
      using assms v by (simp add: sync_pull_def p w Let_def split: if_splits)
    have t: "only table_files s (la_fs ?la3)"
      using keep_table_only[of "agree i ver (sha256 ?data) (?la2\<lparr>la_fs := s\<rparr>)" g sz ver "sha256 ?data" False] by simp
    then have o3: "only ?ps (la_fs la) (la_fs ?la3)" by (intro only_trans[OF o] only_mono[OF t]) auto
    have "fs_disk (la_fs ?la3) (card_file cfg stem) = Some ?data"
      if "length (w_saves_dir cfg) + length stem \<le> 240" "reliable C_close (la_fs la)" "reliable C_rename (la_fs la)" ok
    proof -
      note pa = paths_apart[OF that(1)]
      have "fs_disk s (card_file cfg stem) = Some ?data"
        using saves_write_through(2)[OF w refl refl pa(4) that(2-4)] pa(4) by simp
      then show ?thesis using only_other[OF t pa(1)] by simp
    qed
    then show ?thesis using la' v o o3 by (auto simp: agree_def)
  qed
  then show "only ?ps (la_fs la) (la_fs la')" "\<not> k_version (la_cards la ! i) < v \<Longrightarrow> la' = la"
    "length (w_saves_dir cfg) + length stem \<le> 240 \<Longrightarrow> reliable C_close (la_fs la) \<Longrightarrow> reliable C_rename (la_fs la) \<Longrightarrow>
       la_cards la' = la_cards la \<or>
       (\<exists>version data. la_cards la' = (la_cards la)[i := (la_cards la ! i)\<lparr>k_version := version, k_known := True, k_sha256 := sha256 data\<rparr>] \<and>
          fs_disk (la_fs la') (card_file cfg stem) = Some data)" by blast+
qed

end
