(* ===== verification/SS_Handoff.thy ===== *)
theory SS_Handoff
  imports SS_RunClaims SS_Sync
begin

text \<open>
  What launcher and kernel module tell each other through the SD card: the versions and tables the module hands over when it flushes
  its handoff, which the launcher merges; and the tables of the launcher, which the module takes up.
\<close>

subsection \<open>A volume\<close>

text \<open>
  What the module relies on from FatFs while nothing fails: a created file is empty, a write appends, opening gives the
  contents, and none of it changes the size of a card image.
\<close>

locale fat_volume =
  fixes P :: "'x platform" and files :: "'x \<Rightarrow> string \<Rightarrow> byte list option" and sound :: "'x \<Rightarrow> bool"
  assumes created: "sound x \<Longrightarrow> fat_create P p x = (ok, x') \<Longrightarrow> ok \<and> sound x' \<and> files x' = (files x)(p \<mapsto> [])"
    and written: "sound x \<Longrightarrow> files x p = Some d \<Longrightarrow>
      sound (fat_write P p data x) \<and> files (fat_write P p data x) = (files x)(p \<mapsto> d @ data)"
    and opened: "sound x \<Longrightarrow> fat_open P p x = map_option (\<lambda>d. \<lparr>ff_size = length d, ff_bytes = d\<rparr>) (files x p)"
    and sizes: "card_size P i (snd (fat_create P p x)) = card_size P i x" "card_size P i (fat_write P p data x) = card_size P i x"

text \<open>The launcher's SD card as the module's volume; card images keep their sizes while a game runs.\<close>

definition sd_path :: "string \<Rightarrow> byte list" where
  "sd_path p = ascii (''sd:'' @ p)"

definition on_sd :: "(nat \<Rightarrow> u32) \<Rightarrow> fs platform \<Rightarrow> fs platform" where
  "on_sd size_of P =
     P\<lparr>fat_open := (\<lambda>p s. map_option (\<lambda>d. \<lparr>ff_size = length d, ff_bytes = d\<rparr>) (fs_disk s (sd_path p))),
       fat_create := (\<lambda>p s. open_write (sd_path p) s), fat_write := (\<lambda>p data s. snd (fwrite (sd_path p) data s)),
       card_size := (\<lambda>i s. size_of i)\<rparr>"

lemma sd_path_eq: "sd_path p = sd_path q \<longleftrightarrow> p = q"
proof -
  have u: "unat (of_char c :: byte) = of_char c" for c
    using of_char_mod_256[of c, where ?'a = nat] unat_of_nat[of "of_char c", where ?'a = 8] of_nat_of_char[of c, where ?'a = "8 word"]
    by simp
  have "inj (\<lambda>c. of_char c :: byte)" by (rule injI) (metis u of_char_eq_iff)
  then show ?thesis by (simp add: sd_path_def ascii_def inj_map_eq_map)
qed

interpretation sdvol: fat_volume "on_sd size_of P" "\<lambda>s p. fs_disk s (sd_path p)" "\<lambda>s. \<forall>c. reliable c s" for size_of P
proof
  fix s s' :: fs and p ok
  assume rel: "\<forall>c. reliable c s" and "fat_create (on_sd size_of P) p s = (ok, s')"
  then have o: "open_write (sd_path p) s = (ok, s')" by (simp add: on_sd_def)
  note t = open_write_through[where Q = "\<lambda>_. True", OF o TrueI TrueI]
  show "ok \<and> (\<forall>c. reliable c s') \<and> (\<lambda>p. fs_disk s' (sd_path p)) = (\<lambda>p. fs_disk s (sd_path p))(p \<mapsto> [])"
    using t rel through_reliable[OF t(1)] by (auto simp: fun_eq_iff sd_path_eq)
next
  fix s :: fs and p d data
  assume rel: "\<forall>c. reliable c s" and f: "fs_disk s (sd_path p) = Some d"
  obtain n s' where w: "fwrite (sd_path p) data s = (n, s')" by fastforce
  note t = fwrite_through[where Q = "\<lambda>_. True", OF w f TrueI]
  show "(\<forall>c. reliable c (fat_write (on_sd size_of P) p data s)) \<and>
      (\<lambda>q. fs_disk (fat_write (on_sd size_of P) p data s) (sd_path q)) = (\<lambda>q. fs_disk s (sd_path q))(p \<mapsto> d @ data)"
    using t rel through_reliable[OF t(1)] w by (auto simp: on_sd_def fun_eq_iff sd_path_eq)
qed (simp_all add: on_sd_def)

subsection \<open>The files the module leaves\<close>

text \<open>The text of the versions file, and the records of the tables file with their tables.\<close>

definition pushed_slots :: "ss_slot list \<Rightarrow> nat list" where
  "pushed_slots slots = filter (\<lambda>i. s_pushed_any (slots ! i)) [0..<length slots]"

definition slot_line :: "ss_slot list \<Rightarrow> nat \<Rightarrow> byte list" where
  "slot_line slots i = handoff_line (s_game_id (slots ! i)) i (s_parent (slots ! i))"

definition handing :: "'x platform \<Rightarrow> 'x kernel \<Rightarrow> nat \<Rightarrow> bool" where
  "handing P k i \<longleftrightarrow> s_pushed_any (kn_slots k ! i) \<and> s_fp_valid (kn_slots k ! i) \<and> card_size P i (kn_world k) \<noteq> 0"

definition handed_entry :: "'x platform \<Rightarrow> 'x kernel \<Rightarrow> nat \<Rightarrow> ss_fp_record \<times> u32 list" where
  "handed_entry P k i =
     (let s = kn_slots k ! i; n = card_size P i (kn_world k)
      in (\<lparr>f_game_id = s_game_id s, f_slot = of_nat i, f_version = s_parent s, f_size = n, f_blocks = ss_fp_blocks n,
           f_sha256 = s_parent_sha s\<rparr>,
          take (unat (ss_fp_blocks n)) (drop (i * ss_fp_share k) (kn_fingerprints k))))"

definition handed_entries :: "'x platform \<Rightarrow> 'x kernel \<Rightarrow> (ss_fp_record \<times> u32 list) list" where
  "handed_entries P k = map (handed_entry P k) (filter (handing P k) [0..<length (kn_slots k)])"

lemma sslog_fields [simp]:
  "kn_world (sslog P fmt args k) = kn_world k" "kn_slots (sslog P fmt args k) = kn_slots k"
  "kn_fingerprints (sslog P fmt args k) = kn_fingerprints k" "kn_handoff_pending (sslog P fmt args k) = kn_handoff_pending k"
  by (simp_all add: sslog_def SlotSync_Log_def Let_def)

text \<open>The kernel later on: the same slots, tables and card sizes.\<close>

definition steady :: "'x platform \<Rightarrow> 'x kernel \<Rightarrow> 'x kernel \<Rightarrow> bool" where
  "steady P k k' \<longleftrightarrow> kn_slots k' = kn_slots k \<and> kn_fingerprints k' = kn_fingerprints k \<and>
     (\<forall>i. card_size P i (kn_world k') = card_size P i (kn_world k))"

lemma steady_refl [simp]: "steady P k k"
  by (simp add: steady_def)

lemma steady_trans: "steady P k1 k2 \<Longrightarrow> steady P k2 k3 \<Longrightarrow> steady P k1 k3"
  by (simp add: steady_def)

lemma steady_same:
  assumes "steady P k k'"
  shows "handing P k' = handing P k" "handed_entry P k' = handed_entry P k" "handed_entries P k' = handed_entries P k"
proof -
  show 1: "handing P k' = handing P k" "handed_entry P k' = handed_entry P k"
    using assms by (simp_all add: steady_def handing_def handed_entry_def ss_fp_share_def fun_eq_iff)
  show "handed_entries P k' = handed_entries P k" using assms by (simp add: 1 handed_entries_def steady_def)
qed

context fat_volume
begin

text \<open>What a stage of the flush does: the files change as given, everything else stays.\<close>

definition leaves :: "'x kernel \<Rightarrow> (string \<Rightarrow> byte list option) \<Rightarrow> 'x kernel \<Rightarrow> bool" where
  "leaves k d k' \<longleftrightarrow> sound (kn_world k') \<and> files (kn_world k') = d \<and> steady P k k'"

lemma leaves_trans: "leaves k d k1 \<Longrightarrow> leaves k1 e k2 \<Longrightarrow> leaves k e k2"
  by (auto simp: leaves_def intro: steady_trans)

lemma leaves_create:
  assumes "sound (kn_world k)" "outside (fat_create P p) k = (ok, k')"
  shows "ok" "leaves k ((files (kn_world k))(p \<mapsto> [])) k'"
proof -
  obtain x' where c: "fat_create P p (kn_world k) = (ok, x')" and k': "k' = k\<lparr>kn_world := x'\<rparr>"
    using assms(2) by (auto simp: outside_def split: prod.splits)
  show "ok" using created[OF assms(1) c] by simp
  show "leaves k ((files (kn_world k))(p \<mapsto> [])) k'"
    using created[OF assms(1) c] sizes(1)[of _ p "kn_world k"] by (simp add: leaves_def steady_def k' c)
qed

lemma leaves_write:
  assumes "sound (kn_world k)" "files (kn_world k) p = Some d"
  shows "leaves k ((files (kn_world k))(p \<mapsto> d @ data)) (k\<lparr>kn_world := fat_write P p data (kn_world k)\<rparr>)"
  using written[OF assms] sizes(2) by (simp add: leaves_def steady_def)

lemma handoff_lines:
  assumes "sound (kn_world k)" "files (kn_world k) SS_HANDOFF_PATH = Some d"
  shows "leaves k ((files (kn_world k))(SS_HANDOFF_PATH \<mapsto> d @ concat (map (slot_line (kn_slots k)) (filter (\<lambda>i. s_pushed_any (kn_slots k ! i)) is))))
    (fold (\<lambda>i k. let s = kn_slots k ! i
        in if \<not> s_pushed_any s then k
           else k\<lparr>kn_world := fat_write P SS_HANDOFF_PATH (handoff_line (s_game_id s) i (s_parent s)) (kn_world k)\<rparr>) is k)"
  using assms
proof (induction "is" arbitrary: k d)
  case Nil
  then show ?case by (simp add: leaves_def fun_upd_idem)
next
  case (Cons i "is")
  show ?case
  proof (cases "s_pushed_any (kn_slots k ! i)")
    case False
    then show ?thesis using Cons by simp
  next
    case True
    let ?k = "k\<lparr>kn_world := fat_write P SS_HANDOFF_PATH (slot_line (kn_slots k) i) (kn_world k)\<rparr>"
    note w = leaves_write[OF Cons.prems, of "slot_line (kn_slots k) i"]
    have f: "sound (kn_world ?k)" "files (kn_world ?k) = (files (kn_world k))(SS_HANDOFF_PATH \<mapsto> d @ slot_line (kn_slots k) i)"
      using w by (simp_all add: leaves_def)
    have "files (kn_world ?k) SS_HANDOFF_PATH = Some (d @ slot_line (kn_slots k) i)" unfolding f(2) by simp
    note IH = Cons.IH[OF f(1) this, unfolded f(2) fun_upd_upd]
    show ?thesis using leaves_trans[OF w IH] True by (simp add: Let_def flip: slot_line_def)
  qed
qed

lemma write_handoff_file:
  assumes "sound (kn_world k)"
  shows "leaves k (if list_ex s_pushed_any (kn_slots k)
    then (files (kn_world k))(SS_HANDOFF_PATH \<mapsto> concat (map (slot_line (kn_slots k)) (pushed_slots (kn_slots k)))) else files (kn_world k))
    (ss_write_handoff P k)"
proof (cases "list_ex s_pushed_any (kn_slots k)")
  case True
  obtain ok k1 where c: "outside (fat_create P SS_HANDOFF_PATH) k = (ok, k1)" by fastforce
  note l = leaves_create[OF assms c]
  have s: "kn_slots k1 = kn_slots k" "sound (kn_world k1)" "files (kn_world k1) = (files (kn_world k))(SS_HANDOFF_PATH \<mapsto> [])"
    using l(2) by (simp_all add: leaves_def steady_def)
  have h: "leaves k1 ((files (kn_world k))(SS_HANDOFF_PATH \<mapsto> concat (map (slot_line (kn_slots k)) (pushed_slots (kn_slots k)))))
      (sslog P ''SlotSync: wrote %s'' [LStr (ascii SS_HANDOFF_PATH)] (fold (\<lambda>i k. let s = kn_slots k ! i
        in if \<not> s_pushed_any s then k
           else k\<lparr>kn_world := fat_write P SS_HANDOFF_PATH (handoff_line (s_game_id s) i (s_parent s)) (kn_world k)\<rparr>) [0..<length (kn_slots k)] k1))"
    using handoff_lines[of k1 "[]" "[0..<length (kn_slots k)]"] s by (simp add: leaves_def steady_def pushed_slots_def)
  have "ss_write_handoff P k = sslog P ''SlotSync: wrote %s'' [LStr (ascii SS_HANDOFF_PATH)] (fold (\<lambda>i k. let s = kn_slots k ! i
        in if \<not> s_pushed_any s then k
           else k\<lparr>kn_world := fat_write P SS_HANDOFF_PATH (handoff_line (s_game_id s) i (s_parent s)) (kn_world k)\<rparr>) [0..<length (kn_slots k)] k1)"
    using True l(1) s(1) by (simp add: ss_write_handoff_def c Let_def)
  then show ?thesis using leaves_trans[OF l(2) h] True by simp
qed (use assms in \<open>simp add: ss_write_handoff_def leaves_def\<close>)

lemma write_values_file:
  assumes "sound x" "files x SS_FP_HANDOFF_PATH = Some d" "at + left \<le> length table"
  shows "sound (write_values P table at left x) \<and>
    files (write_values P table at left x) = (files x)(SS_FP_HANDOFF_PATH \<mapsto> d @ ss_fp_put_values (drop at table) left) \<and>
    card_size P i (write_values P table at left x) = card_size P i x"
  using assms
proof (induction "left" arbitrary: at x d rule: less_induct)
  case (less left)
  note 1 = less.IH less.prems
  show ?case
  proof (cases "left = 0")
    case True
    then show ?thesis using 1(2,3) by (simp add: write_values.simps ss_fp_put_values_def fun_upd_idem)
  next
    case False
    let ?n = "min left (SS_FP_SLICE div 4)" and ?v = "ss_fp_put_values (drop at table)"
    let ?x = "fat_write P SS_FP_HANDOFF_PATH (?v ?n) x"
    note w = written[OF 1(2,3), of "?v ?n"]
    have "files ?x SS_FP_HANDOFF_PATH = Some (d @ ?v ?n)" using w by simp
    then have "sound (write_values P table (at + ?n) (left - ?n) ?x) \<and>
        files (write_values P table (at + ?n) (left - ?n) ?x) =
          (files ?x)(SS_FP_HANDOFF_PATH \<mapsto> (d @ ?v ?n) @ ss_fp_put_values (drop (at + ?n) table) (left - ?n)) \<and>
        card_size P i (write_values P table (at + ?n) (left - ?n) ?x) = card_size P i ?x"
      using w 1(4) False by (intro 1(1)) (auto simp: SS_FP_SLICE_def)
    moreover have "write_values P table at left x = write_values P table (at + ?n) (left - ?n) ?x"
      using False by (subst write_values.simps) (simp add: Let_def)
    moreover have "?v left = ?v ?n @ ss_fp_put_values (drop (at + ?n) table) (left - ?n)"
      using put_values_split[of at ?n "left - ?n" table] 1(4) by simp
    ultimately show ?thesis using w sizes(2) by simp
  qed
qed

lemma fp_handoff_slot_file:
  assumes "sound (kn_world k)" "files (kn_world k) SS_FP_HANDOFF_PATH = Some d" "fp_handoff_slot P i k = Some k'"
  shows "leaves k ((files (kn_world k))(SS_FP_HANDOFF_PATH \<mapsto> d @ (if handing P k i then encode_entry (handed_entry P k i) else []))) k'"
proof (cases "handing P k i")
  case False
  then have "k' = k" using assms(3) by (auto simp: fp_handoff_slot_def handing_def Let_def split: if_splits)
  then show ?thesis using assms(1,2) False by (simp add: leaves_def fun_upd_idem)
next
  case True
  let ?r = "fst (handed_entry P k i)" and ?table = "drop (i * ss_fp_share k) (kn_fingerprints k)"
  let ?b = "unat (f_blocks ?r)" and ?x = "fat_write P SS_FP_HANDOFF_PATH (ss_fp_put_record (fst (handed_entry P k i))) (kn_world k)"
  note w = written[OF assms(1,2), of "ss_fp_put_record ?r"]
  have b: "?b \<le> length ?table" "kn_world k' = write_values P ?table 0 ?b ?x" "kn_slots k' = kn_slots k" "kn_fingerprints k' = kn_fingerprints k"
    using True assms(3) by (auto simp: fp_handoff_slot_def handing_def handed_entry_def Let_def split: if_splits)
  have e: "encode_entry (handed_entry P k i) = ss_fp_put_record ?r @ ss_fp_put_values ?table ?b"
  proof -
    have "ss_fp_put_values (take ?b ?table) (length (take ?b ?table)) = ss_fp_put_values ?table ?b"
      using b(1) by (auto simp: ss_fp_put_values_def min_absorb2 intro!: arg_cong[where f = concat] map_cong)
    then show ?thesis by (simp add: encode_entry_def handed_entry_def Let_def)
  qed
  have "files ?x SS_FP_HANDOFF_PATH = Some (d @ ss_fp_put_record ?r)" using w by simp
  from write_values_file[OF _ this, of 0 ?b ?table] show ?thesis
    using w b(1) sizes(2) True unfolding leaves_def steady_def b(2-4) e by simp
qed

lemma fp_handoff_slots_file:
  assumes "sound (kn_world k)" "files (kn_world k) SS_FP_HANDOFF_PATH = Some d" "fp_handoff_slots P is k = Some k'"
  shows "leaves k ((files (kn_world k))(SS_FP_HANDOFF_PATH \<mapsto>
    d @ concat (map (\<lambda>i. encode_entry (handed_entry P k i)) (filter (handing P k) is)))) k'"
  using assms
proof (induction "is" arbitrary: k d)
  case Nil
  then show ?case by (simp add: leaves_def fun_upd_idem)
next
  case (Cons i "is")
  obtain k1 where k1: "fp_handoff_slot P i k = Some k1" "fp_handoff_slots P is k1 = Some k'"
    using Cons.prems(3) by (auto split: option.splits)
  note l = fp_handoff_slot_file[OF Cons.prems(1,2) k1(1)]
  then have s: "sound (kn_world k1)" "files (kn_world k1) SS_FP_HANDOFF_PATH = Some (d @ (if handing P k i then encode_entry (handed_entry P k i) else []))"
    by (simp_all add: leaves_def)
  have f: "files (kn_world k1) = (files (kn_world k))(SS_FP_HANDOFF_PATH \<mapsto> d @ (if handing P k i then encode_entry (handed_entry P k i) else []))"
    and st: "steady P k k1" using l by (simp_all add: leaves_def)
  note IH = Cons.IH[OF s k1(2), unfolded f fun_upd_upd steady_same[OF st]]
  show ?case using leaves_trans[OF l IH] by (cases "handing P k i") simp_all
qed

text \<open>The flush: both files, if there is something to put into them.\<close>

lemma log_flush_file:
  assumes "sound (kn_world k)"
  shows "\<exists>d. leaves k d (ss_log_flush P k) \<and> (\<forall>q. q \<noteq> SS_LOG_PATH \<longrightarrow> d q = files (kn_world k) q)"
proof (cases "\<not> kn_log_dirty k \<or> kn_log k = []")
  case True
  then show ?thesis using assms by (auto simp: ss_log_flush_def leaves_def)
next
  case False
  let ?k = "k\<lparr>kn_log_dirty := False\<rparr>"
  obtain ok k1 where c: "outside (fat_create P SS_LOG_PATH) ?k = (ok, k1)" by fastforce
  note l = leaves_create[of ?k, OF _ c]
  have s: "ok" "leaves ?k ((files (kn_world k))(SS_LOG_PATH \<mapsto> [])) k1" using l assms by simp_all
  then have f: "sound (kn_world k1)" "files (kn_world k1) = (files (kn_world k))(SS_LOG_PATH \<mapsto> [])" by (simp_all add: leaves_def)
  have w: "leaves k1 ((files (kn_world k1))(SS_LOG_PATH \<mapsto> kn_log k1)) (k1\<lparr>kn_world := fat_write P SS_LOG_PATH (kn_log k1) (kn_world k1)\<rparr>)"
    using leaves_write[OF f(1), of SS_LOG_PATH "[]" "kn_log k1"] f(2) by simp
  have "ss_log_flush P k = k1\<lparr>kn_world := fat_write P SS_LOG_PATH (kn_log k1) (kn_world k1)\<rparr>"
    using False s(1) by (auto simp: ss_log_flush_def c)
  moreover have "leaves k ((files (kn_world k1))(SS_LOG_PATH \<mapsto> kn_log k1)) (k1\<lparr>kn_world := fat_write P SS_LOG_PATH (kn_log k1) (kn_world k1)\<rparr>)"
    using leaves_trans[OF s(2) w] by (simp add: leaves_def steady_def)
  ultimately show ?thesis using f(2) by auto
qed

lemma write_fp_handoff_file:
  assumes "sound (kn_world k)" "ss_write_fp_handoff P k = Some k'"
  defines "n \<equiv> length (filter (\<lambda>s. s_pushed_any s \<and> s_fp_valid s) (kn_slots k))"
  shows "leaves k (if n = 0 then files (kn_world k)
    else (files (kn_world k))(SS_FP_HANDOFF_PATH \<mapsto> ss_fp_put_header (of_nat n) @ concat (map encode_entry (handed_entries P k)))) k'"
proof (cases "n = 0")
  case True
  then show ?thesis using assms(1,2) by (simp add: ss_write_fp_handoff_def leaves_def n_def)
next
  case False
  obtain ok k1 where c: "outside (fat_create P SS_FP_HANDOFF_PATH) k = (ok, k1)" by fastforce
  note l1 = leaves_create[OF assms(1) c]
  then have f1: "sound (kn_world k1)" "files (kn_world k1) = (files (kn_world k))(SS_FP_HANDOFF_PATH \<mapsto> [])" by (simp_all add: leaves_def)
  let ?h = "ss_fp_put_header (of_nat n)"
  let ?k = "k1\<lparr>kn_world := fat_write P SS_FP_HANDOFF_PATH ?h (kn_world k1)\<rparr>"
  have l2: "leaves k1 ((files (kn_world k))(SS_FP_HANDOFF_PATH \<mapsto> ?h)) ?k"
    using leaves_write[OF f1(1), of SS_FP_HANDOFF_PATH "[]" ?h] f1(2) by simp
  note l = leaves_trans[OF l1(2) l2]
  then have f: "sound (kn_world ?k)" "files (kn_world ?k) = (files (kn_world k))(SS_FP_HANDOFF_PATH \<mapsto> ?h)" and st: "steady P k ?k"
    by (simp_all add: leaves_def)
  have "files (kn_world ?k) SS_FP_HANDOFF_PATH = Some ?h" unfolding f(2) by simp
  moreover have "fp_handoff_slots P [0..<length (kn_slots k)] ?k = Some k'"
    using assms(2) False l1 by (simp add: ss_write_fp_handoff_def c Let_def leaves_def steady_def n_def)
  ultimately have "leaves ?k ((files (kn_world k))(SS_FP_HANDOFF_PATH \<mapsto> ?h @ concat (map encode_entry (handed_entries P k)))) k'"
    using fp_handoff_slots_file[OF f(1), of ?h "[0..<length (kn_slots k)]" k']
    unfolding f(2) fun_upd_upd steady_same[OF st] by (simp add: handed_entries_def comp_def)
  then show ?thesis using leaves_trans[OF l] False by simp
qed

text \<open>The header counts the records, unless a slot with a valid table has no card.\<close>

lemma handed_count:
  assumes "\<forall>i < length (kn_slots k). s_pushed_any (kn_slots k ! i) \<and> s_fp_valid (kn_slots k ! i) \<longrightarrow> card_size P i (kn_world k) \<noteq> 0"
  shows "length (filter (\<lambda>s. s_pushed_any s \<and> s_fp_valid s) (kn_slots k)) = length (handed_entries P k)"
proof -
  let ?Q = "\<lambda>s. s_pushed_any s \<and> s_fp_valid s"
  have "filter ?Q (kn_slots k) = map ((!) (kn_slots k)) (filter (\<lambda>i. ?Q (kn_slots k ! i)) [0..<length (kn_slots k)])"
    using filter_map[of ?Q "(!) (kn_slots k)" "[0..<length (kn_slots k)]"] by (simp add: comp_def map_nth)
  moreover have "filter (\<lambda>i. ?Q (kn_slots k ! i)) [0..<length (kn_slots k)] = filter (handing P k) [0..<length (kn_slots k)]"
    using assms by (intro filter_cong) (auto simp: handing_def)
  ultimately show ?thesis by (simp add: handed_entries_def)
qed

text \<open>The flush: both files, if there is something to put into them.\<close>

lemma flush_handoff_files:
  assumes "sound (kn_world k)" "kn_handoff_pending k" "flush_handoff P k = Some k'"
  defines "n \<equiv> length (filter (\<lambda>s. s_pushed_any s \<and> s_fp_valid s) (kn_slots k))"
  shows "sound (kn_world k')"
    "list_ex s_pushed_any (kn_slots k) \<Longrightarrow>
      files (kn_world k') SS_HANDOFF_PATH = Some (concat (map (slot_line (kn_slots k)) (pushed_slots (kn_slots k))))"
    "n \<noteq> 0 \<Longrightarrow> files (kn_world k') SS_FP_HANDOFF_PATH = Some (ss_fp_put_header (of_nat n) @ concat (map encode_entry (handed_entries P k)))"
    "q \<notin> {SS_HANDOFF_PATH, SS_FP_HANDOFF_PATH, SS_LOG_PATH} \<Longrightarrow> files (kn_world k') q = files (kn_world k) q"
proof -
  let ?k0 = "k\<lparr>kn_handoff_pending := False\<rparr>"
  let ?k1 = "ss_write_handoff P ?k0" and ?t = "concat (map (slot_line (kn_slots k)) (pushed_slots (kn_slots k)))"
  let ?f = "ss_fp_put_header (of_nat n) @ concat (map encode_entry (handed_entries P k))"
  obtain k2 where k2: "ss_write_fp_handoff P ?k1 = Some k2" "k' = ss_log_flush P k2"
    using assms(2,3) by (auto simp: flush_handoff_def)
  have l1: "leaves ?k0 (if list_ex s_pushed_any (kn_slots k) then (files (kn_world k))(SS_HANDOFF_PATH \<mapsto> ?t) else files (kn_world k)) ?k1"
    using write_handoff_file[of ?k0] assms(1) by (cases "list_ex s_pushed_any (kn_slots k)") simp_all
  then have st: "steady P k ?k1" and s1: "sound (kn_world ?k1)" "kn_slots ?k1 = kn_slots k"
    and f1: "files (kn_world ?k1) = (if list_ex s_pushed_any (kn_slots k) then (files (kn_world k))(SS_HANDOFF_PATH \<mapsto> ?t) else files (kn_world k))"
    by (simp_all add: leaves_def steady_def)
  have l2: "leaves ?k1 (if n = 0 then files (kn_world ?k1) else (files (kn_world ?k1))(SS_FP_HANDOFF_PATH \<mapsto> ?f)) k2"
    using write_fp_handoff_file[OF s1(1) k2(1)] unfolding steady_same(3)[OF st] s1(2) n_def .
  obtain d where l3: "leaves k2 d k'" "\<And>q. q \<noteq> SS_LOG_PATH \<Longrightarrow> d q = files (kn_world k2) q"
    using log_flush_file[of k2] l2 k2(2) by (auto simp: leaves_def)
  have p: "SS_HANDOFF_PATH \<noteq> SS_LOG_PATH" "SS_FP_HANDOFF_PATH \<noteq> SS_LOG_PATH" "SS_HANDOFF_PATH \<noteq> SS_FP_HANDOFF_PATH"
    by (simp_all add: SS_HANDOFF_PATH_def SS_LOG_PATH_def SS_FP_HANDOFF_PATH_def)
  have f2: "files (kn_world k2) = (if n = 0 then files (kn_world ?k1) else (files (kn_world ?k1))(SS_FP_HANDOFF_PATH \<mapsto> ?f))"
    using l2 unfolding leaves_def by blast
  have f3: "q \<noteq> SS_LOG_PATH \<Longrightarrow> files (kn_world k') q = files (kn_world k2) q" for q using l3 by (simp add: leaves_def)
  show "sound (kn_world k')" using l3(1) by (simp add: leaves_def)
  show "list_ex s_pushed_any (kn_slots k) \<Longrightarrow> files (kn_world k') SS_HANDOFF_PATH = Some ?t"
    using f3[OF p(1)] f2 f1 p(3) by (simp split: if_splits)
  show "n \<noteq> 0 \<Longrightarrow> files (kn_world k') SS_FP_HANDOFF_PATH = Some ?f" using f3[OF p(2)] f2 by simp
  show "q \<notin> {SS_HANDOFF_PATH, SS_FP_HANDOFF_PATH, SS_LOG_PATH} \<Longrightarrow> files (kn_world k') q = files (kn_world k) q"
    using f3[of q] f2 f1 by auto
qed

end

subsection \<open>Merging the versions\<close>

lemma runtime_line_handoff:
  assumes "plain_id g" "i < 256"
  shows "runtime_line (handoff_line g i v) = Some (g, of_nat i, v)"
proof -
  have g: "\<forall>c \<in> set g. \<not> is_space c" "g \<noteq> []" "length g \<le> 6" "0 \<notin> set g" using assms(1) by (auto simp: plain_id_def)
  have d: "c \<noteq> 0" if "c \<in> set (dec n)" for c n using dec_is_digit[OF that] digit_plain by blast
  have cs: "c_string (handoff_line g i v) = g @ 0x20 # dec i @ 0x20 # dec (unat v) @ [0x0A]"
    using g(4) d by (auto simp: c_string_def handoff_line_def takeWhile_eq_all_conv)
  have 1: "scan_word 6 (g @ 0x20 # dec i @ 0x20 # dec (unat v) @ [0x0A]) = Some (g, 0x20 # dec i @ 0x20 # dec (unat v) @ [0x0A])"
    by (rule scan_word_plain(1)[OF g(1-3)]) (simp add: is_space_def)
  have 2: "scan_unsigned (0x20 # dec i @ 0x20 # dec (unat v) @ [0x0A]) = Some (of_nat i, 0x20 # dec (unat v) @ [0x0A])"
    by (rule scan_unsigned_dec) (use assms(2) in \<open>simp_all add: digit_def\<close>)
  have 3: "scan_unsigned (0x20 # dec (unat v) @ [0x0A]) = Some (v, [0x0A])"
    using scan_unsigned_dec[of "unat v" "[0x0A]"] unat_u32_lt[of v] by (simp add: digit_def)
  show ?thesis by (simp add: runtime_line_def cs 1 2 3)
qed

lemma merge_handoff_line:
  assumes "plain_id g" "i < 256"
  shows "merge_lines (handoff_line g i v @ rest) st = merge_lines rest (take_version g (of_nat i) v st)"
proof -
  let ?t = "g @ 0x20 # dec i @ 0x20 # dec (unat v)"
  have d: "c \<noteq> 0x0A" if "c \<in> set (dec n)" for c n using dec_is_digit[OF that] digit_plain[of c] by (auto simp: is_space_def)
  have "0x0A \<notin> set ?t" using assms(1) d by (auto simp: plain_id_def is_space_def)
  moreover have "length ?t + 2 \<le> 160"
    using assms length_dec[of i 3] length_dec[of "unat v" 10] unat_u32_lt[of v] by (simp add: plain_id_def)
  ultimately have "fgets 160 (?t @ 0x0A # rest) = Some (?t @ [0x0A], rest)" by (rule fgets_line)
  then have f: "fgets 160 (handoff_line g i v @ rest) = Some (handoff_line g i v, rest)" by (simp add: handoff_line_def)
  have "merge_line (handoff_line g i v) st = take_version g (of_nat i) v st"
    using merge_line_version[OF runtime_line_handoff[OF assms]] assms(2) by (simp add: unsigned_of_nat take_bit_nat_eq_self)
  then show ?thesis by (subst merge_lines.simps) (simp add: f)
qed

lemma merge_handoff_lines:
  assumes "\<forall>i \<in> set is. plain_id (s_game_id (slots ! i)) \<and> i < 256"
  shows "merge_lines (concat (map (slot_line slots) is)) st =
    fold (\<lambda>i. take_version (s_game_id (slots ! i)) (of_nat i) (s_parent (slots ! i))) is st"
  using assms
proof (induction "is" arbitrary: st)
  case Nil
  then show ?case by (simp add: merge_lines.simps fgets_def)
next
  case (Cons i "is")
  then show ?case by (simp add: slot_line_def merge_handoff_line)
qed

text \<open>The table of cards as a map: the version each card is known to have.\<close>

definition known_version :: "wii_card_state list \<Rightarrow> byte list \<times> byte \<Rightarrow> u32 option" where
  "known_version cards = map_of (map (\<lambda>c. ((k_game_id c, k_slot c), k_version c)) (filter k_known cards))"

fun newer :: "u32 option \<Rightarrow> u32 \<Rightarrow> u32" where
  "newer None v = v"
| "newer (Some u) v = max u v"

lemma known_version_iff:
  assumes "wf_state cards"
  shows "known_version cards key = Some v \<longleftrightarrow>
    (\<exists>i < length cards. k_known (cards ! i) \<and> (k_game_id (cards ! i), k_slot (cards ! i)) = key \<and> k_version (cards ! i) = v)"
proof -
  let ?f = "\<lambda>c. ((k_game_id c, k_slot c), k_version c)"
  have "distinct (map fst (map ?f (filter k_known cards)))"
    using assms by (simp add: wf_state_def comp_def distinct_map_filter)
  then have "known_version cards key = Some v \<longleftrightarrow> (key, v) \<in> set (map ?f (filter k_known cards))"
    unfolding known_version_def by (rule map_of_eq_Some_iff)
  also have "\<dots> \<longleftrightarrow> (\<exists>c \<in> set cards. k_known c \<and> (k_game_id c, k_slot c) = key \<and> k_version c = v)" by auto
  finally show ?thesis unfolding in_set_conv_nth Bex_def by blast
qed

lemma take_version_known:
  assumes "wf_state cards" "length g \<le> 6" "length cards < 64"
  shows "known_version (fst (take_version g s v (cards, m))) = (known_version cards)((g, s) \<mapsto> newer (known_version cards (g, s)) v)"
    "wf_state (fst (take_version g s v (cards, m)))" "length (fst (take_version g s v (cards, m))) \<le> length cards + 1"
proof -
  obtain cards1 r where e: "wii_state_get cards g s = (cards1, r)" by fastforce
  have w1: "wf_state cards1" using wii_state_get_wf[OF assms(1,2), of s] e by simp
  obtain i where i: "r = Some i"
    using e assms(3) by (cases r) (auto simp: wii_state_get_def WII_MAX_CARDS_def split: option.splits if_splits)
  have fi: "i < length cards1" "k_game_id (cards1 ! i) = g" "k_slot (cards1 ! i) = s"
    using wii_state_get_found[OF e[unfolded i] assms(2)] by auto
  have len: "length cards1 \<le> length cards + 1" using e by (auto simp: wii_state_get_def split: option.splits if_splits)
  have kv: "known_version cards1 = known_version cards"
    using e by (auto simp: wii_state_get_def known_version_def split: option.splits if_splits)
  let ?c = "cards1 ! i" and ?cards2 = "cards1[i := (cards1 ! i)\<lparr>k_version := v, k_known := True\<rparr>]"
  have t: "fst (take_version g s v (cards, m)) = (if k_known ?c \<and> v \<le> k_version ?c then cards1 else ?cards2)"
    by (simp add: take_version_def e i Let_def)
  have w2: "wf_state ?cards2" using w1 by (intro wf_state_update) simp_all
  show "wf_state (fst (take_version g s v (cards, m)))" using w1 w2 by (simp add: t)
  show "length (fst (take_version g s v (cards, m))) \<le> length cards + 1" using len by (simp add: t)
  have old: "known_version cards1 (g, s) = (if k_known ?c then Some (k_version ?c) else None)"
  proof (cases "k_known ?c")
    case True
    then show ?thesis using known_version_iff[OF w1, of "(g, s)" "k_version ?c"] fi by auto
  next
    case False
    have "known_version cards1 (g, s) \<noteq> Some u" for u
    proof
      assume "known_version cards1 (g, s) = Some u"
      then obtain j where j: "j < length cards1" "k_known (cards1 ! j)" "k_game_id (cards1 ! j) = g" "k_slot (cards1 ! j) = s"
        using known_version_iff[OF w1] by auto
      then have "j = i" using w1 fi by (auto simp: wf_state_def distinct_conv_nth)
      then show False using j False by simp
    qed
    then show ?thesis using False by auto
  qed
  show "known_version (fst (take_version g s v (cards, m))) = (known_version cards)((g, s) \<mapsto> newer (known_version cards (g, s)) v)"
  proof (cases "k_known ?c \<and> v \<le> k_version ?c")
    case True
    then show ?thesis using old by (simp add: t kv fun_upd_idem max_absorb1)
  next
    case False
    have n: "newer (known_version cards (g, s)) v = v" using old False unfolding kv by (auto simp: max_def)
    have other: "(k_game_id (cards1 ! j), k_slot (cards1 ! j)) \<noteq> (g, s)" if "j < length cards1" "j \<noteq> i" for j
      using w1 fi that by (auto simp: wf_state_def distinct_conv_nth)
    have "known_version ?cards2 key = Some u \<longleftrightarrow> ((known_version cards1)((g, s) \<mapsto> v)) key = Some u" for key u
    proof (cases "key = (g, s)")
      case True
      then show ?thesis using known_version_iff[OF w2, of key u] fi other by (auto simp: nth_update_at)
    next
      case False
      let ?Q = "\<lambda>c. k_known c \<and> (k_game_id c, k_slot c) = key \<and> k_version c = u"
      have "?Q (?cards2 ! j) = ?Q (cards1 ! j)" if "j < length cards1" for j
        using False fi that by (cases "j = i") auto
      then show ?thesis using known_version_iff[OF w2, of key u] known_version_iff[OF w1, of key u] False by auto
    qed
    then have "known_version ?cards2 = (known_version cards1)((g, s) \<mapsto> v)" by (intro ext) (metis not_Some_eq)
    then show ?thesis using False by (simp only: t if_False n kv)
  qed
qed

lemma fold_versions:
  assumes "wf_state cards" "distinct is" "length cards + length is \<le> 64"
    and "\<forall>i \<in> set is. plain_id (s_game_id (slots ! i)) \<and> i < 256"
    and "cards' = fst (fold (\<lambda>i. take_version (s_game_id (slots ! i)) (of_nat i) (s_parent (slots ! i))) is (cards, m))"
  shows "wf_state cards' \<and> known_version cards' (g, b) =
    (if unat b \<in> set is \<and> s_game_id (slots ! unat b) = g then Some (newer (known_version cards (g, b)) (s_parent (slots ! unat b)))
     else known_version cards (g, b))"
  using assms(1-4) unfolding assms(5)
proof (induction "is" arbitrary: cards m)
  case (Cons i "is")
  let ?g = "s_game_id (slots ! i)" and ?v = "s_parent (slots ! i)"
  obtain cards1 m1 where t: "take_version ?g (of_nat i) ?v (cards, m) = (cards1, m1)" by fastforce
  have g: "length ?g \<le> 6" "i < 256" using Cons.prems(4) by (auto simp: plain_id_def)
  have l: "length cards < 64" using Cons.prems(3) by simp
  note k = take_version_known[OF Cons.prems(1) g(1) l, of "of_nat i" ?v m, unfolded t fst_conv]
  have ub: "unat (of_nat i :: byte) = i" using g(2) by (simp add: unat_of_nat)
  have "length cards1 + length is \<le> 64" using k(3) Cons.prems(3) by simp
  note IH = Cons.IH[OF k(2) _ this, of m1]
  have "known_version cards1 (g, b) = (if g = ?g \<and> unat b = i then Some (newer (known_version cards (g, b)) ?v) else known_version cards (g, b))"
    using ub by (auto simp: k(1) word_unat_eq_iff)
  then show ?case using IH Cons.prems(2,4) by (simp add: t) metis
qed simp

text \<open>A module with one slot, that pushed version 6 of a card of two blocks, on an SD card that works.\<close>

definition sd_board :: "fs platform" where
  "sd_board =
     \<lparr>hw_timer = Pair 1, timer_diff_ticks = (\<lambda>_. Pair 1), get_current_time = Pair 0, mdelay = (\<lambda>_ x. x), vsprintf = (\<lambda>_ _. []),
      fat_open = (\<lambda>_ _. None), fat_create = (\<lambda>_. Pair False), fat_write = (\<lambda>_ _ x. x),
      card_enabled = (\<lambda>_ _. True), card_base = (\<lambda>_ _. None), card_size = (\<lambda>_ _. 0), config_game_id = (\<lambda>_. 0),
      net_bring_up = (\<lambda>_. Pair True), net_open = (\<lambda>_ _. Pair True), net_set_pace = (\<lambda>_ _ x. x), net_close = (\<lambda>x. x),
      net_live_ip = Pair 0, net_dropped = (\<lambda>_. 0), ssnet_send_op = (\<lambda>x _. (True, x)),
      ssnet_recv_op = (\<lambda>x _ _. (RecvTimeout, x))\<rparr>"

definition module_with :: "ss_slot list \<Rightarrow> fs \<Rightarrow> fs kernel" where
  "module_with slots s = \<lparr>kn_cfg = ssl_config_defaults, kn_slots = slots,
     kn_client = ss_client_init \<lparr>tp_send = (\<lambda>x _. (True, x)), tp_recv = (\<lambda>x _ _. (RecvTimeout, x)), tp_ctx = s\<rparr> [] 0 None,
     kn_world = s, kn_bitmap = replicate 2048 0, kn_dirty_map = replicate 2048 0, kn_fingerprints = replicate 2048 0,
     kn_log = [], kn_log_dirty = False, kn_net_connected = False, kn_handoff_pending = True, kn_worker_running = False,
     kn_worker_stop = False, kn_worker_busy = False, kn_boot_time = 0, kn_last_flush = 0\<rparr>"

definition gale_pushed :: ss_slot where
  "gale_pushed = known_slot\<lparr>s_parent := 6, s_parent_sha := replicate 32 1, s_pushed_any := True, s_fp_valid := True\<rparr>"

lemma module_with_fields [simp]:
  "kn_slots (module_with slots s) = slots" "kn_world (module_with slots s) = s" "kn_handoff_pending (module_with slots s)"
  "kn_fingerprints (module_with slots s) = replicate 2048 0" "kn_dirty_map (module_with slots s) = replicate 2048 0"
  by (simp_all add: module_with_def)

lemma gale_pushed_fields [simp]:
  "s_game_id gale_pushed = ascii ''GALE01''" "s_parent gale_pushed = 6" "s_parent_sha gale_pushed = replicate 32 1"
  "s_pushed_any gale_pushed" "s_fp_valid gale_pushed"
  by (simp_all add: gale_pushed_def known_slot_def)

lemma gale_flushed:
  obtains k' where "flush_handoff (on_sd (\<lambda>_. 16384) sd_board) (module_with [gale_pushed] sd_card) = Some k'"
proof -
  have "flush_handoff (on_sd (\<lambda>_. 16384) sd_board) (module_with [gale_pushed] sd_card) \<noteq> None"
    by (rule flush_handoff_some)
      (simp_all add: ss_fp_share_def SS_FP_ENTRIES_def ss_fp_blocks_def SS_FP_BLOCK_SIZE_def on_sd_def sized_def)
  then show ?thesis using that by blast
qed

lemma sd_card_reliable: "\<forall>c. reliable c sd_card"
  by (simp add: sd_card_def reliable_def)

text \<open>
  C19: what the kernel module hands over reaches the launcher. After a flush on a card that works, merging makes the version
  of every card the module pushed the newer of the module's and the launcher's own, leaves every other card's alone, and removes
  the file.
\<close>

theorem handoff_versions:
  assumes "\<forall>c. reliable c (kn_world k)" "kn_handoff_pending k" "flush_handoff (on_sd size_of P) k = Some k'"
    and "list_ex s_pushed_any (kn_slots k)" "\<forall>s \<in> set (kn_slots k). s_pushed_any s \<longrightarrow> plain_id (s_game_id s)"
    and "wf_state cards" "length cards + length (kn_slots k) \<le> 64"
    and "wii_state_merge_runtime cards WII_RUNTIME_PATH (kn_world k') = (cards', merged, s')"
  shows "fs_disk s' WII_RUNTIME_PATH = None \<and> wf_state cards' \<and> (\<forall>g b. known_version cards' (g, b) =
    (if unat b < length (kn_slots k) \<and> s_pushed_any (kn_slots k ! unat b) \<and> s_game_id (kn_slots k ! unat b) = g
     then Some (newer (known_version cards (g, b)) (s_parent (kn_slots k ! unat b))) else known_version cards (g, b)))"
proof -
  let ?t = "concat (map (slot_line (kn_slots k)) (pushed_slots (kn_slots k)))"
  note fl = sdvol.flush_handoff_files[OF assms(1-3)]
  have p: "WII_RUNTIME_PATH = sd_path SS_HANDOFF_PATH" by (simp add: WII_RUNTIME_PATH_def SS_HANDOFF_PATH_def sd_path_def)
  have f: "fs_disk (kn_world k') WII_RUNTIME_PATH = Some ?t" using fl(2)[OF assms(4)] by (simp add: p)
  obtain fo s1 where 1: "open_read WII_RUNTIME_PATH (kn_world k') = (fo, s1)" by fastforce
  note o = open_read_through[where Q = "\<lambda>_. True", OF 1 TrueI]
  have fo: "fo = Some ?t" "\<forall>c. reliable c s1" using o(4) fl(1) f through_reliable[OF o(1)] by auto
  obtain got s2 where 2: "fread ?t (length ?t) s1 = (got, s2)" by fastforce
  note r = fread_through[where Q = "\<lambda>_. True", OF 2 TrueI]
  have got: "got = ?t" "\<forall>c. reliable c s2" using r(4) fo(2) through_reliable[OF r(1)] by auto
  obtain cs m where m: "merge_lines ?t (cards, 0) = (cs, m)" by fastforce
  have e: "cards' = cs" "s' = remove WII_RUNTIME_PATH s2"
    using assms(8) by (simp_all add: wii_state_merge_runtime_def 1 fo(1) 2 got(1) m)
  have ids: "\<forall>i \<in> set (pushed_slots (kn_slots k)). plain_id (s_game_id (kn_slots k ! i)) \<and> i < 256"
    using assms(5,7) by (auto simp: pushed_slots_def)
  have len: "length (pushed_slots (kn_slots k)) \<le> length (kn_slots k)"
    using length_filter_le[of _ "[0..<length (kn_slots k)]"] by (simp add: pushed_slots_def)
  have cs: "cs = fst (fold (\<lambda>i. take_version (s_game_id (kn_slots k ! i)) (of_nat i) (s_parent (kn_slots k ! i))) (pushed_slots (kn_slots k)) (cards, 0))"
    using merge_handoff_lines[OF ids, of "(cards, 0)"] m by (metis fst_conv)
  have "fs_disk s' WII_RUNTIME_PATH = None"
    using remove_through(3)[where Q = "\<lambda>_. True" and s = s2 and p = WII_RUNTIME_PATH, OF TrueI TrueI] got(2) e(2) by simp
  moreover have "wf_state cards' \<and> known_version cards' (g, b) =
    (if unat b < length (kn_slots k) \<and> s_pushed_any (kn_slots k ! unat b) \<and> s_game_id (kn_slots k ! unat b) = g
     then Some (newer (known_version cards (g, b)) (s_parent (kn_slots k ! unat b))) else known_version cards (g, b))" for g b
    using fold_versions[OF assms(6) _ _ ids refl, of 0 g b] assms(7) len unfolding e(1) cs by (simp add: pushed_slots_def)
  ultimately show ?thesis by blast
qed

theorem handoff_versions_witness:
  "\<exists>k' cards' merged s'. flush_handoff (on_sd (\<lambda>_. 16384) sd_board) (module_with [gale_pushed] sd_card) = Some k' \<and>
     wii_state_merge_runtime [] WII_RUNTIME_PATH (kn_world k') = (cards', merged, s') \<and>
     known_version cards' (ascii ''GALE01'', 0) = Some 6"
proof -
  obtain k' where k': "flush_handoff (on_sd (\<lambda>_. 16384) sd_board) (module_with [gale_pushed] sd_card) = Some k'" by (rule gale_flushed)
  obtain cards' merged s' where m: "wii_state_merge_runtime [] WII_RUNTIME_PATH (kn_world k') = (cards', merged, s')" by (metis prod_cases3)
  have "plain_id (ascii ''GALE01'')" by (simp add: plain_id_def ascii_def is_space_def)
  with handoff_versions[OF _ _ k' _ _ _ _ m] show ?thesis
    using k' m sd_card_reliable by (fastforce simp: wf_state_def known_version_def)
qed

subsection \<open>Merging the tables\<close>

text \<open>The store after a list of puts of different slots: their records, and elsewhere what was there.\<close>

lemma lookup_fold_put:
  assumes "\<forall>e \<in> set rs. wf_entry e" "\<forall>e \<in> set es. wf_entry e" "distinct (map (f_slot \<circ> fst) rs)"
  shows "store_lookup (fold put_entry rs es) g slot tbl =
    (if \<exists>e \<in> set rs. f_slot (fst e) = slot \<and> f_game_id (fst e) = take 6 g then store_lookup rs g slot tbl else store_lookup es g slot tbl)"
  using assms
proof (induction rs arbitrary: es)
  case (Cons e rs)
  obtain r vs where e: "e = (r, vs)" by (cases e)
  have wf: "wf_entry (r, vs)" "\<forall>e \<in> set es. wf_entry e" using Cons.prems(1,2) e by auto
  have "\<forall>e \<in> set (put_entry e es). wf_entry e" using wf e by (auto simp: put_entry_def)
  note IH = Cons.IH[OF _ this]
  have hd: "store_lookup (e # rs) g slot tbl =
      (if f_slot r = slot \<and> f_game_id r = take 6 g then if length tbl < length vs then None else Some (r, vs @ drop (length vs) tbl)
       else store_lookup rs g slot tbl)" by (simp add: store_lookup_def e)
  have put: "store_lookup (put_entry e es) g slot tbl =
      (if slot = f_slot r \<and> take 6 g = f_game_id r then if length tbl < length vs then None else Some (r, vs @ drop (length vs) tbl)
       else store_lookup es g slot tbl)" unfolding e by (rule store_lookup_put[OF wf])
  have "\<forall>e2 \<in> set rs. f_slot (fst e2) \<noteq> f_slot r" using Cons.prems(3) e by (auto simp: image_iff)
  then show ?case using IH Cons.prems(1,3) hd put by (auto simp: e)
qed simp

lemma handed_slots:
  assumes "length (kn_slots k) \<le> 256"
  shows "distinct (map (f_slot \<circ> fst) (handed_entries P k))"
proof -
  have "inj_on (\<lambda>i. of_nat i :: byte) (set (filter (handing P k) [0..<length (kn_slots k)]))"
    using assms by (auto intro!: inj_onI simp: word_unat_eq_iff unat_of_nat)
  then show ?thesis by (simp add: handed_entries_def comp_def handed_entry_def Let_def distinct_map)
qed

text \<open>
  C18: after a flush on a card that works, merging puts the table of every slot the module pushed and holds valid into the
  launcher's store, under the card's key, with the version, size and digest of what the module pushed; lookups of all other cards
  give what they gave before.
\<close>

theorem handoff_tables:
  assumes "\<forall>c. reliable c (kn_world k)" "kn_handoff_pending k" "flush_handoff (on_sd size_of P) k = Some k'" "length (kn_slots k) \<le> 256"
    and "\<forall>i < length (kn_slots k). s_pushed_any (kn_slots k ! i) \<and> s_fp_valid (kn_slots k ! i) \<longrightarrow> size_of i \<noteq> 0"
    and "store_file (fs_disk (kn_world k)) WII_FP_PATH es" "storable (handed_entries (on_sd size_of P) k)"
    and "room_for (handed_entries (on_sd size_of P) k) es" "handed_entries (on_sd size_of P) k \<noteq> []"
    and "wii_fp_merge_runtime WII_FP_PATH WII_FP_RUNTIME_PATH (kn_world k') = (merged, s')"
  shows "merged = Some (length (handed_entries (on_sd size_of P) k)) \<and>
    wii_fp_store_get (fst (wii_fp_store_read WII_FP_PATH s')) g slot tbl =
      (if unat slot < length (kn_slots k) \<and> handing (on_sd size_of P) k (unat slot) \<and> s_game_id (kn_slots k ! unat slot) = take 6 g
       then let (r, vs) = handed_entry (on_sd size_of P) k (unat slot)
            in if length tbl < length vs then None else Some (r, vs @ drop (length vs) tbl)
       else store_lookup es g slot tbl)"
proof -
  let ?P = "on_sd size_of P"
  let ?rs = "handed_entries ?P k"
  note fl = sdvol.flush_handoff_files[OF assms(1-3)]
  have sz: "card_size ?P i x = size_of i" for i x by (simp add: on_sd_def)
  have n: "length (filter (\<lambda>s. s_pushed_any s \<and> s_fp_valid s) (kn_slots k)) = length ?rs"
    by (rule sdvol.handed_count) (use assms(5) in \<open>simp add: sz\<close>)
  have p: "WII_FP_RUNTIME_PATH = sd_path SS_FP_HANDOFF_PATH" "WII_FP_PATH = sd_path SS_FP_PATH"
    by (simp_all add: WII_FP_RUNTIME_PATH_def SS_FP_HANDOFF_PATH_def WII_FP_PATH_def SS_FP_PATH_def sd_path_def)
  have f: "fs_disk (kn_world k') WII_FP_RUNTIME_PATH = Some (encode_store ?rs)"
    using fl(3) assms(9) unfolding n by (simp add: p encode_store_def)
  have old: "store_file (fs_disk (kn_world k')) WII_FP_PATH es"
    using fl(4)[of SS_FP_PATH] assms(6)
    by (simp add: p store_file_def SS_FP_PATH_def SS_HANDOFF_PATH_def SS_FP_HANDOFF_PATH_def SS_LOG_PATH_def)
  have pl: "length WII_FP_PATH < 252" "WII_FP_RUNTIME_PATH \<noteq> WII_FP_PATH" "WII_FP_RUNTIME_PATH \<noteq> WII_FP_PATH @ ascii ''.tmp''"
    by (simp_all add: WII_FP_RUNTIME_PATH_def WII_FP_PATH_def ascii_def)
  note m = fp_merge_works[OF fl(1) old pl(1) f assms(7,8) pl(2,3) assms(10)]
  have wf: "\<forall>e \<in> set ?rs. wf_entry e" "\<forall>e \<in> set es. wf_entry e" using assms(6,7) by (auto simp: store_file_def storable_def)
  have look: "wii_fp_store_get (fst (wii_fp_store_read WII_FP_PATH s')) g slot tbl = store_lookup (fold put_entry ?rs es) g slot tbl"
    by (rule fp_get_works[OF m(2,3)])
  let ?hit = "unat slot < length (kn_slots k) \<and> handing ?P k (unat slot) \<and> s_game_id (kn_slots k ! unat slot) = take 6 g"
  have key: "f_slot (fst (handed_entry ?P k i)) = of_nat i" "f_game_id (fst (handed_entry ?P k i)) = s_game_id (kn_slots k ! i)" for i
    by (simp_all add: handed_entry_def Let_def)
  have hit: "(\<exists>e \<in> set ?rs. f_slot (fst e) = slot \<and> f_game_id (fst e) = take 6 g) \<longleftrightarrow> ?hit"
  proof
    assume "\<exists>e \<in> set ?rs. f_slot (fst e) = slot \<and> f_game_id (fst e) = take 6 g"
    then obtain i where i: "i < length (kn_slots k)" "handing ?P k i" "of_nat i = slot" "s_game_id (kn_slots k ! i) = take 6 g"
      by (auto simp: handed_entries_def key)
    then have "unat slot = i" using assms(4) by (auto simp: unat_of_nat)
    then show ?hit using i by simp
  next
    assume h: ?hit
    then have "handed_entry ?P k (unat slot) \<in> set ?rs" by (simp add: handed_entries_def)
    then show "\<exists>e \<in> set ?rs. f_slot (fst e) = slot \<and> f_game_id (fst e) = take 6 g" using h by (intro bexI) (simp_all add: key)
  qed
  have "store_lookup ?rs g slot tbl = (let (r, vs) = handed_entry ?P k (unat slot)
      in if length tbl < length vs then None else Some (r, vs @ drop (length vs) tbl))" if ?hit
  proof -
    have "find (\<lambda>(r, vs). f_slot r = slot \<and> f_game_id r = take 6 g) ?rs = Some (handed_entry ?P k (unat slot))"
    proof (cases "find (\<lambda>(r, vs). f_slot r = slot \<and> f_game_id r = take 6 g) ?rs")
      case None
      then show ?thesis using that hit by (auto simp: find_None_iff case_prod_beta)
    next
      case (Some e)
      then have e: "e \<in> set ?rs" "f_slot (fst e) = slot" by (auto simp: find_Some_iff case_prod_beta in_set_conv_nth)
      then obtain i where "i < length (kn_slots k)" "e = handed_entry ?P k i" by (auto simp: handed_entries_def)
      moreover have "unat slot = i" using e(2) calculation assms(4) by (auto simp: key unat_of_nat)
      ultimately show ?thesis using Some by simp
    qed
    then show ?thesis by (simp add: store_lookup_def Let_def)
  qed
  then show ?thesis using m(1) unfolding look lookup_fold_put[OF wf handed_slots[OF assms(4)]] hit by simp
qed

theorem handoff_tables_witness:
  "\<exists>k' merged s'. flush_handoff (on_sd (\<lambda>_. 16384) sd_board) (module_with [gale_pushed] sd_card) = Some k' \<and>
     wii_fp_merge_runtime WII_FP_PATH WII_FP_RUNTIME_PATH (kn_world k') = (merged, s') \<and>
     (case wii_fp_store_get (fst (wii_fp_store_read WII_FP_PATH s')) (ascii ''GALE01'') 0 [9, 9, 9] of
        None \<Rightarrow> False | Some (r, tbl) \<Rightarrow> f_version r = 6 \<and> f_sha256 r = replicate 32 1 \<and> tbl = [0, 0, 9])"
proof -
  let ?P = "on_sd (\<lambda>_. 16384) sd_board" and ?k = "module_with [gale_pushed] sd_card"
  obtain k' where k': "flush_handoff ?P ?k = Some k'" by (rule gale_flushed)
  obtain merged s' where m: "wii_fp_merge_runtime WII_FP_PATH WII_FP_RUNTIME_PATH (kn_world k') = (merged, s')" by fastforce
  have bl: "ss_fp_blocks 16384 = 2" by (simp add: ss_fp_blocks_def SS_FP_BLOCK_SIZE_def)
  have h: "handing ?P ?k 0" by (simp add: handing_def on_sd_def)
  have e: "handed_entry ?P ?k 0 = (\<lparr>f_game_id = ascii ''GALE01'', f_slot = 0, f_version = 6, f_size = 16384, f_blocks = 2,
      f_sha256 = replicate 32 1\<rparr>, [0, 0])"
    by (simp add: handed_entry_def on_sd_def bl) (simp add: numeral_2_eq_2)
  have es: "handed_entries ?P ?k = [handed_entry ?P ?k 0]" using h by (simp add: handed_entries_def)
  have wf: "wf_entry (handed_entry ?P ?k 0)" by (simp add: e wf_entry_def full_id_def ascii_def bl)
  have st: "storable (handed_entries ?P ?k)" "room_for (handed_entries ?P ?k) []"
    using wf length_encode_entry[of "fst (handed_entry ?P ?k 0)" "snd (handed_entry ?P ?k 0)"]
    by (simp_all add: es storable_def room_for_def encode_store_def) (simp_all add: e)
  have old: "store_file (fs_disk (kn_world ?k)) WII_FP_PATH []"
    by (simp add: store_file_def storable_def encode_store_def sd_card_def card_path_def WII_FP_PATH_def ascii_def)
  show ?thesis
    using handoff_tables[OF _ _ k' _ _ old st _ m, of "ascii ''GALE01''" 0 "[9, 9, 9]"] k' m h sd_card_reliable
    by (simp add: es e ascii_def)
qed

subsection \<open>The launcher's versions in the module's hands\<close>

text \<open>A number cut short is the number without its last digits.\<close>

lemma take_dec:
  assumes "0 < j" "j \<le> length (dec n)"
  shows "take j (dec n) = dec (n div 10 ^ (length (dec n) - j))"
  using assms(2)
proof (induction n rule: dec.induct)
  case (1 n)
  show ?case
  proof (cases "n < 10 \<or> j = length (dec n)")
    case True
    then show ?thesis using 1(2) assms(1) by (auto simp: dec.simps[of n])
  next
    case False
    then have d: "dec n = dec (n div 10) @ [of_nat (48 + n mod 10)]" "length (dec n) = Suc (length (dec (n div 10)))"
      and j: "j \<le> length (dec (n div 10))" using 1(2) by (auto simp: dec.simps[of n])
    have "take j (dec n) = dec (n div 10 div 10 ^ (length (dec (n div 10)) - j))" using 1(1) False j by (simp add: d(1))
    then show ?thesis using d(2) j by (simp add: Suc_diff_le div_mult2_eq)
  qed
qed

text \<open>The module reads the first 2047 bytes of the file the launcher wrote.\<close>

lemma state_read_back:
  assumes "\<forall>c. reliable c s" "state_save_file cards WII_STATE_PATH s = (ok, s')" "kn_world k = s'"
  shows "ss_load_parent (on_sd size_of P) g slot k = ssl_state_find (take 2047 (wii_state_save cards)) g (of_nat slot)"
proof -
  let ?t = "wii_state_save cards"
  have "building WII_STATE_PATH (fs_disk s) ?t s s'"
    using state_save_file_builds[of s WII_STATE_PATH cards] assms(1,2) by simp
  then have "fs_disk s' (sd_path SS_STATE_PATH) = Some ?t"
    by (simp add: building_def WII_STATE_PATH_def SS_STATE_PATH_def sd_path_def)
  then have "ss_read_file (on_sd size_of P) SS_STATE_PATH k = Some (take 2047 ?t)"
    by (simp add: ss_read_file_def on_sd_def assms(3) f_read_def Let_def bytes_at_def SS_CFG_MAX_def min_def)
  then show ?thesis by (simp add: ss_load_parent_def)
qed

lemma no_digits: "0 < n \<Longrightarrow> read_digest [] n = None"
  by (cases n) (simp_all add: ssl_hex_def)

lemma save_append: "wii_state_save (a @ b) = wii_state_save a @ wii_state_save b"
  by (simp add: wii_state_save_def)

text \<open>What the launcher agreed for a card; and a table of 27 cards, of which the last one's version is the 2047th byte and its neighbours.\<close>

definition gale_agreed :: wii_card_state where
  "gale_agreed = \<lparr>k_game_id = ascii ''GALE01'', k_slot = 0, k_version = 41, k_sha256 = replicate 32 7, k_known = True\<rparr>"

definition shelf :: "wii_card_state list" where
  "shelf = map (\<lambda>i. \<lparr>k_game_id = ascii ''GAME'' @ dec (10 + i), k_slot = 0, k_version = (if i < 8 then 1234 else 123),
     k_sha256 = replicate 32 7, k_known = True\<rparr>) [0..<26]"

text \<open>
  C21: the version and digest the launcher last agreed with the server for a card, saved to the SD card, are what
  the kernel module starts from, for every card within the first 2047 bytes of the file; a card that is not in a
  file of at most that length has no lineage.
\<close>

theorem launcher_state_reaches_kernel:
  assumes "\<forall>c. reliable c s" "state_save_file cards WII_STATE_PATH s = (ok, s')" "kn_world k = s'"
    and "\<forall>c \<in> set cards. wf_card c" "length g = 6"
    and "cards = seen @ others" "length (wii_state_save seen) \<le> 2047"
    and "others = [] \<or> (\<exists>c \<in> set seen. k_game_id c = g \<and> k_slot c = of_nat slot)"
  shows "ss_load_parent (on_sd size_of P) g slot k =
    map_option (\<lambda>c. (k_version c, k_sha256 c)) (find (\<lambda>c. k_game_id c = g \<and> k_slot c = of_nat slot) seen)"
proof -
  have wf: "\<forall>c \<in> set seen. wf_card c" using assms(4,6) by simp
  have "take 2047 (wii_state_save cards) = wii_state_save seen @ take (2047 - length (wii_state_save seen)) (wii_state_save others)"
    using assms(7) by (simp add: assms(6) save_append)
  then have "ss_load_parent (on_sd size_of P) g slot k =
      (case find (\<lambda>c. k_game_id c = g \<and> k_slot c = of_nat slot) seen of
         None \<Rightarrow> ssl_state_find (take (2047 - length (wii_state_save seen)) (wii_state_save others)) g (of_nat slot)
       | Some c \<Rightarrow> Some (k_version c, k_sha256 c))"
    using state_find_lines[OF wf assms(5)] by (simp only: state_read_back[OF assms(1-3)])
  moreover have "others = []" if "find (\<lambda>c. k_game_id c = g \<and> k_slot c = of_nat slot) seen = None"
    using assms(8) that by (auto simp: find_None_iff)
  ultimately show ?thesis by (auto simp: wii_state_save_def ssl_state_find.simps split: option.splits)
qed

theorem launcher_state_reaches_kernel_witness:
  "\<exists>s'. snd (state_save_file [gale_agreed] WII_STATE_PATH sd_card) = s' \<and>
     ss_load_parent (on_sd (\<lambda>_. 16384) sd_board) (ascii ''GALE01'') 0 (module_with [empty_slot] s') = Some (41, replicate 32 7)"
proof -
  obtain ok s' where f: "state_save_file [gale_agreed] WII_STATE_PATH sd_card = (ok, s')" by fastforce
  have "wf_card gale_agreed" by (simp add: gale_agreed_def wf_card_def full_id_def ascii_def)
  moreover have "length (wii_state_save [gale_agreed]) \<le> 2047" by code_simp
  ultimately show ?thesis
    using launcher_state_reaches_kernel[OF sd_card_reliable f module_with_fields(2), where seen = "[gale_agreed]" and others = "[]"] f
    by (simp add: gale_agreed_def ascii_def)
qed

text \<open>
  C34: a table whose text is longer loses more than the cards at its end. When the 2047th byte falls into the version of a
  card, the module takes the digits before it for the version, which is a smaller one, and no digest.
\<close>

theorem state_cut_version:
  assumes "\<forall>c. reliable c s" "state_save_file (seen @ c # others) WII_STATE_PATH s = (ok, s')" "kn_world k = s'"
    and "\<forall>c \<in> set (seen @ c # others). wf_card c" "wf_state (seen @ c # others)"
    and "length (wii_state_save seen) + 8 + length (dec (unat (k_slot c))) + j = 2047"
    and "0 < j" "j < length (dec (unat (k_version c)))"
  shows "\<exists>v. ss_load_parent (on_sd size_of P) (k_game_id c) (unat (k_slot c)) k = Some (v, replicate 32 0) \<and>
    unat v = unat (k_version c) div 10 ^ (length (dec (unat (k_version c))) - j) \<and> v < k_version c"
proof -
  let ?n = "unat (k_version c)" and ?g = "k_game_id c" and ?s = "unat (k_slot c)"
  let ?v = "?n div 10 ^ (length (dec ?n) - j)"
  have c: "wf_card c" "length ?g = 6" using assms(4) by (auto simp: wf_card_def full_id_def)
  have cut: "take j (dec ?n) = dec ?v" "j - length (dec ?n) = 0" using take_dec[OF assms(7), of ?n] assms(8) by simp_all
  have line: "card_line c = ?g @ 0x20 # dec ?s @ 0x20 # dec ?n @ 0x20 # concat (map hex_byte (k_sha256 c)) @ [0x0A]"
    by (simp add: card_line_def)
  have l: "2047 - length (wii_state_save seen) = length ?g + Suc (length (dec ?s) + Suc j)" using assms(6) c(2) by simp
  have "take (2047 - length (wii_state_save seen)) (card_line c @ r) = ?g @ 0x20 # dec ?s @ 0x20 # dec ?v" for r
    unfolding l line by (simp add: cut)
  then have "take 2047 (wii_state_save (seen @ c # others)) = wii_state_save seen @ ?g @ 0x20 # dec ?s @ 0x20 # dec ?v"
    using assms(6) by (simp add: save_append) (simp add: wii_state_save_def)
  moreover have "find (\<lambda>d. k_game_id d = ?g \<and> k_slot d = k_slot c) seen = None"
    using assms(5) by (auto simp: find_None_iff wf_state_def image_iff)
  moreover have "ssl_state_find (?g @ 0x20 # dec ?s @ 0x20 # dec ?v) ?g (k_slot c) = Some (of_nat ?v, replicate 32 0)"
  proof -
    have "peek (?g @ 0x20 # dec ?s @ 0x20 # dec ?v) 0 \<noteq> 0" using c by (cases ?g) (auto simp: wf_card_def full_id_def)
    moreover have no_digest: "read_digest [] 32 = None" by (rule no_digits) simp
    have "state_line (?g @ 0x20 # dec ?s @ 0x20 # dec ?v @ []) ?g (k_slot c) = Some (of_nat ?v, replicate 32 0)"
      using c no_digest by (subst state_line_parse) (auto simp: wf_card_def)
    ultimately show ?thesis by (subst ssl_state_find.simps) simp
  qed
  ultimately have r: "ss_load_parent (on_sd size_of P) ?g ?s k = Some (of_nat ?v, replicate 32 0)"
    using state_find_lines[of seen ?g "?g @ 0x20 # dec ?s @ 0x20 # dec ?v" "k_slot c"] assms(4) c(2)
    by (simp add: state_read_back[OF assms(1-3)])
  have "1 < length (dec ?n)" using assms(7,8) by simp
  then have "10 \<le> ?n" by (subst (asm) dec.simps) (simp split: if_splits)
  moreover have "(10 :: nat) ^ 1 \<le> 10 ^ (length (dec ?n) - j)" using assms(8) by (intro power_increasing) simp_all
  ultimately have "?v < ?n" by (intro div_less_dividend) simp_all
  moreover have "unat (of_nat ?v :: u32) = ?v" using unat_u32_lt[of "k_version c"] calculation by (intro unat_of_nat_u32) simp
  ultimately show ?thesis using r by (intro exI[of _ "of_nat ?v"]) (simp add: word_less_nat_alt)
qed

lemma length_shelf: "length (wii_state_save shelf) = 2036"
proof -
  let ?c = "\<lambda>i. \<lparr>k_game_id = ascii ''GAME'' @ dec (10 + i), k_slot = 0, k_version = (if i < 8 then 1234 else 123),
     k_sha256 = replicate 32 7, k_known = True\<rparr>"
  have two: "length (dec (10 + i)) = 2" if "i < 26" for i
  proof -
    have "(10 + i) div 10 < 10" using that by linarith
    then show ?thesis by (subst dec.simps, subst dec.simps) simp
  qed
  have d: "length (dec 1234) = 4" "length (dec 123) = 3" "length (dec 0) = 1" by code_simp+
  have "length (card_line c) = length (k_game_id c) + length (dec (unat (k_slot c))) + length (dec (unat (k_version c))) + 2 * length (k_sha256 c) + 4"
    for c by (simp add: card_line_def length_concat comp_def hex_byte_def sum_list_triv)
  then have "length (card_line (?c i)) = (if i < 8 then 79 else 78)" if "i < 26" for i
    using two[OF that] d by (simp add: ascii_def)
  then have "map (length \<circ> (card_line \<circ> ?c)) [0..<26] = map (\<lambda>i. if i < 8 then 79 else 78) [0..<26]"
    by (intro map_cong) simp_all
  then have "length (wii_state_save shelf) = sum_list (map (\<lambda>i. if i < 8 then 79 else 78) [0..<26])"
    unfolding wii_state_save_def shelf_def length_concat map_map by (rule arg_cong)
  also have "\<dots> = 2036" by (simp add: upt_rec)
  finally show ?thesis .
qed

theorem state_cut_version_witness:
  "\<exists>s' v. snd (state_save_file (shelf @ [gale_agreed\<lparr>k_version := 1234\<rparr>]) WII_STATE_PATH sd_card) = s' \<and>
     ss_load_parent (on_sd (\<lambda>_. 16384) sd_board) (ascii ''GALE01'') 0 (module_with [empty_slot] s') = Some (v, replicate 32 0) \<and>
     unat v = 12"
proof -
  let ?c = "gale_agreed\<lparr>k_version := 1234\<rparr>"
  obtain ok s' where f: "state_save_file (shelf @ ?c # []) WII_STATE_PATH sd_card = (ok, s')" by fastforce
  have g: "wf_card ?c" "k_game_id ?c = ascii ''GALE01''" "k_slot ?c = 0" "k_version ?c = 1234"
    by (simp_all add: gale_agreed_def wf_card_def full_id_def ascii_def)
  have d: "length (dec 1234) = 4" "length (dec 0) = 1" by code_simp+
  have l: "length (wii_state_save shelf) = 2036" by (rule length_shelf)
  have "list_all wf_card shelf" "distinct (map (\<lambda>c. (k_game_id c, k_slot c)) (shelf @ [?c]))" "length (shelf @ [?c]) \<le> 64" by code_simp+
  then show ?thesis
    using state_cut_version[OF sd_card_reliable f module_with_fields(2), where j = 2 and size_of = "\<lambda>_. 16384" and P = sd_board and slots1 = "[empty_slot]"] f
    by (fastforce simp: wf_state_def WII_MAX_CARDS_def g d l list_all_iff)
qed

subsection \<open>The module takes up a table\<close>

abbreviation whole_file :: "byte list \<Rightarrow> fat_file" where
  "whole_file d \<equiv> \<lparr>ff_size = length d, ff_bytes = d\<rparr>"

lemma fp_read_whole: "pos + n \<le> length d \<Longrightarrow> ss_fp_read (whole_file d) pos n = Some (bytes_at d pos n)"
  by (simp add: ss_fp_read_def f_read_def Let_def min_absorb1)

lemma fp_skip_whole: "pos + n \<le> length d \<Longrightarrow> ss_fp_skip (whole_file d) pos n = Some (pos + n)"
proof (induction n arbitrary: pos rule: less_induct)
  case (less n)
  show ?case
  proof (cases "n = 0")
    case False
    let ?m = "min n SS_FP_SLICE"
    have "ss_fp_skip (whole_file d) (pos + ?m) (n - ?m) = Some (pos + ?m + (n - ?m))"
      using less.prems False by (intro less.IH) (auto simp: SS_FP_SLICE_def)
    then show ?thesis using False less.prems fp_read_whole[of pos ?m d] by (subst ss_fp_skip.simps) (simp add: Let_def)
  qed (simp add: ss_fp_skip.simps)
qed

lemma read_values_whole:
  assumes "pos + 4 * length vs \<le> length d" "bytes_at d pos (4 * length vs) = concat (map ss_put_u32 vs)" "at + length vs \<le> length table"
  shows "read_values (whole_file d) pos table at (length vs) = (take at table @ vs @ drop (at + length vs) table, True)"
  using assms
proof (induction "length vs" arbitrary: vs pos at table rule: less_induct)
  case less
  show ?case
  proof (cases "vs = []")
    case False
    let ?n = "min (length vs) (SS_FP_SLICE div 4)"
    let ?a = "take ?n vs" and ?b = "drop ?n vs"
    have n: "0 < ?n" "length ?a = ?n" using False by (auto simp: SS_FP_SLICE_def)
    have cat: "bytes_at d pos (4 * length vs) = concat (map ss_put_u32 ?a) @ concat (map ss_put_u32 ?b)"
      unfolding less.prems(2) by (simp flip: concat_append map_append)
    have la: "length (concat (map ss_put_u32 ?a)) = 4 * ?n" using u32.length_table[of ?a] n(2) by simp
    have rd: "bytes_at d pos (4 * ?n) = concat (map ss_put_u32 ?a)"
    proof -
      have "bytes_at d pos (4 * ?n) = take (4 * ?n) (bytes_at d pos (4 * length vs))" by (simp add: bytes_at_def min_absorb1)
      then show ?thesis using la by (simp add: cat)
    qed
    have rest: "bytes_at d (pos + 4 * ?n) (4 * length ?b) = concat (map ss_put_u32 ?b)"
    proof -
      have "bytes_at d (pos + 4 * ?n) (4 * length ?b) = drop (4 * ?n) (bytes_at d pos (4 * length vs))"
        by (simp add: bytes_at_def drop_take add.commute diff_mult_distrib2)
      then show ?thesis using la by (simp add: cat)
    qed
    let ?t = "take at table @ ?a @ drop (at + ?n) table"
    have got: "ss_fp_get_values (drop at table) (bytes_at d pos (4 * ?n)) ?n = ?a @ drop (at + ?n) table"
      using get_values_table[of ?a "drop at table" "[]"] less.prems(3) n(2) by (simp add: rd add.commute)
    have "read_values (whole_file d) (pos + 4 * ?n) ?t (at + ?n) (length ?b) = (take (at + ?n) ?t @ ?b @ drop (at + ?n + length ?b) ?t, True)"
      using less.prems n rest False by (intro less.hyps) (auto simp: algebra_simps)
    moreover have "read_values (whole_file d) pos table at (length vs) = read_values (whole_file d) (pos + 4 * ?n) ?t (at + ?n) (length ?b)"
      using False less.prems(1) got fp_read_whole[of pos "4 * ?n" d]
      by (subst read_values.simps) (simp add: Let_def mult.commute)
    moreover have "take (at + ?n) ?t = take at table @ ?a" using less.prems(3) n(2) by (simp add: min_absorb2)
    moreover have "drop (at + ?n + length ?b) ?t = drop (at + length vs) table"
      using less.prems(3) n(2) by (simp add: min_absorb2 add.assoc) (simp add: add.commute)
    moreover have "(take at table @ ?a) @ ?b @ drop (at + length vs) table = take at table @ vs @ drop (at + length vs) table"
      by (metis append_assoc append_take_drop_id)
    ultimately show ?thesis by (simp only:)
  qed (simp add: read_values.simps)
qed

text \<open>What reading a record after the other comes to: the first record of the card decides.\<close>

definition taken_up ::
    "'x platform \<Rightarrow> (ss_fp_record \<times> u32 list) list \<Rightarrow> nat \<Rightarrow> byte list \<Rightarrow> u32 \<Rightarrow> u32 \<Rightarrow> byte list \<Rightarrow> 'x kernel \<Rightarrow> bool \<times> 'x kernel" where
  "taken_up P es slot g parent n sha k =
     (case find (\<lambda>(r, vs). f_slot r = of_nat slot \<and> f_game_id r = take 6 g) es of
        None \<Rightarrow> (False, k)
      | Some (r, vs) \<Rightarrow>
          if f_version r \<noteq> parent \<or> f_size r \<noteq> n \<or> ss_fp_share k < length vs then (False, k)
          else if \<not> ss_all_zero sha \<and> f_sha256 r \<noteq> sha
          then (False, sslog P ''SlotSync: %s fingerprints are for other bytes at v%u; pushing whole'' [LStr g, LNum parent] k)
          else (True, put_fp_table slot (vs @ drop (length vs) (ss_fp_table slot k)) k))"

lemma load_records_entries:
  assumes "\<forall>e \<in> set es. wf_entry e" "d = pre @ concat (map encode_entry es)" "length d < 2 ^ 32" "sized k" "slot < length (kn_slots k)"
  shows "load_records P (whole_file d) (length pre) (length es) slot g parent n sha k = taken_up P es slot g parent n sha k"
  using assms(1,2)
proof (induction es arbitrary: pre)
  case Nil
  then show ?case by (simp add: taken_up_def)
next
  case (Cons e es)
  obtain r vs where e: "e = (r, vs)" by (cases e)
  have wf: "wf_entry (r, vs)" using Cons.prems(1) e by simp
  let ?enc = "encode_entry (r, vs)"
  have enc: "?enc = ss_fp_put_record r @ concat (map ss_put_u32 vs)" by (simp add: encode_entry_def put_values_table)
  have le: "length ?enc = 56 + 4 * length vs" by (rule length_encode_entry[OF wf])
  have d: "d = pre @ ?enc @ concat (map encode_entry es)" using Cons.prems(2) e by simp
  have len: "length pre + 56 + 4 * length vs \<le> length d" using le by (simp add: d)
  have b: "unat (f_blocks r) = length vs" using wf by (simp add: wf_entry_def)
  have bytes: "unat (f_blocks r * 4) = 4 * length vs" using len assms(3) by (simp add: unat_word_ariths b)
  have share: "(of_nat (ss_fp_share k) < f_blocks r) = (ss_fp_share k < length vs)"
    using b fp_slice[OF assms(4,5)] by (simp add: word_less_nat_alt unat_of_nat_u32)
  have rec: "ss_fp_read (whole_file d) (length pre) 56 = Some (ss_fp_put_record r)"
    using len by (subst fp_read_whole) (simp_all add: d enc bytes_at_def)
  have get: "ss_fp_get_record (ss_fp_put_record r) = Some r" using ss_fp_get_put_record[OF wf, of "[]"] by simp
  have skip: "ss_fp_skip (whole_file d) (length pre + 56) (4 * length vs) = Some (length (pre @ ?enc))"
    using len le by (subst fp_skip_whole) simp_all
  have IH: "load_records P (whole_file d) (length (pre @ ?enc)) (length es) slot g parent n sha k = taken_up P es slot g parent n sha k"
    using Cons.prems d by (intro Cons.IH) auto
  have vals: "bytes_at d (length pre + 56) (4 * length vs) = concat (map ss_put_u32 vs)"
    using u32.length_table[of vs] by (simp add: d enc bytes_at_def)
  have t: "length (ss_fp_table slot k) = ss_fp_share k" by (rule length_ss_fp_table[OF assms(4,5)])
  have rv: "read_values (whole_file d) (length pre + 56) (ss_fp_table slot k) 0 (length vs) =
      (vs @ drop (length vs) (ss_fp_table slot k), True)" if "length vs \<le> ss_fp_share k"
    using read_values_whole[OF _ vals, of 0 "ss_fp_table slot k"] len that t by simp
  have id: "take SS_GAME_ID_LEN (f_game_id r) = f_game_id r" using wf by (simp add: wf_entry_def full_id_def SS_GAME_ID_LEN_def)
  show ?case
  proof (cases "f_slot r = of_nat slot \<and> f_game_id r = take 6 g")
    case False
    then have "load_records P (whole_file d) (length pre) (Suc (length es)) slot g parent n sha k =
        load_records P (whole_file d) (length (pre @ ?enc)) (length es) slot g parent n sha k"
      by (auto simp: SS_FP_RECORD_SIZE_def rec get id bytes skip SS_GAME_ID_LEN_def[symmetric] Let_def simp del: length_append)
    then show ?thesis using False IH by (auto simp: e taken_up_def)
  next
    case True
    then have m: "\<not> (f_slot r \<noteq> of_nat slot \<or> take SS_GAME_ID_LEN (f_game_id r) \<noteq> take SS_GAME_ID_LEN g)"
      by (simp add: id) (simp add: SS_GAME_ID_LEN_def)
    show ?thesis
      using True rv unfolding e length_Cons load_records.simps SS_FP_RECORD_SIZE_def rec get option.case Let_def if_not_P[OF m] share b taken_up_def
      by (auto simp: not_less)
  qed
qed

context fat_volume
begin

text \<open>The module's reader, a slice of the file at a time, finds what a lookup in the whole store finds.\<close>

lemma load_fingerprints_store:
  assumes "sound (kn_world k)" "files (kn_world k) SS_FP_PATH = Some (encode_store es)" "storable es" "sized k" "slot < length (kn_slots k)"
    and "parent \<noteq> 0" "n \<noteq> 0"
  shows "ss_load_fingerprints P slot g parent n sha k = taken_up P es slot g parent n sha k"
proof -
  let ?d = "encode_store es" and ?h = "ss_fp_put_header (of_nat (length es))"
  have o: "fat_open P SS_FP_PATH (kn_world k) = Some (whole_file ?d)" using opened[OF assms(1)] assms(2) by simp
  have rd: "ss_fp_read (whole_file ?d) 0 SS_FP_HEADER_SIZE = Some ?h"
    by (subst fp_read_whole) (simp_all add: encode_store_def bytes_at_def fp_consts)
  have "ss_fp_store_count ?h = Some (length es)"
    using assms(3) by (simp add: storable_def ss_fp_store_count_def ss_fp_put_header_eq fp_consts SS_FP_MAGIC_def bytes_at_def
        unat_of_nat take_bit_eq_mod get_put_u16 get_put_u32)
  then have "ss_load_fingerprints P slot g parent n sha k =
      load_records P (whole_file ?d) (length ?h) (length es) slot g parent n sha k"
    using assms(6,7) by (simp add: ss_load_fingerprints_def o rd) (simp add: SS_FP_HEADER_SIZE_def)
  also have "\<dots> = taken_up P es slot g parent n sha k"
    using assms(3-5) by (intro load_records_entries) (auto simp: storable_def encode_store_def)
  finally show ?thesis .
qed

end

subsection \<open>The launcher's table in the module's hands\<close>

text \<open>The table recorded: a full table of the card, under the version and digest given.\<close>

definition recorded_entry :: "byte list \<Rightarrow> byte list \<Rightarrow> u32 \<Rightarrow> u32 \<Rightarrow> byte list \<Rightarrow> ss_fp_record \<times> u32 list" where
  "recorded_entry g img n v digest =
     (\<lparr>f_game_id = take 6 g, f_slot = 0, f_version = v, f_size = n, f_blocks = ss_fp_blocks n, f_sha256 = take 32 digest\<rparr>,
      map (block_hash img (unat n)) [0..<block_count (unat n)])"

lemma recorded_entry_wf:
  assumes "full_id (take 6 g)" "32 \<le> length digest" "n \<noteq> 0" "unat n + 8191 < 2 ^ 32"
  shows "wf_entry (recorded_entry g img n v digest)"
proof -
  have "0 < unat n" using assms(3) by (simp add: unat_gt_0)
  then have "block_count (unat n) \<noteq> 0" using block_count_iff[of 0 "unat n"] by simp
  then have "ss_fp_blocks n \<noteq> 0" using unat_fp_counts(1)[OF assms(4)] by (metis unat_0)
  then show ?thesis using assms unat_fp_counts(1)[OF assms(4)] by (simp add: wf_entry_def recorded_entry_def)
qed

lemma save_fingerprints_records:
  assumes "\<forall>c. reliable c s" "store_file (fs_disk s) WII_FP_PATH es" "full_id (take 6 g)" "32 \<le> length digest"
    and "n \<noteq> 0" "v \<noteq> 0" "unat n + 8191 < 2 ^ 32" "unat n \<le> length img" "block_count (unat n) \<le> FP_ENTRIES"
    and "(chunk_count (unat n) + 7) div 8 \<le> length dirty"
    and "save_fingerprints g img n v digest fp dirty False s = (fp', dirty', s')"
  shows "\<forall>c. reliable c s'"
    "fs_disk s' = (fs_disk s)(WII_FP_PATH \<mapsto> encode_store (put_entry (recorded_entry g img n v digest) es), WII_FP_PATH @ ascii ''.tmp'' := None)"
proof -
  let ?zero = "replicate FP_ENTRIES (0 :: u32)"
  note spec = ss_fp_scan_spec[OF assms(7,8,5)]
  obtain T D m where scan: "ss_fp_scan img n ?zero dirty = Some (T, D, m)"
    using spec(1)[of ?zero dirty] assms(9,10) by (cases "ss_fp_scan img n ?zero dirty") auto
  have T: "length T = FP_ENTRIES" "\<forall>b < block_count (unat n). T ! b = block_hash img (unat n) b"
    using spec(2)[OF scan] assms(9) by auto
  let ?r = "fst (recorded_entry g img n v digest)"
  have e: "(?r, take (unat (f_blocks ?r)) T) = recorded_entry g img n v digest"
    using T assms(9) unat_fp_counts(1)[OF assms(7)] by (auto simp: recorded_entry_def intro: nth_equalityI)
  obtain ok where put: "wii_fp_store_put WII_FP_PATH ?r T s = (ok, s')"
    using assms(5,6,11) scan
    by (auto simp: save_fingerprints_def Let_def recorded_entry_def WII_GAME_ID_LEN_def SS_FP_DIGEST_SIZE_def split: prod.splits)
  have "length WII_FP_PATH < 252" by (simp add: WII_FP_PATH_def ascii_def)
  note p = fp_put_works[OF assms(1,2) _ this put, unfolded e, OF recorded_entry_wf[OF assms(3,4,5,7)]]
  show "\<forall>c. reliable c s'" by (rule p(2))
  show "fs_disk s' = (fs_disk s)(WII_FP_PATH \<mapsto> encode_store (put_entry (recorded_entry g img n v digest) es), WII_FP_PATH @ ascii ''.tmp'' := None)"
    by (rule p(3))
qed



end
