(* ===== verification/SS_WiiNet.thy ===== *)
theory SS_WiiNet
  imports SS_Client
begin

text \<open>
  \<open>wii/source/wii_net.c\<close>: the launcher's transport, a UDP socket of libogc with paced sends. The library's calls are the
  operations of a \<open>driver\<close> over a state of their own; results below zero are its error codes.
\<close>

definition WII_NET_EBADADDR :: int where "WII_NET_EBADADDR = - 1000"
definition WII_IOS_SOCKADDR_LEN :: byte where "WII_IOS_SOCKADDR_LEN = 8"

text \<open>libogc's \<open>AF_INET\<close>, \<open>SOCK_DGRAM\<close>, \<open>IPPROTO_IP\<close> and \<open>POLLIN\<close>.\<close>

definition AF_INET :: byte where "AF_INET = 2"
definition SOCK_DGRAM :: int where "SOCK_DGRAM = 2"
definition IPPROTO_IP :: int where "IPPROTO_IP = 0"
definition POLLIN :: u32 where "POLLIN = 3"

text \<open>The first fields of \<open>struct sockaddr_in\<close>.\<close>

record sockaddr_in =
  sin_len :: byte
  sin_family :: byte
  sin_port :: u16
  sin_addr :: u32

text \<open>\<open>net_poll\<close> gives the number of ready sockets and \<open>revents\<close>; \<open>net_recvfrom\<close> its result and the bytes.\<close>

record 'x driver =
  if_config :: "'x \<Rightarrow> int \<times> byte list \<times> 'x"
  net_init :: "'x \<Rightarrow> int \<times> 'x"
  net_socket :: "byte \<Rightarrow> int \<Rightarrow> int \<Rightarrow> 'x \<Rightarrow> int \<times> 'x"
  net_close_fd :: "int \<Rightarrow> 'x \<Rightarrow> 'x"
  net_sendto :: "int \<Rightarrow> byte list \<Rightarrow> sockaddr_in \<Rightarrow> byte \<Rightarrow> 'x \<Rightarrow> int \<times> 'x"
  net_poll :: "int \<Rightarrow> u32 \<Rightarrow> int \<Rightarrow> 'x \<Rightarrow> int \<times> u32 \<times> 'x"
  net_recvfrom :: "int \<Rightarrow> nat \<Rightarrow> 'x \<Rightarrow> int \<times> byte list \<times> 'x"
  usleep :: "int \<Rightarrow> 'x \<Rightarrow> 'x"
  inet_addr :: "byte list \<Rightarrow> u32"

text \<open>A socket, with the state of the driver behind it. \<open>wn_last_op\<close>: \<open>'s'\<close>, \<open>'p'\<close>, \<open>'r'\<close> or 0.\<close>

record 'x wii_socket =
  wn_fd :: int
  wn_addr :: sockaddr_in
  wn_last_err :: int
  wn_last_op :: byte
  wn_pace_every :: int
  wn_pace_us :: int
  wn_sent_since_pause :: int
  wn_world :: 'x

text \<open>The address, \<open>ip_cap\<close> being the size of the caller's buffer.\<close>

definition wii_net_init :: "'x driver \<Rightarrow> nat \<Rightarrow> 'x \<Rightarrow> int \<times> byte list \<times> 'x" where
  "wii_net_init N ip_cap x =
     (let (result, local, x) = if_config N x
      in if result < 0 then (result, [], x)
         else let (result, x) = net_init N x
              in if result < 0 then (result, [], x) else (0, take (ip_cap - 1) local, x))"

definition wii_net_open :: "'x driver \<Rightarrow> byte list \<Rightarrow> u16 \<Rightarrow> 'x wii_socket \<Rightarrow> int \<times> 'x wii_socket" where
  "wii_net_open N host port s =
     (let s = s\<lparr>wn_last_err := 0, wn_last_op := 0, wn_sent_since_pause := 0\<rparr>;
          (fd, x) = net_socket N AF_INET SOCK_DGRAM IPPROTO_IP (wn_world s);
          s = s\<lparr>wn_fd := fd, wn_world := x\<rparr>
      in if fd < 0 then (fd, s)
         else let addr = \<lparr>sin_len = WII_IOS_SOCKADDR_LEN, sin_family = AF_INET, sin_port = port, sin_addr = inet_addr N host\<rparr>;
                  s = s\<lparr>wn_addr := addr\<rparr>
              in if sin_addr addr = 0 \<or> sin_addr addr = 0xFFFFFFFF
                 then (WII_NET_EBADADDR, s\<lparr>wn_world := net_close_fd N fd (wn_world s), wn_fd := - 1\<rparr>)
                 else (0, s))"

definition wii_net_close :: "'x driver \<Rightarrow> 'x wii_socket \<Rightarrow> 'x wii_socket" where
  "wii_net_close N s =
     (if 0 \<le> wn_fd s then s\<lparr>wn_world := net_close_fd N (wn_fd s) (wn_world s), wn_fd := - 1\<rparr> else s)"

definition wii_net_send :: "'x driver \<Rightarrow> 'x wii_socket \<Rightarrow> byte list \<Rightarrow> int \<times> 'x wii_socket" where
  "wii_net_send N s data =
     (let s = (if 0 < wn_pace_every s
               then let s = s\<lparr>wn_sent_since_pause := wn_sent_since_pause s + 1\<rparr>
                    in if wn_pace_every s \<le> wn_sent_since_pause s
                       then let s = s\<lparr>wn_sent_since_pause := 0\<rparr>
                            in if 0 < wn_pace_us s then s\<lparr>wn_world := usleep N (wn_pace_us s) (wn_world s)\<rparr> else s
                       else s
               else s);
          (sent, x) = net_sendto N (wn_fd s) data (wn_addr s) WII_IOS_SOCKADDR_LEN (wn_world s);
          s = s\<lparr>wn_world := x\<rparr>
      in if sent < 0 then (sent, s\<lparr>wn_last_err := sent, wn_last_op := 0x73\<rparr>) else (sent, s))"

definition wii_net_recv :: "'x driver \<Rightarrow> 'x wii_socket \<Rightarrow> nat \<Rightarrow> int \<Rightarrow> recv_result \<times> 'x wii_socket" where
  "wii_net_recv N s cap timeout_ms =
     (let (ready, revents, x) = net_poll N (wn_fd s) POLLIN timeout_ms (wn_world s);
          s = s\<lparr>wn_world := x\<rparr>
      in if ready < 0 then (RecvError, s\<lparr>wn_last_err := ready, wn_last_op := 0x70\<rparr>)
         else if ready = 0 \<or> revents AND POLLIN = 0 then (RecvTimeout, s)
         else let (got, data, x) = net_recvfrom N (wn_fd s) cap (wn_world s);
                  s = s\<lparr>wn_world := x\<rparr>
              in if got \<le> 0 then (RecvError, s\<lparr>wn_last_err := got, wn_last_op := 0x72\<rparr>)
                 else (RecvData data, s))"

text \<open>The transport \<open>main\<close> makes of it: the two functions, and the socket as their context.\<close>

definition wii_transport :: "'x driver \<Rightarrow> 'x wii_socket \<Rightarrow> 'x wii_socket ss_transport" where
  "wii_transport N s =
     \<lparr>tp_send = (\<lambda>s data. (let (sent, s) = wii_net_send N s data in (0 \<le> sent, s))), tp_recv = wii_net_recv N, tp_ctx = s\<rparr>"

subsection \<open>Pacing\<close>

fun send_all :: "'x driver \<Rightarrow> byte list list \<Rightarrow> 'x wii_socket \<Rightarrow> 'x wii_socket" where
  "send_all N [] s = s"
| "send_all N (d # ds) s = send_all N ds (snd (wii_net_send N s d))"

text \<open>
  The schedule: of the sends counted from \<open>k\<close> on, each whose number is a multiple of \<open>every\<close> is preceded by a pause, when the
  configuration asks for pauses.
\<close>

fun paced :: "'x driver \<Rightarrow> int \<Rightarrow> sockaddr_in \<Rightarrow> int \<Rightarrow> int \<Rightarrow> nat \<Rightarrow> byte list list \<Rightarrow> 'x \<Rightarrow> 'x" where
  "paced N fd addr every us k [] x = x"
| "paced N fd addr every us k (d # ds) x =
     (let x = (if 0 < every \<and> 0 < us \<and> every dvd int k then usleep N us x else x)
      in paced N fd addr every us (k + 1) ds (snd (net_sendto N fd d addr WII_IOS_SOCKADDR_LEN x)))"

lemma count_up:
  assumes "0 < (every :: int)"
  shows "every \<le> int k mod every + 1 \<longleftrightarrow> every dvd int (k + 1)"
    "\<not> every dvd int (k + 1) \<Longrightarrow> int (k + 1) mod every = int k mod every + 1"
proof -
  have e: "int (k + 1) mod every = (if int k mod every + 1 = every then 0 else int k mod every + 1)"
  proof -
    have "int (k + 1) mod every = (int k mod every + 1) mod every" using mod_add_left_eq[of "int k" every 1] by (simp add: add.commute)
    also have "\<dots> = (if int k mod every + 1 = every then 0 else int k mod every + 1)"
      using pos_mod_bound[OF assms, of "int k"] pos_mod_sign[OF assms, of "int k"]
      by (cases "int k mod every + 1 = every") (simp_all add: mod_pos_pos_trivial)
    finally show ?thesis .
  qed
  then show "every \<le> int k mod every + 1 \<longleftrightarrow> every dvd int (k + 1)"
    "\<not> every dvd int (k + 1) \<Longrightarrow> int (k + 1) mod every = int k mod every + 1"
    using pos_mod_bound[OF assms, of "int k"] pos_mod_sign[OF assms, of "int k"] by (auto simp: dvd_eq_mod_eq_0 split: if_splits)
qed

lemma send_all_paced:
  assumes "0 < wn_pace_every s \<Longrightarrow> wn_sent_since_pause s = int k mod wn_pace_every s"
  shows "wn_world (send_all N ds s) = paced N (wn_fd s) (wn_addr s) (wn_pace_every s) (wn_pace_us s) (k + 1) ds (wn_world s)"
  using assms
proof (induction ds arbitrary: s k)
  case (Cons d ds)
  let ?s = "snd (wii_net_send N s d)" and ?e = "wn_pace_every s"
  note m = count_up[of ?e k]
  have w: "wn_world ?s = snd (net_sendto N (wn_fd s) d (wn_addr s) WII_IOS_SOCKADDR_LEN
      (if 0 < ?e \<and> 0 < wn_pace_us s \<and> ?e dvd int (k + 1) then usleep N (wn_pace_us s) (wn_world s) else wn_world s))"
    using Cons.prems m(1) by (simp add: wii_net_send_def Let_def split: prod.split)
  have f: "wn_pace_every ?s = ?e" "wn_pace_us ?s = wn_pace_us s" "wn_fd ?s = wn_fd s" "wn_addr ?s = wn_addr s"
    by (auto simp: wii_net_send_def Let_def split: prod.split)
  have c: "wn_sent_since_pause ?s = int (k + 1) mod ?e" if "0 < ?e"
    using Cons.prems[OF that] m[OF that] that
    by (cases "?e dvd int (k + 1)") (simp_all add: wii_net_send_def Let_def split: prod.split)
  show ?case using Cons.IH[of ?s "k + 1"] c by (simp add: w f Let_def)
qed simp

text \<open>
  With the pace \<open>main\<close> sets after opening the socket, the \<open>n\<close>th datagram is preceded by a pause exactly when \<open>n\<close> is a
  multiple of the pace, failed sends counting too; a pace or a pause that is not positive means none.
\<close>

lemma sends_paced:
  assumes "wii_net_open N host port s = (0, s')"
  shows "wn_world (send_all N ds (s'\<lparr>wn_pace_every := every, wn_pace_us := us\<rparr>)) =
    paced N (wn_fd s') (wn_addr s') every us 1 ds (wn_world s')"
proof -
  have "wn_sent_since_pause s' = 0" using assms by (auto simp: wii_net_open_def WII_NET_EBADADDR_def Let_def split: prod.splits if_splits)
  then show ?thesis using send_all_paced[of "s'\<lparr>wn_pace_every := every, wn_pace_us := us\<rparr>" 0 N ds] by simp
qed

end
