(* ===== verification/SS_Dol.thy ===== *)
theory SS_Dol
  imports SS_Stdio SS_Wire
begin

text \<open>
  \<open>wii/source/wii_dol.c\<close> and the stub of \<open>wii_dol_stub.S\<close>: a DOL is read into MEM2 with a plan of copies, and the stub, from where it
  was copied, carries the plan out and jumps. Memory is a map from addresses to bytes. The stub's machine code is a parameter; its
  instructions are \<open>wii_dol_stub\<close>. Caches, the shutdown of IOS and the interrupt mask leave no state here.
\<close>

type_synonym ram = "u32 \<Rightarrow> byte"

definition store_bytes :: "u32 \<Rightarrow> byte list \<Rightarrow> ram \<Rightarrow> ram" where
  "store_bytes a bs m = (\<lambda>x. if unat (x - a) < length bs then bs ! unat (x - a) else m x)"

definition load_word :: "ram \<Rightarrow> u32 \<Rightarrow> u32" where
  "load_word m a = ss_get_u32 [m a, m (a + 1), m (a + 2), m (a + 3)]"

definition PLAN_WORDS :: nat where "PLAN_WORDS = 2 + (7 + 11 + 1) * 3"
definition DOL_HEADER_SIZE :: nat where "DOL_HEADER_SIZE = 256"

text \<open>The arena: its bounds, and a block off its start.\<close>

definition mem2_take :: "u32 \<Rightarrow> u32 \<times> u32 \<Rightarrow> u32 option \<times> u32 \<times> u32" where
  "mem2_take n arena =
     (let (lo, hi) = arena;
          lo2 = (lo + 31) AND NOT 31;
          n = (n + 31) AND NOT 31
      in if hi < n \<or> hi - n < lo2 then (None, lo, hi) else (Some lo2, lo2 + n, hi))"

text \<open>The header's words, and its sections: seven of text and eleven of data as (address, offset, size), those the loader takes.\<close>

definition header_word :: "byte list \<Rightarrow> nat \<Rightarrow> u32" where
  "header_word f k = ss_get_u32 (drop (4 * k) f)"

definition entry_point :: "byte list \<Rightarrow> u32" where "entry_point f = header_word f 56"
definition bss_address :: "byte list \<Rightarrow> u32" where "bss_address f = header_word f 54"
definition bss_size :: "byte list \<Rightarrow> u32" where "bss_size f = header_word f 55"

definition text_section :: "byte list \<Rightarrow> nat \<Rightarrow> u32 \<times> u32 \<times> u32" where
  "text_section f i = (header_word f (18 + i), header_word f i, header_word f (36 + i))"

definition data_section :: "byte list \<Rightarrow> nat \<Rightarrow> u32 \<times> u32 \<times> u32" where
  "data_section f i = (header_word f (25 + i), header_word f (7 + i), header_word f (43 + i))"

definition taken :: "u32 \<Rightarrow> u32 \<Rightarrow> bool" where
  "taken addr n \<longleftrightarrow> \<not> (n = 0 \<or> addr < 0x100)"

definition dol_sections :: "byte list \<Rightarrow> (u32 \<times> u32 \<times> u32) list" where
  "dol_sections f = filter (\<lambda>(addr, off, n). taken addr n) (map (text_section f) [0..<7] @ map (data_section f) [0..<11])"

text \<open>The plan for an image at an address: (destination, source, size), source 0 being zeroes.\<close>

definition dol_plan :: "byte list \<Rightarrow> u32 \<Rightarrow> (u32 \<times> u32 \<times> u32) list" where
  "dol_plan f at =
     map (\<lambda>(addr, off, n). (addr, at + off, n)) (dol_sections f) @
     (if taken (bss_address f) (bss_size f) then [(bss_address f, 0, bss_size f)] else [])"

definition plan_bytes :: "u32 \<Rightarrow> (u32 \<times> u32 \<times> u32) list \<Rightarrow> byte list" where
  "plan_bytes entry steps =
     ss_put_u32 entry @ ss_put_u32 (of_nat (length steps)) @
     concat (map (\<lambda>(dst, src, n). ss_put_u32 dst @ ss_put_u32 src @ ss_put_u32 n) steps)"

text \<open>The stub and the plan it is called with, \<open>None\<close> for -1; the arena, memory, the disk.\<close>

definition wii_dol_run ::
    "byte list \<Rightarrow> byte list \<Rightarrow> u32 \<times> u32 \<Rightarrow> ram \<Rightarrow> fs \<Rightarrow> (u32 \<times> u32) option \<times> (u32 \<times> u32) \<times> ram \<times> fs" where
  "wii_dol_run stub_code path arena m s =
     (let (opened, s) = open_read path s
      in case opened of
           None \<Rightarrow> (None, arena, m, s)
         | Some f \<Rightarrow>
             if length f < DOL_HEADER_SIZE then (None, arena, m, s)
             else case mem2_take (of_nat (length f)) arena of
                    (None, arena) \<Rightarrow> (None, arena, m, s)
                  | (Some at, arena) \<Rightarrow>
                      let (got, s) = fread f (length f) s;
                          m = store_bytes at got m
                      in if length got \<noteq> length f then (None, arena, m, s)
                         else let (stub, arena) = mem2_take (of_nat (length stub_code)) arena;
                                  (plan, arena) = mem2_take (of_nat (PLAN_WORDS * 4)) arena
                              in case (stub, plan) of
                                   (Some stub, Some plan) \<Rightarrow>
                                     let steps = dol_plan f at
                                     in if steps = [] then (None, arena, m, s)
                                        else (Some (stub, plan), arena,
                                              store_bytes stub stub_code (store_bytes plan (plan_bytes (entry_point f) steps) m), s)
                                 | _ \<Rightarrow> (None, arena, m, s))"

subsection \<open>The stub\<close>

text \<open>Its two inner loops, and the loop over the plan, which it reads from memory as it goes; the entry point in the end.\<close>

fun copy_loop :: "nat \<Rightarrow> u32 \<Rightarrow> u32 \<Rightarrow> ram \<Rightarrow> ram" where
  "copy_loop 0 dst src m = m"
| "copy_loop (Suc n) dst src m = copy_loop n (dst + 1) (src + 1) (m(dst := m src))"

fun fill_loop :: "nat \<Rightarrow> u32 \<Rightarrow> ram \<Rightarrow> ram" where
  "fill_loop 0 dst m = m"
| "fill_loop (Suc n) dst m = fill_loop n (dst + 1) (m(dst := 0))"

fun stub_loop :: "nat \<Rightarrow> u32 \<Rightarrow> ram \<Rightarrow> ram" where
  "stub_loop 0 at m = m"
| "stub_loop (Suc left) at m =
     (let dst = load_word m at; src = load_word m (at + 4); len = load_word m (at + 8)
      in stub_loop left (at + 12)
           (if len = 0 then m
            else if src = 0 then fill_loop (unat len) dst m else copy_loop (unat len) dst src m))"

definition wii_dol_stub :: "u32 \<Rightarrow> ram \<Rightarrow> u32 \<times> ram" where
  "wii_dol_stub plan m = (load_word m plan, stub_loop (unat (load_word m (plan + 4))) (plan + 8) m)"

subsection \<open>Regions of memory\<close>

definition inside :: "u32 \<Rightarrow> nat \<Rightarrow> u32 \<Rightarrow> bool" where
  "inside a n x \<longleftrightarrow> unat (x - a) < n"

lemma inside_iff:
  assumes "unat a + n \<le> 2 ^ 32"
  shows "inside a n x \<longleftrightarrow> unat a \<le> unat x \<and> unat x < unat a + n"
proof (cases "a \<le> x")
  case True
  then show ?thesis using unat_sub[OF True] word_le_nat_alt[of a x] by (auto simp: inside_def)
next
  case False
  then have lt: "unat x < unat a" by (simp add: word_le_nat_alt)
  have "unat (x - a) = 2 ^ 32 + unat x - unat a"
    using lt unat_sub_if'[of x a] by (simp add: word_le_nat_alt)
  then show ?thesis using assms lt by (auto simp: inside_def)
qed

lemma unat_minus_1: "unat (- 1 :: u32) = 2 ^ 32 - 1"
  by (simp add: unsigned_minus_1_eq_mask mask_eq_exp_minus_1)

lemma inside_Suc: "n < 2 ^ 32 \<Longrightarrow> inside a (Suc n) x \<longleftrightarrow> x = a \<or> inside (a + 1) n x"
proof -
  assume n: "n < 2 ^ 32"
  have e: "x - (a + 1) = (x - a) - 1" by simp
  show ?thesis
  proof (cases "x = a")
    case False
    then have "x - a \<noteq> 0" by simp
    then have "unat ((x - a) - 1) = unat (x - a) - 1" by (rule unat_minus_one)
    moreover have "unat (x - a) \<noteq> 0" using \<open>x - a \<noteq> 0\<close> by (simp only: unat_eq_0 not_False_eq_True)
    ultimately show ?thesis using False unfolding inside_def e by linarith
  qed (use n in \<open>simp add: inside_def\<close>)
qed

lemma not_inside_next: "n < 2 ^ 32 \<Longrightarrow> \<not> inside (a + 1) n a"
  by (simp add: inside_def unat_minus_1)

lemma store_bytes_at: "store_bytes a bs m x = (if inside a (length bs) x then bs ! unat (x - a) else m x)"
  by (simp add: store_bytes_def inside_def)

text \<open>A fill, and a copy to a place apart from its source.\<close>

lemma fill_loop_at: "n < 2 ^ 32 \<Longrightarrow> fill_loop n dst m x = (if inside dst n x then 0 else m x)"
proof (induction n arbitrary: dst m)
  case 0
  then show ?case by (simp add: inside_def)
next
  case (Suc n)
  then show ?case using inside_Suc[of n dst x] by simp
qed

lemma copy_loop_at:
  "n < 2 ^ 32 \<Longrightarrow> \<forall>x. inside src n x \<longrightarrow> \<not> inside dst n x \<Longrightarrow>
   copy_loop n dst src m x = (if inside dst n x then m (src + (x - dst)) else m x)"
proof (induction n arbitrary: dst src m)
  case 0
  then show ?case by (simp add: inside_def)
next
  case (Suc n)
  have n: "n < 2 ^ 32" using Suc.prems(1) by simp
  have "\<forall>x. inside (src + 1) n x \<longrightarrow> \<not> inside (dst + 1) n x"
    using Suc.prems(2) inside_Suc[OF n] by blast
  then have ih: "copy_loop (Suc n) dst src m x =
      (if inside (dst + 1) n x then (m(dst := m src)) (src + 1 + (x - (dst + 1))) else (m(dst := m src)) x)"
    unfolding copy_loop.simps by (rule Suc.IH[OF n])
  have "src + (x - dst) \<noteq> dst" if "inside (dst + 1) n x"
  proof
    assume e: "src + (x - dst) = dst"
    have "inside dst (Suc n) x" using that inside_Suc[OF n] by blast
    moreover have "dst - src = x - dst" by (subst e[symmetric]) (rule add_diff_cancel_left')
    ultimately have "inside src (Suc n) dst" by (simp only: inside_def)
    moreover have "inside dst (Suc n) dst" by (simp add: inside_def)
    ultimately show False using Suc.prems(2) by blast
  qed
  note ne = this
  have e: "src + 1 + (x - (dst + 1)) = src + (x - dst)" by simp
  show ?case
  proof (cases "x = dst")
    case True
    have "inside dst (Suc n) dst" by (simp add: inside_def)
    then show ?thesis unfolding ih unfolding True if_not_P[OF not_inside_next[OF n]] by simp
  next
    case False
    have i: "inside dst (Suc n) x \<longleftrightarrow> inside (dst + 1) n x" using inside_Suc[OF n, of dst x] False by blast
    show ?thesis
      unfolding ih e i by (rule if_cong[OF refl]) (simp_all only: fun_upd_other[OF ne] fun_upd_other[OF False] not_False_eq_True)
  qed
qed

lemma load_word_cong:
  "m' a = m a \<Longrightarrow> m' (a + 1) = m (a + 1) \<Longrightarrow> m' (a + 2) = m (a + 2) \<Longrightarrow> m' (a + 3) = m (a + 3) \<Longrightarrow> load_word m' a = load_word m a"
  by (simp add: load_word_def)

subsection \<open>Carrying out a plan\<close>

text \<open>The plan that memory holds at an address.\<close>

fun planned :: "ram \<Rightarrow> u32 \<Rightarrow> (u32 \<times> u32 \<times> u32) list \<Rightarrow> bool" where
  "planned m a [] \<longleftrightarrow> True"
| "planned m a ((dst, src, n) # steps) \<longleftrightarrow>
     load_word m a = dst \<and> load_word m (a + 4) = src \<and> load_word m (a + 8) = n \<and> planned m (a + 12) steps"

text \<open>The two memories agree from \<open>L\<close> up.\<close>

definition agree_above :: "nat \<Rightarrow> ram \<Rightarrow> ram \<Rightarrow> bool" where
  "agree_above L m m' \<longleftrightarrow> (\<forall>x. L \<le> unat x \<longrightarrow> m' x = m x)"

lemma unat_offset: "unat (a :: u32) + k < 2 ^ 32 \<Longrightarrow> unat (a + of_nat k) = unat a + k"
  using unat_add_u32[of a "of_nat k"] unat_of_nat_u32[of k] by simp

lemma load_word_above:
  assumes "agree_above L m m'" "L \<le> unat a" "unat a + 4 \<le> 2 ^ 32"
  shows "load_word m' a = load_word m a"
  using assms unat_offset[of a 1] unat_offset[of a 2] unat_offset[of a 3]
  by (intro load_word_cong) (simp_all add: agree_above_def)

lemma planned_above:
  "planned m a steps \<Longrightarrow> agree_above L m m' \<Longrightarrow> L \<le> unat a \<Longrightarrow> unat a + 12 * length steps < 2 ^ 32 \<Longrightarrow> planned m' a steps"
proof (induction m a steps rule: planned.induct)
  case (2 m a dst src n steps)
  have u: "unat (a + 4) = unat a + 4" "unat (a + 8) = unat a + 8" "unat (a + 12) = unat a + 12"
    using unat_offset[of a 4] unat_offset[of a 8] unat_offset[of a 12] 2(5) by simp_all
  show ?case
    using 2 u load_word_above[OF 2(3), of a] load_word_above[OF 2(3), of "a + 4"] load_word_above[OF 2(3), of "a + 8"] by simp
qed simp

lemma load_word_stored:
  assumes "unat a + length (us @ ss_put_u32 w @ vs) \<le> 2 ^ 32"
  shows "load_word (store_bytes a (us @ ss_put_u32 w @ vs) m) (a + of_nat (length us)) = w"
proof -
  let ?b = "a + of_nat (length us)" and ?bs = "us @ ss_put_u32 w @ vs"
  have e: "store_bytes a ?bs m (?b + of_nat i) = ss_put_u32 w ! i" if i: "i < 4" for i
  proof -
    have "(?b + of_nat i) - a = of_nat (length us + i)" by simp
    then have "unat ((?b + of_nat i) - a) = length us + i"
      using unat_of_nat_u32[of "length us + i"] assms i by (simp only:) simp
    then show ?thesis using i by (simp add: store_bytes_def nth_append)
  qed
  have "load_word (store_bytes a ?bs m) ?b = ss_get_u32 (ss_put_u32 w)"
    using e[of 0] e[of 1] e[of 2] e[of 3]
    by (simp add: load_word_def) (simp add: ss_put_u32_def)
  then show ?thesis using get_put_u32[of w "[]"] by simp
qed

lemma planned_stored:
  assumes "unat a + length (us @ concat (map (\<lambda>(dst, src, n). ss_put_u32 dst @ ss_put_u32 src @ ss_put_u32 n) steps)) \<le> 2 ^ 32"
  shows "planned (store_bytes a (us @ concat (map (\<lambda>(dst, src, n). ss_put_u32 dst @ ss_put_u32 src @ ss_put_u32 n) steps)) m)
    (a + of_nat (length us)) steps"
  using assms
proof (induction steps arbitrary: us)
  case (Cons st steps)
  obtain dst src n where st: "st = (dst, src, n)" by (cases st) auto
  let ?enc = "\<lambda>steps. concat (map (\<lambda>(dst, src, n). ss_put_u32 dst @ ss_put_u32 src @ ss_put_u32 n) steps)"
  let ?us = "us @ ss_put_u32 dst @ ss_put_u32 src @ ss_put_u32 n"
  have w: "load_word (store_bytes a (us @ ?enc (st # steps)) m) (a + of_nat (length us)) = dst"
    "load_word (store_bytes a (us @ ?enc (st # steps)) m) (a + of_nat (length us) + 4) = src"
    "load_word (store_bytes a (us @ ?enc (st # steps)) m) (a + of_nat (length us) + 8) = n"
    using load_word_stored[of a us dst "ss_put_u32 src @ ss_put_u32 n @ ?enc steps" m]
      load_word_stored[of a "us @ ss_put_u32 dst" src "ss_put_u32 n @ ?enc steps" m]
      load_word_stored[of a "us @ ss_put_u32 dst @ ss_put_u32 src" n "?enc steps" m] Cons.prems
    by (simp_all add: st add.assoc)
  have "planned (store_bytes a (?us @ ?enc steps) m) (a + of_nat (length ?us)) steps"
    by (rule Cons.IH) (use Cons.prems in \<open>simp add: st\<close>)
  then show ?case using w by (simp add: st add.assoc)
qed simp

text \<open>What a list of steps makes of a byte: the last one that covers it decides.\<close>

definition step_at :: "ram \<Rightarrow> (u32 \<times> u32 \<times> u32) list \<Rightarrow> u32 \<Rightarrow> byte" where
  "step_at m steps x =
     (case find (\<lambda>(dst, src, n). inside dst (unat n) x) (rev steps) of
        None \<Rightarrow> m x
      | Some (dst, src, n) \<Rightarrow> if src = 0 then 0 else m (src + (x - dst)))"

lemma find_append: "find P (xs @ ys) = (case find P xs of None \<Rightarrow> find P ys | Some x \<Rightarrow> Some x)"
  by (induction xs) simp_all

lemma find_found: "find P xs = Some y \<Longrightarrow> y \<in> set xs \<and> P y"
  by (induction xs) (auto split: if_splits)

text \<open>Steps whose targets lie below \<open>L\<close> and whose sources lie above.\<close>

definition steps_below :: "nat \<Rightarrow> (u32 \<times> u32 \<times> u32) list \<Rightarrow> bool" where
  "steps_below L steps \<longleftrightarrow> L \<le> 2 ^ 32 \<and> (\<forall>(dst, src, n) \<in> set steps. unat dst + unat n \<le> L \<and>
     (src = 0 \<or> L \<le> unat src \<and> unat src + unat n \<le> 2 ^ 32))"

lemma stub_loop_at:
  assumes "planned m a steps" "steps_below L steps" "L \<le> unat a" "unat a + 12 * length steps < 2 ^ 32"
  shows "stub_loop (length steps) a m = step_at m steps"
  using assms
proof (induction steps arbitrary: m a)
  case (Cons st steps)
  obtain dst src n where st: "st = (dst, src, n)" by (cases st) auto
  note prems = Cons.prems[unfolded st]
  let ?m = "if n = 0 then m else if src = 0 then fill_loop (unat n) dst m else copy_loop (unat n) dst src m"
  have b: "unat dst + unat n \<le> L" "src = 0 \<or> L \<le> unat src \<and> unat src + unat n \<le> 2 ^ 32" "L \<le> 2 ^ 32" "steps_below L steps"
    using prems(2) by (auto simp: steps_below_def)
  have ind: "inside dst (unat n) x \<longleftrightarrow> unat dst \<le> unat x \<and> unat x < unat dst + unat n" for x
    using inside_iff[of dst "unat n"] b by simp
  have ins: "src \<noteq> 0 \<Longrightarrow> inside src (unat n) x \<longleftrightarrow> unat src \<le> unat x \<and> unat x < unat src + unat n" for x
    using inside_iff[of src "unat n"] b by simp
  have apart: "src \<noteq> 0 \<Longrightarrow> \<forall>x. inside src (unat n) x \<longrightarrow> \<not> inside dst (unat n) x" using ind ins b by auto
  have m: "?m x = (if inside dst (unat n) x then if src = 0 then 0 else m (src + (x - dst)) else m x)" for x
    using fill_loop_at[OF unat_u32_lt, of n dst m x] copy_loop_at[OF unat_u32_lt, of src n dst m x] apart
    by (auto simp: inside_def)
  have ab: "agree_above L m ?m" using m ind b(1) by (auto simp: agree_above_def)
  have u: "unat (a + 12) = unat a + 12" using unat_offset[of a 12] prems(4) by simp
  have p: "planned ?m (a + 12) steps" using planned_above[of m "a + 12" steps L ?m] prems(1,3,4) ab u by simp
  have ih: "stub_loop (length steps) (a + 12) ?m = step_at ?m steps" using Cons.IH[OF p b(4)] prems(3,4) u by simp
  have "step_at ?m steps x = step_at m (st # steps) x" for x
  proof (cases "find (\<lambda>(dst, src, n). inside dst (unat n) x) (rev steps)")
    case None
    then show ?thesis using m[of x] by (simp add: step_at_def find_append st)
  next
    case (Some t)
    obtain d s k where t: "t = (d, s, k)" by (cases t) auto
    have i: "(d, s, k) \<in> set steps" "inside d (unat k) x" using find_found[OF Some] t by simp_all
    have "?m (s + (x - d)) = m (s + (x - d))" if "s \<noteq> 0"
    proof -
      have s: "L \<le> unat s" "unat s + unat k \<le> 2 ^ 32" using b(4) i(1) that by (auto simp: steps_below_def)
      have "unat (x - d) < unat k" using i(2) by (simp add: inside_def)
      then have "unat (s + (x - d)) = unat s + unat (x - d)" using s by (intro unat_add_u32) simp
      then show ?thesis using ab s(1) by (simp add: agree_above_def)
    qed
    then show ?thesis using Some t by (simp add: step_at_def find_append st)
  qed
  then show ?case using ih prems(1) by (simp add: st fun_eq_iff)
qed (simp add: step_at_def fun_eq_iff)

subsection \<open>The loader\<close>

lemma rounded_up:
  fixes n :: u32
  assumes "unat n + 31 < 2 ^ 32"
  shows "unat n \<le> unat ((n + 31) AND NOT 31)" "unat ((n + 31) AND NOT 31) \<le> unat n + 31"
proof -
  have "(n + 31) AND NOT 31 = push_bit 5 (drop_bit 5 (n + 31))"
  proof (rule bit_word_eqI)
    fix k assume "k < LENGTH(32)"
    have "bit (31 :: u32) k \<longleftrightarrow> k < 5" using bit_mask_iff[of 5 k, where 'a = u32] by (auto simp: mask_eq_exp_minus_1)
    then show "bit ((n + 31) AND NOT 31) k \<longleftrightarrow> bit (push_bit 5 (drop_bit 5 (n + 31))) k"
      using \<open>k < LENGTH(32)\<close> by (simp only: bit_and_iff bit_not_iff bit_push_bit_iff bit_drop_bit_eq comp_def) auto
  qed
  then have "unat ((n + 31) AND NOT 31) = unat (push_bit 5 (drop_bit 5 (n + 31)))" by (rule arg_cong)
  also have "\<dots> = take_bit 32 (unat (n + 31) div 32 * 32)"
    by (subst unsigned_push_bit_eq, subst unat_drop_bit_eq) (simp add: drop_bit_eq_div push_bit_eq_mult)
  also have "\<dots> = unat (n + 31) div 32 * 32"
    using div_times_less_eq_dividend[of "unat (n + 31)" 32] unat_u32_lt[of "n + 31"] by (simp add: take_bit_eq_mod)
  finally have e: "unat ((n + 31) AND NOT 31) = unat (n + 31) div 32 * 32" .
  have "unat (n + 31) = unat n + 31" using unat_add_u32[of n 31] assms by simp
  then show "unat n \<le> unat ((n + 31) AND NOT 31)" "unat ((n + 31) AND NOT 31) \<le> unat n + 31"
    unfolding e by linarith+
qed

lemma mem2_take_within:
  assumes "mem2_take n (lo, hi) = (Some a, arena)" "unat lo + 31 < 2 ^ 32" "unat n + 31 < 2 ^ 32"
  obtains lo' where "arena = (lo', hi)" "unat lo \<le> unat a" "unat a + unat n \<le> unat lo'" "unat lo' \<le> unat hi"
proof -
  let ?n = "(n + 31) AND NOT 31" and ?lo = "(lo + 31) AND NOT 31"
  have c: "\<not> hi < ?n" "\<not> hi - ?n < ?lo" "a = ?lo" "arena = (?lo + ?n, hi)"
    using assms(1) by (auto simp: mem2_take_def Let_def split: if_splits)
  have "unat (hi - ?n) = unat hi - unat ?n" using c(1) by (intro unat_sub_u32) simp
  then have h: "unat ?lo + unat ?n \<le> unat hi" using c(1,2) by (simp add: word_le_nat_alt word_less_nat_alt)
  then have "unat (?lo + ?n) = unat ?lo + unat ?n"
    by (intro unat_add_u32 order_le_less_trans[OF h unat_u32_lt])
  then show ?thesis using that[of "?lo + ?n"] c rounded_up[OF assms(2)] rounded_up[OF assms(3)] h by simp
qed

lemma length_plan_bytes: "length (plan_bytes e steps) = 8 + 12 * length steps"
  by (induction steps) (auto simp: plan_bytes_def)

text \<open>The plan has room: there are at most nineteen steps.\<close>

lemma length_dol_plan: "length (dol_plan f at) \<le> 19" "length (plan_bytes e (dol_plan f at)) \<le> PLAN_WORDS * 4"
proof -
  have "length (dol_sections f) \<le> 18"
    using length_filter_le[of "\<lambda>(addr, off, n). taken addr n" "map (text_section f) [0..<7] @ map (data_section f) [0..<11]"]
    by (simp add: dol_sections_def)
  then show "length (dol_plan f at) \<le> 19" by (simp add: dol_plan_def)
  then show "length (plan_bytes e (dol_plan f at)) \<le> PLAN_WORDS * 4" by (simp add: length_plan_bytes PLAN_WORDS_def)
qed

text \<open>What a successful call has put where: image, stub and plan, one above the other in the arena.\<close>

lemma dol_run_staged:
  assumes run: "wii_dol_run code path (lo, hi) m s = (Some (stub, plan), arena, m1, s')"
    and f: "fs_disk s path = Some f" and len: "length f + 31 < 2 ^ 32" "length code + 31 < 2 ^ 32"
    and room: "unat hi + 31 < 2 ^ 32" "unat lo \<le> unat hi"
  obtains at where "m1 = store_bytes stub code (store_bytes plan (plan_bytes (entry_point f) (dol_plan f at)) (store_bytes at f m))"
    "unat lo \<le> unat at" "unat at + length f \<le> unat stub" "unat stub + length code \<le> unat plan" "unat plan + 236 \<le> unat hi"
    "dol_plan f at \<noteq> []" "DOL_HEADER_SIZE \<le> length f"
proof -
  obtain opened s1 where o: "open_read path s = (opened, s1)" by fastforce
  have "opened \<noteq> None" using run by (cases opened) (auto simp: wii_dol_run_def o)
  then have o2: "opened = Some f" using open_read_through(3)[OF o, of "\<lambda>_. True"] f by auto
  have n: "\<not> length f < DOL_HEADER_SIZE" using run by (auto simp: wii_dol_run_def o o2 split: if_splits)
  obtain a1 ar1 where 1: "mem2_take (of_nat (length f)) (lo, hi) = (a1, ar1)" by (metis surj_pair)
  obtain at where a1: "a1 = Some at" using run n by (auto simp: wii_dol_run_def o o2 1 split: if_splits option.splits)
  obtain got s2 where g: "fread f (length f) s1 = (got, s2)" by fastforce
  obtain k where k: "got = take k f" using fread_through(3)[OF g, of "\<lambda>_. True"] by auto
  have gf: "length got = length f" using run n by (auto simp: wii_dol_run_def o o2 1 a1 g Let_def split: if_splits)
  then have got: "got = f" using k by auto
  obtain a2 ar2 where 2: "mem2_take (of_nat (length code)) ar1 = (a2, ar2)" by (metis surj_pair)
  obtain a3 ar3 where 3: "mem2_take (of_nat (PLAN_WORDS * 4)) ar2 = (a3, ar3)" by (metis surj_pair)
  have r: "a2 = Some stub" "a3 = Some plan" "dol_plan f at \<noteq> []"
    "m1 = store_bytes stub code (store_bytes plan (plan_bytes (entry_point f) (dol_plan f at)) (store_bytes at f m))"
    using run n by (auto simp: wii_dol_run_def o o2 1 a1 g got 2 3 3[simplified] Let_def split: if_splits option.splits)
  have u: "unat (of_nat (length f) :: u32) = length f" "unat (of_nat (length code) :: u32) = length code"
    "unat (of_nat (PLAN_WORDS * 4) :: u32) = 236"
    using len by (simp_all add: unat_of_nat_u32 PLAN_WORDS_def)
  obtain lo1 where l1: "ar1 = (lo1, hi)" "unat lo \<le> unat at" "unat at + length f \<le> unat lo1" "unat lo1 \<le> unat hi"
    using mem2_take_within[OF 1[unfolded a1]] room len u by auto
  obtain lo2 where l2: "ar2 = (lo2, hi)" "unat lo1 \<le> unat stub" "unat stub + length code \<le> unat lo2" "unat lo2 \<le> unat hi"
    using mem2_take_within[OF 2[unfolded r l1(1)]] room len u l1(4) by auto
  obtain lo3 where l3: "ar3 = (lo3, hi)" "unat lo2 \<le> unat plan" "unat plan + 236 \<le> unat lo3" "unat lo3 \<le> unat hi"
    by (rule mem2_take_within[OF 3[unfolded r l2(1)]]) (use room u l2(4) in auto)
  show ?thesis using that[of at] r(3,4) l1 l2 l3 n by simp
qed

text \<open>The memory a DOL file describes, over the memory there was: cleared bss, else the last section that covers the address.\<close>

definition dol_image :: "byte list \<Rightarrow> ram \<Rightarrow> ram" where
  "dol_image f m x =
     (if taken (bss_address f) (bss_size f) \<and> inside (bss_address f) (unat (bss_size f)) x then 0
      else case find (\<lambda>(addr, off, n). inside addr (unat n) x) (rev (dol_sections f)) of
             None \<Rightarrow> m x
           | Some (addr, off, n) \<Rightarrow> f ! (unat off + unat (x - addr)))"

text \<open>A DOL whose sections lie in the file and go to addresses below the arena.\<close>

definition dol_fits :: "byte list \<Rightarrow> u32 \<Rightarrow> bool" where
  "dol_fits f lo \<longleftrightarrow>
     (\<forall>(addr, off, n) \<in> set (dol_sections f). unat addr + unat n \<le> unat lo \<and> unat off + unat n \<le> length f) \<and>
     (taken (bss_address f) (bss_size f) \<longrightarrow> unat (bss_address f) + unat (bss_size f) \<le> unat lo)"

lemma find_map: "find P (map g xs) = map_option g (find (\<lambda>x. P (g x)) xs)"
  by (induction xs) simp_all

lemma dol_plan_source:
  assumes "(addr, off, n) \<in> set (dol_sections f)" "dol_fits f lo" "unat lo \<le> unat at" "unat at + length f < 2 ^ 32"
  shows "unat (at + off) = unat at + unat off" "at + off \<noteq> 0" "unat addr + unat n \<le> unat lo" "unat off + unat n \<le> length f" "n \<noteq> 0"
proof -
  have "n \<noteq> 0" using assms(1) by (auto simp: dol_sections_def taken_def)
  moreover have "unat addr + unat n \<le> unat lo" "unat off + unat n \<le> length f" using assms(1,2) by (auto simp: dol_fits_def)
  ultimately have d: "unat addr + unat n \<le> unat lo" "unat off + unat n \<le> length f" "n \<noteq> 0" by simp_all
  then show u: "unat (at + off) = unat at + unat off" using assms(4) by (intro unat_add_u32) simp
  have "0 < unat n" using d(3) by (simp add: unat_gt_0)
  then have "0 < unat (at + off)" using u d(1) assms(3) by simp
  then show "at + off \<noteq> 0" by auto
  show "unat addr + unat n \<le> unat lo" "unat off + unat n \<le> length f" "n \<noteq> 0" by (rule d)+
qed

lemma dol_plan_below:
  assumes "dol_fits f lo" "unat lo \<le> unat at" "unat at + length f < 2 ^ 32"
  shows "steps_below (unat lo) (dol_plan f at)"
  using dol_plan_source[OF _ assms] unat_u32_lt[of lo] assms
  by (fastforce simp: steps_below_def dol_plan_def dol_fits_def)

lemma step_at_image:
  assumes "dol_fits f lo" "unat lo \<le> unat at" "unat at + length f < 2 ^ 32"
    and im: "\<And>k. k < length f \<Longrightarrow> m (at + of_nat k) = f ! k"
  shows "step_at m (dol_plan f at) = dol_image f m"
proof
  fix x
  let ?P = "\<lambda>(addr, off, n). inside addr (unat n) x" and ?b = "taken (bss_address f) (bss_size f)"
  let ?g = "\<lambda>(addr, off, n). (addr, at + off, n :: u32)"
  have c: "?P (?g s) = ?P s" for s by (cases s) simp
  have "find ?P (rev (map ?g (dol_sections f))) = map_option ?g (find ?P (rev (dol_sections f)))"
    by (simp only: rev_map find_map c)
  moreover have "m (at + off + (x - addr)) = f ! (unat off + unat (x - addr)) \<and> at + off \<noteq> 0"
    if "find ?P (rev (dol_sections f)) = Some (addr, off, n)" for addr off n
  proof -
    have i: "(addr, off, n) \<in> set (dol_sections f)" "unat (x - addr) < unat n" using find_found[OF that] by (simp_all add: inside_def)
    note s = dol_plan_source[OF i(1) assms(1-3)]
    have k: "unat off + unat (x - addr) < length f" using s(4) i(2) by simp
    have "of_nat (unat off + unat (x - addr)) = off + (x - addr)" by simp
    then show ?thesis using im[OF k] s(2) by (simp add: add.assoc)
  qed
  ultimately show "step_at m (dol_plan f at) x = dol_image f m x"
    by (cases "?b \<and> inside (bss_address f) (unat (bss_size f)) x"; cases "find ?P (rev (dol_sections f))")
      (auto simp: step_at_def dol_image_def dol_plan_def find_append)
qed

text \<open>
  C23: a DOL the loader accepts, whose sections lie in the file and go below the arena: when the stub has carried out
  the plan, memory is what the DOL describes, the address jumped to is its entry point, and the stub's own code is still what was
  copied there.
\<close>

theorem dol_chainload:
  assumes "wii_dol_run code path (lo, hi) m s = (Some (stub, plan), arena, m1, s')"
    and "fs_disk s path = Some f" "length f + 31 < 2 ^ 32" "length code + 31 < 2 ^ 32" "unat hi + 31 < 2 ^ 32" "unat lo \<le> unat hi"
    and "dol_fits f lo"
  shows "wii_dol_stub plan m1 = (entry_point f, dol_image f m1) \<and>
    (\<forall>k < length code. dol_image f m1 (stub + of_nat k) = code ! k)"
proof (intro conjI allI impI)
  obtain at where st: "m1 = store_bytes stub code (store_bytes plan (plan_bytes (entry_point f) (dol_plan f at)) (store_bytes at f m))"
    "unat lo \<le> unat at" "unat at + length f \<le> unat stub" "unat stub + length code \<le> unat plan" "unat plan + 236 \<le> unat hi"
    by (rule dol_run_staged[OF assms(1-6)])
  let ?steps = "dol_plan f at" and ?pb = "plan_bytes (entry_point f) (dol_plan f at)"
  let ?mp = "store_bytes plan ?pb (store_bytes at f m)"
  have bounds: "unat at + length f < 2 ^ 32" "unat plan + 236 < 2 ^ 32" using st(3-5) unat_u32_lt[of hi] by linarith+
  have k: "length ?steps \<le> 19" "length ?pb \<le> 236" using length_dol_plan(1)[of f at] by (simp_all add: length_plan_bytes)
  have ins: "inside stub (length code) x \<longleftrightarrow> unat stub \<le> unat x \<and> unat x < unat stub + length code"
    "inside plan (length ?pb) x \<longleftrightarrow> unat plan \<le> unat x \<and> unat x < unat plan + length ?pb"
    "inside at (length f) x \<longleftrightarrow> unat at \<le> unat x \<and> unat x < unat at + length f" for x
    using st(3,4) bounds k by (intro inside_iff; linarith)+
  have up: "agree_above (unat plan) ?mp m1" unfolding st(1) agree_above_def store_bytes_at[of stub] ins using st(4) by auto
  have pb: "?pb = [] @ ss_put_u32 (entry_point f) @ drop 4 ?pb" "?pb = ss_put_u32 (entry_point f) @ ss_put_u32 (of_nat (length ?steps)) @ drop 8 ?pb"
    by (simp_all add: plan_bytes_def)
  have w: "load_word ?mp (plan + of_nat 0) = entry_point f" "load_word ?mp (plan + of_nat 4) = of_nat (length ?steps)"
    using load_word_stored[of plan "[]" "entry_point f" "drop 4 ?pb" "store_bytes at f m"]
      load_word_stored[of plan "ss_put_u32 (entry_point f)" "of_nat (length ?steps)" "drop 8 ?pb" "store_bytes at f m"] bounds k
    unfolding pb[symmetric] by simp_all
  have p: "planned ?mp (plan + of_nat 8) ?steps"
    using planned_stored[of plan "ss_put_u32 (entry_point f) @ ss_put_u32 (of_nat (length ?steps))" ?steps "store_bytes at f m"] bounds k
    by (simp add: plan_bytes_def)
  have u: "unat (plan + of_nat 4) = unat plan + 4" "unat (plan + of_nat 8) = unat plan + 8"
    using unat_offset[of plan 4] unat_offset[of plan 8] bounds by simp_all
  have w1: "load_word m1 plan = entry_point f" "load_word m1 (plan + of_nat 4) = of_nat (length ?steps)" "planned m1 (plan + of_nat 8) ?steps"
    using load_word_above[OF up, of plan] load_word_above[OF up, of "plan + of_nat 4"] planned_above[OF p up] w u bounds k by simp_all
  have im: "m1 (at + of_nat j) = f ! j" if "j < length f" for j
  proof -
    have v: "unat (at + of_nat j) = unat at + j" using unat_offset[of at j] bounds that by simp
    have "unat (of_nat j :: u32) = j" using unat_of_nat_u32[of j] that assms(3) by simp
    then show ?thesis using v that st(3,4) unfolding st(1) store_bytes_at ins by simp
  qed
  have fin: "step_at m1 ?steps = dol_image f m1" by (rule step_at_image[OF assms(7) st(2) bounds(1) im])
  have b: "steps_below (unat lo) ?steps" by (rule dol_plan_below[OF assms(7) st(2) bounds(1)])
  have n: "unat (of_nat (length ?steps) :: u32) = length ?steps" using k by (intro unat_of_nat_u32) simp
  have "stub_loop (length ?steps) (plan + of_nat 8) m1 = step_at m1 ?steps"
    by (rule stub_loop_at[OF w1(3) b]) (use u st bounds k in simp_all)
  then show "wii_dol_stub plan m1 = (entry_point f, dol_image f m1)"
    using w1 n fin by (simp add: wii_dol_stub_def)
  fix k assume kc: "k < length code"
  have v: "unat (stub + of_nat k) = unat stub + k" using unat_offset[of stub k] st(4) bounds kc by simp
  have "unat (of_nat k :: u32) = k" using unat_of_nat_u32[of k] kc assms(4) by simp
  then have "m1 (stub + of_nat k) = code ! k" using v kc unfolding st(1) store_bytes_at[of stub] ins by simp
  moreover have "step_at m1 ?steps (stub + of_nat k) = m1 (stub + of_nat k)"
  proof -
    have "find (\<lambda>(dst, src, n). inside dst (unat n) (stub + of_nat k)) (rev ?steps) = None"
      using b v st(2,3) inside_iff unat_u32_lt[of lo] by (fastforce simp: find_None_iff steps_below_def)
    then show ?thesis by (simp add: step_at_def)
  qed
  ultimately show "dol_image f m1 (stub + of_nat k) = code ! k" using fin by simp
qed

text \<open>The witness's DOL: four bytes for 0x80004000.\<close>

definition demo_header :: "u32 list" where
  "demo_header = [256] @ replicate 17 0 @ [0x80004000] @ replicate 17 0 @ [4] @ replicate 19 0 @ [0x80004000] @ replicate 7 0"

definition demo_dol :: "byte list" where
  "demo_dol = concat (map ss_put_u32 demo_header) @ [1, 2, 3, 4]"

definition demo_fs :: fs where
  "demo_fs = \<lparr>fs_disk = [ascii ''boot.dol'' \<mapsto> demo_dol], fs_luck = (\<lambda>_ _. Works), fs_calls = 0, fs_past = []\<rparr>"

lemma demo_words: "k < 64 \<Longrightarrow> header_word demo_dol k = demo_header ! k"
  unfolding header_word_def demo_dol_def mult.commute[of 4 k] by (rule u32.get_table) (simp add: demo_header_def)

lemma demo_dol_facts:
  "dol_sections demo_dol = [(0x80004000, 256, 4)]" "bss_size demo_dol = 0" "entry_point demo_dol = 0x80004000"
  "length demo_dol = 260" "demo_dol ! 257 = 2"
proof -
  have "dol_sections demo_dol = filter (\<lambda>(addr, off, n). taken addr n)
      (map (\<lambda>i. (demo_header ! (18 + i), demo_header ! i, demo_header ! (36 + i))) [0..<7] @
       map (\<lambda>i. (demo_header ! (25 + i), demo_header ! (7 + i), demo_header ! (43 + i))) [0..<11])"
    unfolding dol_sections_def
    by (intro arg_cong2[where f = "\<lambda>a b. filter (\<lambda>(addr, off, n). taken addr n) (a @ b)"] map_cong)
      (simp_all add: text_section_def data_section_def demo_words)
  also have "\<dots> = [(0x80004000, 256, 4)]" by code_simp
  finally show "dol_sections demo_dol = [(0x80004000, 256, 4)]" .
  have "demo_header ! 55 = 0" "demo_header ! 56 = 0x80004000" by code_simp+
  then show "bss_size demo_dol = 0" "entry_point demo_dol = 0x80004000" by (simp_all add: bss_size_def entry_point_def demo_words)
  have l: "length (concat (map ss_put_u32 demo_header)) = 256" using u32.length_table[of demo_header] by (simp add: demo_header_def)
  then show "length demo_dol = 260" "demo_dol ! 257 = 2" by (simp_all add: demo_dol_def nth_append)
qed

theorem dol_chainload_witness:
  "\<exists>stub plan arena m1 s'. wii_dol_run [9] (ascii ''boot.dol'') (0x90000000, 0x93400000) (\<lambda>_. 0) demo_fs = (Some (stub, plan), arena, m1, s') \<and>
     fst (wii_dol_stub plan m1) = 0x80004000 \<and> snd (wii_dol_stub plan m1) 0x80004001 = 2 \<and> snd (wii_dol_stub plan m1) stub = 9"
proof -
  have fits: "dol_fits demo_dol 0x90000000" by (simp add: dol_fits_def demo_dol_facts taken_def)
  have t: "mem2_take 260 (0x90000000, 0x93400000) = (Some 0x90000000, 0x90000120, 0x93400000)"
    "mem2_take 1 (0x90000120, 0x93400000) = (Some 0x90000120, 0x90000140, 0x93400000)"
    "mem2_take 236 (0x90000140, 0x93400000) = (Some 0x90000140, 0x90000240, 0x93400000)"
    by code_simp+
  have p: "dol_plan demo_dol 0x90000000 \<noteq> []" by (simp add: dol_plan_def demo_dol_facts)
  obtain m1 s' where r: "wii_dol_run [9] (ascii ''boot.dol'') (0x90000000, 0x93400000) (\<lambda>_. 0) demo_fs =
      (Some (0x90000120, 0x90000140), (0x90000240, 0x93400000), m1, s')"
    using t p by (simp add: wii_dol_run_def open_read_def fread_def next_luck_def demo_fs_def demo_dol_facts DOL_HEADER_SIZE_def
        PLAN_WORDS_def Let_def)
  have d: "fs_disk demo_fs (ascii ''boot.dol'') = Some demo_dol" by (simp add: demo_fs_def)
  note w = dol_chainload[OF r d _ _ _ _ fits]
  have "dol_image demo_dol m1 0x80004001 = 2"
    by (simp add: dol_image_def demo_dol_facts taken_def inside_def)
  then show ?thesis using r w by (auto simp: demo_dol_facts)
qed

end
