(* ===== verification/SS_Main.thy ===== *)
theory SS_Main
  imports SS_Sync SS_WiiNet SS_Dol
begin

text \<open>
  The rest of the launcher's \<open>main.c\<close>: the pass over all cards, and \<open>main\<close> itself, from the SD card to the jump into Nintendont.
  What the machine gives is an \<open>env\<close>, and for \<open>main\<close> a \<open>machine\<close>: libogc's network and SD card, the pads, the listing of a
  directory, the contents of fresh memory.
\<close>

record env =
  en_console :: console
  en_listing :: "byte list \<Rightarrow> disk \<Rightarrow> byte list list option"
  en_heap :: "nat \<Rightarrow> byte"
  en_heap_words :: "nat \<Rightarrow> u32"

record 'x machine = env +
  mc_fat :: bool
  mc_net :: "'x driver"
  mc_ticks :: u64
  mc_stub :: "byte list"

subsection \<open>All cards\<close>

text \<open>The loop: one card, then the state file. \<open>exit\<close> and a fault end it.\<close>

fun sync_games :: "console \<Rightarrow> wii_config \<Rightarrow> byte list list \<Rightarrow> 'x launcher \<Rightarrow> (sync_end \<times> 'x launcher) option" where
  "sync_games C cfg [] la = Some (Sync_done, la)"
| "sync_games C cfg (stem # stems) la =
     (case sync_one C cfg stem la of
        None \<Rightarrow> None
      | Some (e, la) \<Rightarrow>
          if e = Sync_left \<or> e = Sync_fault then Some (e, la)
          else let (ok, s) = state_save_file (la_cards la) WII_STATE_PATH (la_fs la)
               in sync_games C cfg stems (la\<lparr>la_fs := s\<rparr>))"

text \<open>The four buffers, allocated before the loop and freed after it; a buffer that is not there is the empty list.\<close>

definition with_buffers :: "env \<Rightarrow> 'x launcher \<Rightarrow> 'x launcher" where
  "with_buffers E la =
     la\<lparr>la_card := map (en_heap E) [0..<CARD_BUFFER_BYTES], la_bitmap := map (en_heap E) [0..<BITMAP_BYTES],
        la_fp := map (en_heap_words E) [0..<FP_ENTRIES], la_dirty := map (en_heap E) [0..<BITMAP_BYTES]\<rparr>"

definition without_buffers :: "'x launcher \<Rightarrow> 'x launcher" where
  "without_buffers la = la\<lparr>la_card := [], la_bitmap := [], la_fp := [], la_dirty := []\<rparr>"

definition sync_all :: "env \<Rightarrow> wii_config \<Rightarrow> 'x launcher \<Rightarrow> (sync_end \<times> 'x launcher) option" where
  "sync_all E cfg la =
     (case wii_saves_scan (en_listing E (w_saves_dir cfg) (fs_disk (la_fs la))) WII_MAX_CARDS of
        None \<Rightarrow> Some (Sync_done, la)
      | Some stems \<Rightarrow>
          if stems = [] then Some (Sync_done, la)
          else let (ok1, s) = attempt C_malloc (la_fs la);
                   (ok2, s) = attempt C_malloc s;
                   (ok3, s) = attempt C_malloc s;
                   (ok4, s) = attempt C_malloc s;
                   la = la\<lparr>la_fs := s\<rparr>
               in if \<not> (ok1 \<and> ok2 \<and> ok3 \<and> ok4) then Some (Sync_done, la)
                  else map_option (\<lambda>(e, la). (e, without_buffers la)) (sync_games (en_console E) cfg stems (with_buffers E la)))"

subsection \<open>main\<close>

text \<open>How it ends: it returns a status, \<open>exit\<close> is called, the stub is entered with a plan, or memory was written out of bounds.\<close>

datatype main_end = Main_returns int | Main_left | Main_jumps u32 u32 | Main_fault

record 'x wii =
  wi_fs :: fs
  wi_scan :: nat
  wi_drc :: drc
  wi_arena :: "u32 \<times> u32"
  wi_ram :: ram
  wi_world :: 'x

text \<open>A prompt that A continues: what is done then, unless the program left.\<close>

definition after_button ::
    "'x machine \<Rightarrow> 'x wii \<Rightarrow> ('x wii \<Rightarrow> (main_end \<times> 'x wii) option) \<Rightarrow> (main_end \<times> 'x wii) option" where
  "after_button M w act =
     (case wait_for_button (en_console M) (wi_scan w) (wi_drc w) of
        None \<Rightarrow> None
      | Some (pressed, scan, drc) \<Rightarrow>
          let w = w\<lparr>wi_scan := scan, wi_drc := drc\<rparr> in if pressed then act w else Some (Main_left, w))"

text \<open>Nintendont, and what \<open>main\<close> does when it cannot be started.\<close>

definition boot ::
    "'x machine \<Rightarrow> wii_config \<Rightarrow> ('x wii \<Rightarrow> (main_end \<times> 'x wii) option) \<Rightarrow> 'x wii \<Rightarrow> (main_end \<times> 'x wii) option" where
  "boot M cfg failed w =
     (let (jump, arena, ram, s) = wii_dol_run (mc_stub M) (w_nintendont cfg) (wi_arena w) (wi_ram w) (wi_fs w);
          w = w\<lparr>wi_arena := arena, wi_ram := ram, wi_fs := s\<rparr>
      in case jump of None \<Rightarrow> failed w | Some (stub, plan) \<Rightarrow> Some (Main_jumps stub plan, w))"

text \<open>The client, once the socket is open; \<open>seed\<close> is the timebase.\<close>

definition launcher_client :: "'x machine \<Rightarrow> wii_config \<Rightarrow> 'x wii_socket \<Rightarrow> 'x wii_socket ss_client" where
  "launcher_client M cfg sock =
     (let device_id = (if w_device_id cfg = 0 then 0x5749490000000001 else w_device_id cfg);
          sock = sock\<lparr>wn_pace_every := w_pace_every cfg, wn_pace_us := w_pace_us cfg\<rparr>
      in (ss_client_init (wii_transport (mc_net M) sock) (w_psk cfg) device_id (Some (ss_put_u64 (mc_ticks M))))
           \<lparr>cl_timeout_ms := w_timeout_ms cfg, cl_max_rounds := w_rounds cfg, cl_pull_window := w_pull_window cfg\<rparr>)"

text \<open>From the greeting on: the files of the last game are merged, then every card is synchronised.\<close>

definition sync_session :: "'x machine \<Rightarrow> wii_config \<Rightarrow> 'x wii_socket ss_client \<Rightarrow> 'x wii \<Rightarrow> (main_end \<times> 'x wii) option" where
  "sync_session M cfg c w =
     (let (cards, s) = wii_state_load WII_STATE_PATH (wi_fs w);
          (cards, merged, s) = wii_state_merge_runtime cards WII_RUNTIME_PATH s;
          s = (case merged of None \<Rightarrow> s | Some n \<Rightarrow> if 0 < n then snd (state_save_file cards WII_STATE_PATH s) else s);
          (_, s) = wii_fp_merge_runtime WII_FP_PATH WII_FP_RUNTIME_PATH s;
          la = \<lparr>la_client = c, la_cards = cards, la_fs = s, la_card = [], la_bitmap = [], la_fp = [], la_dirty = [],
                la_scan = wi_scan w, la_drc = wi_drc w\<rparr>
      in case sync_all (env.truncate M) cfg la of
           None \<Rightarrow> None
         | Some (e, la) \<Rightarrow>
             let w = w\<lparr>wi_fs := la_fs la, wi_scan := la_scan la, wi_drc := la_drc la\<rparr>;
                 sock = tp_ctx (transport (la_client la))
             in if e = Sync_left then Some (Main_left, w\<lparr>wi_world := wn_world sock\<rparr>)
                else if e = Sync_fault then Some (Main_fault, w\<lparr>wi_world := wn_world sock\<rparr>)
                else let w = w\<lparr>wi_world := wn_world (wii_net_close (mc_net M) sock)\<rparr>;
                         launch = boot M cfg (\<lambda>w. after_button M w (\<lambda>w. Some (Main_returns 1, w)))
                     in if w_autoboot cfg then launch w else after_button M w launch)"

text \<open>\<open>sock0\<close> is what the socket on the stack holds before it is opened.\<close>

definition launcher_main :: "'x machine \<Rightarrow> 'x wii_socket \<Rightarrow> 'x wii \<Rightarrow> (main_end \<times> 'x wii) option" where
  "launcher_main M sock0 w =
     (let w = w\<lparr>wi_drc := snd (WiiDRC_Init (pad_mem (cn_pads (en_console M) (wi_scan w))) (wi_drc w))\<rparr>;
          give_up = (\<lambda>w. after_button M w (\<lambda>w. Some (Main_returns 1, w)));
          boot_only = (\<lambda>cfg. boot M cfg (\<lambda>w. Some (Main_returns 1, w)))
      in if \<not> mc_fat M then give_up w
         else let (error, cfg, s) = wii_config_load WII_CFG_PATH 128 (wi_fs w);
                  w = w\<lparr>wi_fs := s\<rparr>
              in if error \<noteq> None then give_up w
                 else let (rc, ip, x) = wii_net_init (mc_net M) 16 (wi_world w);
                          w = w\<lparr>wi_world := x\<rparr>
                      in if rc \<noteq> 0 then after_button M w (boot_only cfg)
                         else let (rc, sock) = wii_net_open (mc_net M) (w_server cfg) (w_port cfg) (sock0\<lparr>wn_world := wi_world w\<rparr>);
                                  w = w\<lparr>wi_world := wn_world sock\<rparr>
                              in if rc \<noteq> 0 then after_button M w (boot_only cfg)
                                 else let (rc, answer, c) = ss_hello (launcher_client M cfg sock);
                                          w = w\<lparr>wi_world := wn_world (tp_ctx (transport c))\<rparr>
                                      in if rc \<noteq> SS_OK
                                         then after_button M w (\<lambda>w.
                                                boot_only cfg (w\<lparr>wi_world := wn_world (wii_net_close (mc_net M) (tp_ctx (transport c)))\<rparr>))
                                         else sync_session M cfg c w)"

end
