(* ===== verification/SS_SyncClaims.thy ===== *)
theory SS_SyncClaims
  imports SS_Main
begin

text \<open>
  What the launcher promises: a card with local play is never lost, the state file tells what is on the SD card, a conflict is
  put to the person and falls back to the safe answer, an unreachable server leaves the SD card alone.
\<close>

subsection \<open>One card, from start to end\<close>

text \<open>The stages of \<open>sync_one\<close>.\<close>

lemma sync_one_cases:
  assumes "sync_one C cfg stem la = Some (e, la')"
  obtains (stop) "sync_identify cfg stem la = (Inl e, la')"
  | (pull) g n i v la1 where "sync_identify cfg stem la = (Inr (g, n, i, v), la1)" "k_known (la_cards la1 ! i)"
      "digests_match (sha256 (take n (la_card la1))) (k_sha256 (la_cards la1 ! i))" "sync_pull cfg stem g i v la1 = Some (e, la')"
  | (pushstop) g n i v la1 where "sync_identify cfg stem la = (Inr (g, n, i, v), la1)"
      "sync_push C cfg stem g n i (sha256 (take n (la_card la1))) la1 = Some (Inl e, la')"
  | (pushpull) g n i v la1 v2 la2 where "sync_identify cfg stem la = (Inr (g, n, i, v), la1)"
      "sync_push C cfg stem g n i (sha256 (take n (la_card la1))) la1 = Some (Inr v2, la2)" "sync_pull cfg stem g i v2 la2 = Some (e, la')"
proof -
  obtain r la1 where id: "sync_identify cfg stem la = (r, la1)" by fastforce
  show ?thesis
  proof (cases r)
    case (Inl x)
    then show ?thesis using stop assms id by (simp add: sync_one_def)
  next
    case (Inr y)
    obtain g n i v where y: "y = (g, n, i, v)" by (metis prod_cases4)
    let ?d = "sha256 (take n (la_card la1))"
    show ?thesis
    proof (cases "k_known (la_cards la1 ! i) \<and> digests_match ?d (k_sha256 (la_cards la1 ! i))")
      case True
      then show ?thesis using pull[of g n i v la1] assms id Inr y by (simp add: sync_one_def)
    next
      case False
      note f = this
      obtain q la2 where p: "sync_push C cfg stem g n i ?d la1 = Some (q, la2)"
        using assms id Inr y False by (auto simp: sync_one_def split: option.splits)
      show ?thesis
      proof (cases q)
        case (Inl x)
        then show ?thesis using pushstop[of g n i v la1] assms id Inr y False p by (simp add: sync_one_def)
      next
        case (Inr v2)
        have "sync_pull cfg stem g i v2 la2 = Some (e, la')"
          using assms p False by (simp add: sync_one_def id \<open>r = Inr y\<close> y Inr)
        then show ?thesis using pushpull[of g n i v la1 v2 la2] id \<open>r = Inr y\<close> y p Inr by simp
      qed
    qed
  qed
qed

lemma only_keeps: "only ps s s' \<Longrightarrow> q \<notin> ps \<Longrightarrow> fs_disk s q = Some f \<Longrightarrow> through (\<lambda>d. d q = Some f) s s'"
  by (erule through_mono) (simp add: apart_def)


text \<open>A console nobody touches, scanned once a second.\<close>

definition still_console :: console where
  "still_console = \<lparr>cn_masks = \<lparr>m_wii_a = 1, m_wii_b = 2, m_wii_home = 4, m_gcn_a = 1, m_gcn_b = 2, m_gcn_start = 4\<rparr>,
     cn_pads = (\<lambda>_. \<lparr>pad_mem = (\<lambda>_. 0), pad_wii = (\<lambda>_. 0), pad_gcn = (\<lambda>_. 0)\<rparr>), cn_elapsed = (\<lambda>s n. 1000 * int (n - s))\<rparr>"

text \<open>The pass the witnesses look at: a card of one byte, an empty table, a server that answers everything with one ACK.\<close>

definition echo_launcher :: "event list launcher" where
  "echo_launcher = \<lparr>la_client = echo_client example_ack [], la_cards = [], la_fs = sd_card, la_card = [0], la_bitmap = [0], la_fp = [],
     la_dirty = [0], la_scan = 0, la_drc = drc_at_start\<rparr>"

lemma echo_head:
  assumes "echoing c h p" "h_msg_type h = SS_ACK" "0 < cl_max_rounds c" "length g = 6"
  shows "\<exists>c1. ss_head c g s = (SS_OK, Some (h_card_version h, h_total_size h), c1) \<and> echoing c1 h p \<and> cl_max_rounds c1 = cl_max_rounds c"
proof -
  let ?h = "ss_header_init SS_PULL_REQ (cl_device_id c) g s"
  have wf: "wf_message (?h, replicate 8 0)" using assms(4) by (simp add: wf_message_def ss_header_init_def)
  obtain c1 where 1: "control_exchange c ?h (replicate 8 0) = (Inr (h, p), c1)" "echoing c1 h p" "follows c c1 1"
    by (rule echoing_exchange[OF assms(1) wf assms(3)])
  then show ?thesis using assms(2) by (auto simp: ss_head_def SS_ACK_def SS_NACK_def follows_def)
qed

lemma echo_sync: "\<exists>la'. sync_one C wii_config_defaults (ascii ''GALE01'') echo_launcher = Some (Sync_done, la')"
proof -
  let ?c = "echo_client example_ack []" and ?g = "ascii ''GALE01''" and ?cfg = "wii_config_defaults"
  have ack: "h_msg_type example_ack = SS_ACK" "h_card_version example_ack = 5" "h_total_size example_ack = 0"
    by (simp_all add: example_ack_def ss_header_init_def)
  obtain c1 where c1: "ss_head ?c ?g 0 = (SS_OK, Some (5, 0), c1)" "echoing c1 example_ack []" "cl_max_rounds c1 = 8"
    using echo_head[OF example_echo ack(1), of ?g 0] ack by (auto simp: echo_client_fields)
  have path: "card_path (w_saves_dir ?cfg) ?g '''' = card_path (ascii ''sd:/saves'') ?g ''''"
    by (simp add: wii_config_defaults_def WII_SAVES_DIR_def)
  obtain s where rd: "wii_saves_read (w_saves_dir ?cfg) ?g [0] sd_card = (Some 1, [1], s)"
    by (simp add: wii_saves_read_def path open_read_def fread_def next_luck_def sd_card_def blit_def Let_def)
  obtain new where st: "wii_state_get [] ?g 0 = ([new], Some 0)" "\<not> k_known new" "k_version new = 0"
    by (simp add: wii_state_get_def WII_MAX_CARDS_def)
  have id: "sync_identify ?cfg ?g echo_launcher =
      (Inr (?g, 1, 0, 5), echo_launcher\<lparr>la_client := c1, la_cards := [new], la_fs := s, la_card := [1]\<rparr>)"
    using c1(1) rd st(1) by (simp add: sync_identify_def echo_launcher_def wii_saves_game_id_def WII_GAME_ID_LEN_def)
  let ?la = "echo_launcher\<lparr>la_client := c1, la_cards := [new], la_fs := s, la_card := [1]\<rparr>"
  have one: "ss_chunk_count 1 = 1" by (simp add: ss_chunk_count_def SS_MAX_PAYLOAD_def)
  obtain bm' c2 where p: "push_once c1 ?g 0 [1] 1 0 1 None [0] = Some (SS_OK, Some 5, bm', c2)"
    using push_accepts_ack[OF c1(2) ack(1), of 1 "[0]" None ?g 0 "[1]" 0 1] c1(3) ack(2) one by auto
  have "\<exists>la2. sync_push C ?cfg ?g ?g 1 0 (sha256 [1]) ?la = Some (Inr 5, la2) \<and> k_version (la_cards la2 ! 0) = 5"
    using st(2,3) p
    by (simp add: sync_push_def echo_launcher_def ss_push_delta_def agree_def Let_def split: prod.split)
  then obtain la2 where "sync_push C ?cfg ?g ?g 1 0 (sha256 [1]) ?la = Some (Inr 5, la2)" "k_version (la_cards la2 ! 0) = 5" by blast
  then show ?thesis using id st(2) by (simp add: sync_one_def sync_pull_def)
qed


text \<open>
  C10: whatever happens to a card, the table of cards stays well formed, and an entry that changes then tells the truth: it
  is unknown, or its digest is that of what the card's file now holds. Closing and renaming are to work.
\<close>

theorem sync_state_true:
  fixes la la' :: "'x launcher"
  assumes "wf_state (la_cards la)" "sync_one C cfg stem la = Some (e, la')"
    and "reliable C_close (la_fs la)" "reliable C_rename (la_fs la)" "length (w_saves_dir cfg) + length stem \<le> 240"
  shows "wf_state (la_cards la') \<and> (\<forall>c \<in> set (la_cards la'). c \<in> set (la_cards la) \<or> \<not> k_known c \<or>
    (\<exists>data. fs_disk (la_fs la') (card_file cfg stem) = Some data \<and> k_sha256 c = sha256 data))"
proof -
  let ?card = "card_file cfg stem"
  define good where "good = (\<lambda>la2 :: 'x launcher. wf_state (la_cards la2) \<and> (\<forall>c \<in> set (la_cards la2). c \<in> set (la_cards la) \<or> \<not> k_known c \<or>
    (\<exists>data. fs_disk (la_fs la2) ?card = Some data \<and> k_sha256 c = sha256 data)))"
  note pa = paths_apart[OF assms(5)]
  have same: "wf_state (cs[i := (cs ! i)\<lparr>k_version := v, k_known := b, k_sha256 := d\<rparr>]) = wf_state cs" for cs i v b d
  proof -
    have "map (\<lambda>c. (k_game_id c, k_slot c)) (cs[i := (cs ! i)\<lparr>k_version := v, k_known := b, k_sha256 := d\<rparr>]) =
        map (\<lambda>c. (k_game_id c, k_slot c)) cs"
      by (intro nth_equalityI) (auto simp: nth_update_at)
    then show ?thesis by (simp add: wf_state_def)
  qed
  have ident: "good la1" if "sync_identify cfg stem la = (r, la1)" for r la1
    using sync_identify_keeps(4)[OF that] sync_identify_keeps(5)[OF that assms(1)] by (auto simp: good_def)
  have rel1: "reliable c (la_fs la1) = reliable c (la_fs la)" if "sync_identify cfg stem la = (r, la1)" for r la1 c
    by (rule through_reliable[OF sync_identify_keeps(1)[OF that]])
  have entry: "set (cs[i := x]) \<subseteq> insert x (set cs)" for cs :: "wii_card_state list" and i x by (rule set_update_subset_insert)
  have pulled: "good la'" if g: "good la2" "sync_pull cfg stem g i v la2 = Some (e, la')"
      "\<And>c. c \<in> set (la_cards la2) \<Longrightarrow> c \<in> set (la_cards la) \<or> \<not> k_known c \<or> \<not> k_version (la_cards la2 ! i) < v"
      "reliable C_close (la_fs la2)" "reliable C_rename (la_fs la2)" for la2 g i v
  proof (cases "k_version (la_cards la2 ! i) < v")
    case False
    then show ?thesis using sync_pull_ends(2)[OF g(2)] g(1) by simp
  next
    case True
    then show ?thesis
      using sync_pull_ends(3)[OF g(2) assms(5) g(4,5)] g(1,3) same entry unfolding good_def by fastforce
  qed
  from assms(2) have "good la'"
  proof (cases rule: sync_one_cases)
    case stop
    then show ?thesis by (rule ident)
  next
    case (pull g n i v la1)
    have "\<And>c. c \<in> set (la_cards la1) \<Longrightarrow> c \<in> set (la_cards la) \<or> \<not> k_known c" using sync_identify_keeps(4)[OF pull(1)] by auto
    then show ?thesis using pulled[OF ident[OF pull(1)] pull(4)] rel1[OF pull(1)] assms(3,4) by blast
  next
    case (pushstop g n i v la1)
    have c: "reliable C_close (la_fs la1)" using rel1[OF pushstop(1)] assms(3) by simp
    have old: "\<And>c. c \<in> set (la_cards la1) \<Longrightarrow> c \<in> set (la_cards la) \<or> \<not> k_known c" using sync_identify_keeps(4)[OF pushstop(1)] by auto
    then show ?thesis using sync_push_ends(2)[OF pushstop(2) c refl] ident[OF pushstop(1)] by (auto simp: good_def)
  next
    case (pushpull g n i v la1 v2 la2)
    note k = sync_identify_keeps[OF pushpull(1)]
    have c: "reliable C_close (la_fs la1)" using rel1[OF pushpull(1)] assms(3) by simp
    have old: "\<And>c. c \<in> set (la_cards la1) \<Longrightarrow> c \<in> set (la_cards la) \<or> \<not> k_known c" using k(4) by auto
    note p = sync_push_ends[OF pushpull(2) c]
    have rel2: "reliable c2 (la_fs la2) = reliable c2 (la_fs la)" for c2 using through_reliable[OF p(1)] rel1[OF pushpull(1)] by simp
    obtain f where f: "fs_disk (la_fs la) ?card = Some f" "take n (la_card la1) = f" "i < length (la_cards la1)" using k(6) by blast
    have g1: "wf_state (la_cards la1)" using ident[OF pushpull(1)] by (simp add: good_def)
    have g2: "good la2" and new: "\<And>c. c \<in> set (la_cards la2) \<Longrightarrow> c \<in> set (la_cards la) \<or> \<not> k_known c \<or> \<not> k_version (la_cards la2 ! i) < v2"
      using p(3)[OF refl]
    proof (atomize (full), elim disjE conjE)
      assume e: "la_cards la2 = la_cards la1"
      then show "good la2 \<and> (\<forall>c. c \<in> set (la_cards la2) \<longrightarrow> c \<in> set (la_cards la) \<or> \<not> k_known c \<or> \<not> k_version (la_cards la2 ! i) < v2)"
        using old g1 by (auto simp: good_def)
    next
      assume a: "la_cards la2 = (la_cards la1)[i := (la_cards la1 ! i)\<lparr>k_version := v2, k_known := True,
          k_sha256 := sha256 (take n (la_card la1))\<rparr>]" "only table_files (la_fs la1) (la_fs la2)"
      have "fs_disk (la_fs la2) ?card = Some f" using only_other[OF a(2) pa(1)] k(2) f(1) by simp
      then show "good la2 \<and> (\<forall>c. c \<in> set (la_cards la2) \<longrightarrow> c \<in> set (la_cards la) \<or> \<not> k_known c \<or> \<not> k_version (la_cards la2 ! i) < v2)"
        using a(1) old g1 same f entry unfolding good_def by fastforce
    qed
    show ?thesis by (rule pulled[OF g2 pushpull(3) new]) (use rel2 assms(3,4) in simp_all)
  qed
  then show ?thesis by (simp add: good_def)
qed

theorem sync_state_true_witness:
  "\<exists>la'. sync_one still_console wii_config_defaults (ascii ''GALE01'') echo_launcher = Some (Sync_done, la') \<and> wf_state (la_cards la')"
proof -
  obtain la' where s: "sync_one still_console wii_config_defaults (ascii ''GALE01'') echo_launcher = Some (Sync_done, la')" using echo_sync by blast
  have "wf_state (la_cards echo_launcher)" by (simp add: echo_launcher_def wf_state_def)
  then show ?thesis
    using sync_state_true[OF _ s] s
    by (auto simp: echo_launcher_def sd_card_def reliable_def wii_config_defaults_def WII_SAVES_DIR_def ascii_def)
qed

subsection \<open>The question\<close>

text \<open>The GamePad after \<open>k\<close> scans, and what scan \<open>k\<close> finds pressed.\<close>

primrec scanned :: "console \<Rightarrow> nat \<Rightarrow> drc \<Rightarrow> nat \<Rightarrow> drc" where
  "scanned C n D 0 = D"
| "scanned C n D (Suc k) = snd (buttons_down (cn_masks C) (cn_pads C (n + k)) (scanned C n D k))"

definition pressed_at :: "console \<Rightarrow> nat \<Rightarrow> drc \<Rightarrow> nat \<Rightarrow> u32" where
  "pressed_at C n D k = fst (buttons_down (cn_masks C) (cn_pads C (n + k)) (scanned C n D k))"

definition any_button :: "u32 \<Rightarrow> bool" where
  "any_button b \<longleftrightarrow> b AND BTN_A \<noteq> 0 \<or> b AND BTN_B \<noteq> 0 \<or> b AND BTN_EXIT \<noteq> 0"

lemma scanned_later: "scanned C (Suc n) (snd (buttons_down (cn_masks C) (cn_pads C n) D)) k = scanned C n D (Suc k)"
  by (induction k) simp_all

lemma pressed_later:
  "pressed_at C (Suc n) (snd (buttons_down (cn_masks C) (cn_pads C n) D)) k = pressed_at C n D (Suc k)"
  using scanned_later[of C n D k] by (simp add: pressed_at_def)

lemma c_div_up: "e \<ge> t \<Longrightarrow> c_div (t - e + 999) 1000 \<le> 0"
  by (auto simp: c_div_def)

lemma ask_loop_ends:
  assumes "0 < tm" "tm \<le> cn_elapsed C start (n + j)"
  shows "\<exists>a k D'. ask_loop C tm start n D = Some (a, n + k + 1, D') \<and> k \<le> j \<and> (\<forall>i < k. \<not> any_button (pressed_at C n D i)) \<and>
    (a = Ans_A \<longleftrightarrow> pressed_at C n D k AND BTN_A \<noteq> 0) \<and> (a = Ans_exit \<longrightarrow> pressed_at C n D k AND BTN_EXIT \<noteq> 0)"
  using assms(2)
proof (induction j arbitrary: n D)
  case 0
  obtain b D1 where b: "buttons_down (cn_masks C) (cn_pads C n) D = (b, D1)" by fastforce
  have p: "pressed_at C n D 0 = b" by (simp add: pressed_at_def b)
  have e: "\<exists>a. ask_loop C tm start n D = Some (a, n + 1, D1) \<and> (a = Ans_A \<longleftrightarrow> b AND BTN_A \<noteq> 0) \<and> (a = Ans_exit \<longrightarrow> b AND BTN_EXIT \<noteq> 0)"
    using 0 c_div_up[of tm "cn_elapsed C start n"] assms(1) by (subst ask_loop.simps) (simp add: b)
  obtain a where "ask_loop C tm start n D = Some (a, n + 1, D1)" "(a = Ans_A) = (b AND BTN_A \<noteq> 0)" "a = Ans_exit \<longrightarrow> b AND BTN_EXIT \<noteq> 0"
    using e by blast
  then show ?case using p by (intro exI[of _ a] exI[of _ 0] exI[of _ D1]) simp
next
  case (Suc j)
  obtain b D1 where b: "buttons_down (cn_masks C) (cn_pads C n) D = (b, D1)" by fastforce
  have p: "pressed_at C n D 0 = b" by (simp add: pressed_at_def b)
  show ?case
  proof (cases "any_button b \<or> c_div (tm - cn_elapsed C start n + 999) 1000 \<le> 0")
    case True
    then have "\<exists>a. ask_loop C tm start n D = Some (a, n + 1, D1) \<and> (a = Ans_A \<longleftrightarrow> b AND BTN_A \<noteq> 0) \<and> (a = Ans_exit \<longrightarrow> b AND BTN_EXIT \<noteq> 0)"
      using assms(1) by (subst ask_loop.simps) (auto simp: b any_button_def)
    then obtain a where "ask_loop C tm start n D = Some (a, n + 1, D1)" "(a = Ans_A) = (b AND BTN_A \<noteq> 0)"
      "a = Ans_exit \<longrightarrow> b AND BTN_EXIT \<noteq> 0" by blast
    then show ?thesis using p by (intro exI[of _ a] exI[of _ 0] exI[of _ D1]) simp
  next
    case False
    have q: "pressed_at C (Suc n) D1 i = pressed_at C n D (Suc i)" for i using pressed_later[of C n D i] by (simp add: b)
    obtain a k D' where r: "ask_loop C tm start (Suc n) D1 = Some (a, Suc n + k + 1, D')" "k \<le> j"
      "\<forall>i < k. \<not> any_button (pressed_at C (Suc n) D1 i)" "(a = Ans_A) = (pressed_at C (Suc n) D1 k AND BTN_A \<noteq> 0)"
      "a = Ans_exit \<longrightarrow> pressed_at C (Suc n) D1 k AND BTN_EXIT \<noteq> 0"
      using Suc.IH[of "Suc n" D1] Suc.prems by auto
    have "ask_loop C tm start n D = Some (a, n + Suc k + 1, D')"
      using False assms(1) r(1) by (subst ask_loop.simps) (simp add: b any_button_def)
    moreover have "\<not> any_button (pressed_at C n D i)" if "i < Suc k" for i
      using that r(3) q False p by (cases i) auto
    ultimately show ?thesis using r(2,4,5) q by (intro exI[of _ a] exI[of _ "Suc k"] exI[of _ D']) auto
  qed
qed

text \<open>
  C26: with a time limit the question is always answered, at the latest at the scan by which the limit has passed, and not
  after a scan that found a button; the answer is A, which replaces the card, only when that scan found A pressed.
\<close>

theorem ask_times_out:
  assumes "0 < tm" "tm \<le> cn_elapsed C n (n + j)"
  shows "\<exists>a k D'. ask_a_or_b C tm n D = Some (a, n + k + 1, D') \<and> k \<le> j \<and> (\<forall>i < k. \<not> any_button (pressed_at C n D i)) \<and>
    (a = Ans_A \<longleftrightarrow> pressed_at C n D k AND BTN_A \<noteq> 0) \<and> (a = Ans_exit \<longrightarrow> pressed_at C n D k AND BTN_EXIT \<noteq> 0)"
  using ask_loop_ends[OF assms] by (simp add: ask_a_or_b_def)

lemma still_pads: "buttons_down (cn_masks still_console) (cn_pads still_console n) drc_at_start = (0, drc_at_start)"
  by (simp add: buttons_down_def WiiDRC_Inited_def still_console_def drc_at_start_def press_def upt_rec)

theorem ask_times_out_witness:
  "\<exists>a k D'. ask_a_or_b still_console 30000 0 drc_at_start = Some (a, k + 1, D') \<and> k \<le> 30 \<and> a \<noteq> Ans_A"
proof -
  have s: "scanned still_console 0 drc_at_start k = drc_at_start" for k by (induction k) (simp_all add: still_pads)
  have "pressed_at still_console 0 drc_at_start k = 0" for k using still_pads[of k] by (simp add: pressed_at_def s)
  then show ?thesis using ask_times_out[of 30000 still_console 0 30 drc_at_start] by (auto simp: still_console_def)
qed

subsection \<open>main\<close>

lemma dol_run_reads:
  assumes "wii_dol_run code path arena m s = (jump, arena', m', s')"
  shows "fs_disk s' = fs_disk s"
proof -
  obtain fo s1 where o: "open_read path s = (fo, s1)" by fastforce
  have d: "fs_disk s1 = fs_disk s" by (rule open_read_through(2)[OF o TrueI])
  show ?thesis
  proof (cases fo)
    case (Some f)
    obtain got s2 where g: "fread f (length f) s1 = (got, s2)" by fastforce
    have "fs_disk s2 = fs_disk s" using fread_through(2)[OF g TrueI] d by simp
    then show ?thesis using assms d Some g by (auto simp: wii_dol_run_def o Let_def split: if_splits option.splits prod.splits)
  qed (use assms d in \<open>simp add: wii_dol_run_def o\<close>)
qed

lemma config_load_reads:
  assumes "wii_config_load path cap s = (err, cfg, s')"
  shows "fs_disk s' = fs_disk s"
proof -
  obtain fo s1 where o: "open_read path s = (fo, s1)" by fastforce
  have d: "fs_disk s1 = fs_disk s" by (rule open_read_through(2)[OF o TrueI])
  show ?thesis
  proof (cases fo)
    case (Some f)
    obtain got s2 where g: "fread f (length f) s1 = (got, s2)" by fastforce
    have "fs_disk s2 = fs_disk s" using fread_through(2)[OF g TrueI] d by simp
    then show ?thesis using assms d Some g by (auto simp: wii_config_load_def o Let_def split: if_splits)
  qed (use assms d in \<open>simp add: wii_config_load_def o\<close>)
qed

text \<open>An ending that leaves the disk as it was: the program left, gave up with status 1, or went into Nintendont.\<close>

definition quiet_end :: "disk \<Rightarrow> (main_end \<times> 'x wii) option \<Rightarrow> bool" where
  "quiet_end d r \<longleftrightarrow> (\<forall>e w. r = Some (e, w) \<longrightarrow> fs_disk (wi_fs w) = d \<and>
     (e = Main_left \<or> e = Main_returns 1 \<or> (\<exists>stub plan. e = Main_jumps stub plan)))"

lemma quiet_returns: "fs_disk (wi_fs w) = d \<Longrightarrow> quiet_end d (Some (Main_returns 1, w))"
  by (simp add: quiet_end_def)

lemma quiet_button:
  assumes "fs_disk (wi_fs w) = d" "\<And>w2. fs_disk (wi_fs w2) = d \<Longrightarrow> quiet_end d (act w2)"
  shows "quiet_end d (after_button M w act)"
proof (cases "wait_for_button (en_console M) (wi_scan w) (wi_drc w)")
  case (Some r)
  obtain p n D where r: "r = (p, n, D)" by (cases r) auto
  have "quiet_end d (act (w\<lparr>wi_scan := n, wi_drc := D\<rparr>))" by (rule assms(2)) (simp add: assms(1))
  then show ?thesis using assms(1) by (simp add: after_button_def Some r Let_def quiet_end_def)
qed (simp add: after_button_def quiet_end_def)

lemma quiet_boot:
  assumes "fs_disk (wi_fs w) = d" "\<And>w2. fs_disk (wi_fs w2) = d \<Longrightarrow> quiet_end d (failed w2)"
  shows "quiet_end d (boot M cfg failed w)"
proof -
  obtain jump arena m s where r: "wii_dol_run (mc_stub M) (w_nintendont cfg) (wi_arena w) (wi_ram w) (wi_fs w) = (jump, arena, m, s)"
    by (metis prod_cases4)
  have d: "fs_disk s = d" using dol_run_reads[OF r] assms(1) by simp
  then have "quiet_end d (failed (w\<lparr>wi_arena := arena, wi_ram := m, wi_fs := s\<rparr>))" by (intro assms(2)) simp
  then show ?thesis using d by (auto simp: boot_def r Let_def quiet_end_def split: option.split)
qed

text \<open>
  C14: as long as the server does not answer the greeting, whatever is wrong with the SD card, the configuration, the
  network or Nintendont, nothing on the SD card is changed: \<open>main\<close> ends by leaving, with status 1, or in Nintendont.
\<close>

theorem main_offline_untouched:
  assumes "\<And>cfg sock. fst (ss_hello (launcher_client M cfg sock)) \<noteq> SS_OK" "launcher_main M sock0 w = Some (e, w')"
  shows "fs_disk (wi_fs w') = fs_disk (wi_fs w) \<and> (e = Main_left \<or> e = Main_returns 1 \<or> (\<exists>stub plan. e = Main_jumps stub plan))"
proof -
  let ?d = "fs_disk (wi_fs w)"
  obtain err cfg s where c: "wii_config_load WII_CFG_PATH 128 (wi_fs w) = (err, cfg, s)" by (metis prod_cases3)
  have s: "fs_disk s = ?d" by (rule config_load_reads[OF c])
  let ?one = "\<lambda>w. Some (Main_returns 1, w)"
  have gu: "quiet_end ?d (after_button M w2 ?one)" if "fs_disk (wi_fs w2) = ?d" for w2
    by (rule quiet_button[OF that quiet_returns])
  have bo: "quiet_end ?d (boot M cfg ?one w2)" if "fs_disk (wi_fs w2) = ?d" for w2
    by (rule quiet_boot[OF that quiet_returns])
  have ab: "quiet_end ?d (after_button M w2 (boot M cfg ?one))" if "fs_disk (wi_fs w2) = ?d" for w2
    by (rule quiet_button[OF that bo])
  have ac: "quiet_end ?d (after_button M w2 (\<lambda>w. boot M cfg ?one (w\<lparr>wi_world := x\<rparr>)))" if "fs_disk (wi_fs w2) = ?d" for w2 x
    by (rule quiet_button[OF that bo]) simp
  have "quiet_end ?d (launcher_main M sock0 w)"
    using s gu ab ac assms(1)
    by (simp add: launcher_main_def c Let_def split: prod.split) (metis fst_conv)
  then show ?thesis using assms(2) by (simp add: quiet_end_def)
qed

text \<open>
  A machine on which everything works but the sending of a datagram, and somebody holds A. Its SD card has a configuration, and no
  Nintendont.
\<close>

definition dead_driver :: "unit driver" where
  "dead_driver = \<lparr>if_config = (\<lambda>_. (0, [], ())), net_init = (\<lambda>_. (0, ())), net_socket = (\<lambda>_ _ _ _. (3, ())), net_close_fd = (\<lambda>_ _. ()),
     net_sendto = (\<lambda>_ _ _ _ _. (- 1, ())), net_poll = (\<lambda>_ _ _ _. (0, 0, ())), net_recvfrom = (\<lambda>_ _ _. (- 1, [], ())),
     usleep = (\<lambda>_ _. ()), inet_addr = (\<lambda>_. 0x01020304)\<rparr>"

definition dead_machine :: "unit machine" where
  "dead_machine = \<lparr>en_console = still_console\<lparr>cn_pads := (\<lambda>_. \<lparr>pad_mem = (\<lambda>_. 0), pad_wii = (\<lambda>_. 1), pad_gcn = (\<lambda>_. 0)\<rparr>)\<rparr>,
     en_listing = (\<lambda>_ _. None), en_heap = (\<lambda>_. 0), en_heap_words = (\<lambda>_. 0), mc_fat = True, mc_net = dead_driver, mc_ticks = 0, mc_stub = []\<rparr>"

definition dead_start :: "unit wii" where
  "dead_start = \<lparr>wi_fs = sd_card\<lparr>fs_disk := [WII_CFG_PATH \<mapsto> two_lines (ascii ''1.2.3.4'') (ascii ''key'')]\<rparr>, wi_scan = 0,
     wi_drc = drc_at_start, wi_arena = (0x90000000, 0x93000000), wi_ram = (\<lambda>_. 0), wi_world = ()\<rparr>"

definition dead_socket :: "unit wii_socket" where
  "dead_socket = \<lparr>wn_fd = 0, wn_addr = \<lparr>sin_len = 0, sin_family = 0, sin_port = 0, sin_addr = 0\<rparr>, wn_last_err = 0, wn_last_op = 0,
     wn_pace_every = 0, wn_pace_us = 0, wn_sent_since_pause = 0, wn_world = ()\<rparr>"

lemma dead_hello: "fst (ss_hello (launcher_client dead_machine cfg sock)) \<noteq> SS_OK"
proof -
  let ?c = "launcher_client dead_machine cfg sock"
  have e: "fst (emit c h p) \<noteq> SS_OK" if "transport c = wii_transport dead_driver s" for c :: "unit wii_socket ss_client" and h p s
    using that
    by (auto simp: emit_def next_nonce_def call_send_def wii_transport_def wii_net_send_def dead_driver_def Let_def split: option.split prod.split)
  have t: "transport ?c = wii_transport dead_driver (sock\<lparr>wn_pace_every := w_pace_every cfg, wn_pace_us := w_pace_us cfg\<rparr>)"
    by (simp add: launcher_client_def ss_client_init_def dead_machine_def Let_def)
  have "\<exists>rc. fst (exchange_attempts n ?c h p) = Inl rc \<and> rc \<noteq> SS_OK" for n h p
    using e[OF t, of h p] by (cases n) (auto split: prod.split)
  then obtain rc where "fst (control_exchange ?c (ss_header_init SS_HELLO (cl_device_id ?c) [] 0) []) = Inl rc" "rc \<noteq> SS_OK"
    unfolding control_exchange_def by blast
  then show ?thesis by (auto simp: ss_hello_def split: prod.split)
qed

lemma dead_button: "wait_for_button (en_console dead_machine) n drc_at_start = Some (True, n + 1, drc_at_start)"
  by (subst wait_for_button.simps)
    (simp add: buttons_down_def WiiDRC_Inited_def dead_machine_def still_console_def drc_at_start_def press_def upt_rec BTN_A_def BTN_B_def BTN_EXIT_def)

theorem main_offline_untouched_witness:
  "\<exists>w'. launcher_main dead_machine dead_socket dead_start = Some (Main_returns 1, w') \<and> fs_disk (wi_fs w') = fs_disk (wi_fs dead_start)"
proof -
  have v: "plain_value (ascii ''1.2.3.4'')" "plain_value (ascii ''key'')" by (simp_all add: plain_value_def ascii_def ssl_is_space_def)
  let ?cfg = "wii_config_defaults\<lparr>w_server := ascii ''1.2.3.4'', w_psk := ascii ''key''\<rparr>"
  obtain s where s: "wii_config_load WII_CFG_PATH 128 (wi_fs dead_start) = (None, ?cfg, s)"
    using load_two_lines[OF v, of "wi_fs dead_start" WII_CFG_PATH 128] by (auto simp: dead_start_def sd_card_def reliable_def)
  have d: "fs_disk s (w_nintendont ?cfg) = None"
    using config_load_reads[OF s] by (simp add: dead_start_def wii_config_defaults_def WII_CFG_PATH_def ascii_def)
  have o: "fst (open_read (w_nintendont wii_config_defaults) s) = None" using d by (simp add: open_read_def next_luck_def)
  obtain s2 where b: "wii_dol_run stub (w_nintendont wii_config_defaults) arena m s = (None, arena, m, s2)" for stub arena m
    using o by (cases "open_read (w_nintendont wii_config_defaults) s") (auto simp: wii_dol_run_def)
  have i: "WiiDRC_Init (\<lambda>_. 0) drc_at_start = (False, drc_at_start)" by (rule no_pad) (simp_all add: word_at_def ss_get_u32_def)
  have f: "mc_fat dead_machine" "mc_net dead_machine = dead_driver" "pad_mem (cn_pads (en_console dead_machine) n) = (\<lambda>_. 0)" for n
    by (simp_all add: dead_machine_def)
  have st: "wi_drc dead_start = drc_at_start" "wi_world dead_start = ()" by (simp_all add: dead_start_def)
  have n: "wii_net_init dead_driver 16 () = (0, [], ())" by (simp add: wii_net_init_def dead_driver_def)
  obtain sock where op: "wii_net_open dead_driver host (w_port wii_config_defaults) (dead_socket\<lparr>wn_world := ()\<rparr>) = (0, sock)" for host
    by (simp add: wii_net_open_def dead_driver_def Let_def)
  obtain rc answer c where h: "ss_hello (launcher_client dead_machine ?cfg sock) = (rc, answer, c)" by (metis prod_cases3)
  have rc: "rc \<noteq> SS_OK" using dead_hello[of ?cfg sock] h by simp
  have "\<exists>w'. launcher_main dead_machine dead_socket dead_start = Some (Main_returns 1, w')"
    using f(1) rc by (simp add: launcher_main_def f(2,3) i st s n op h after_button_def dead_button boot_def b Let_def)
  then show ?thesis using main_offline_untouched[OF dead_hello] by blast
qed

end
