(* ===== verification/SS_Tables.thy ===== *)
theory SS_Tables
  imports SS_Handoff SS_SyncClaims
begin

text \<open>
  The launcher's tables tell the truth: every record of the store is the fingerprints of an image with the digest beside them,
  through every pass of \<open>sync_one\<close> and every moment of it; so a delta is what changed since the image last agreed.
\<close>

subsection \<open>How much a pull writes\<close>

text \<open>The caller's buffer keeps its size \<open>m\<close>, and a card that was taken on fits it, whatever is received.\<close>

definition roomy :: "nat \<Rightarrow> pull_state \<Rightarrow> bool" where
  "roomy m st \<longleftrightarrow> length (p_out st) = m \<and> (p_initialised st \<longrightarrow> unat (p_total st) \<le> m)"

fun burst_roomy :: "nat \<Rightarrow> burst_end \<Rightarrow> bool" where
  "burst_roomy m (BurstReturn rc st) = (rc \<noteq> SS_OK \<and> roomy m st)"
| "burst_roomy m BurstFault = True"
| "burst_roomy m (BurstOver st) = roomy m st"

lemma pull_initialise_roomy:
  "roomy m st \<Longrightarrow> pull_initialise window mr st h = Inr st' \<Longrightarrow> roomy m st' \<and> p_initialised st'"
  by (auto simp: pull_initialise_def roomy_def Let_def split: if_splits)

lemma pull_reply_roomy:
  assumes "roomy m st"
  shows "case pull_reply window mr st h p of BurstNext st' \<Rightarrow> roomy m st' | BurstEnd e \<Rightarrow> burst_roomy m e"
proof (cases "if p_initialised st then Inr st else pull_initialise window mr st h")
  case (Inl rc)
  then have "rc \<noteq> SS_OK" by (auto simp: pull_initialise_def Let_def split: if_splits)
  then show ?thesis using Inl assms by (simp add: pull_reply_def)
next
  case (Inr st1)
  then have "roomy m st1" using assms pull_initialise_roomy by (auto split: if_splits)
  then show ?thesis using Inr by (auto simp: pull_reply_def pull_chunk_def roomy_def Let_def)
qed

lemma pull_next_round_roomy:
  assumes "roomy m st"
  shows "pull_next_round window mr st = RoundNext st' \<Longrightarrow> roomy m st'"
    and "pull_next_round window mr st = RoundDone \<Longrightarrow> unat (p_total st) \<le> m"
    and "pull_next_round window mr st = RoundReturn rc \<Longrightarrow> rc \<noteq> SS_OK"
  using assms by (auto simp: pull_next_round_def roomy_def Let_def split: if_splits prod.splits)

lemma pull_burst_roomy:
  fixes c c' :: "'x ss_client"
  assumes "pull_burst c window st = Some (e, c')" "roomy m st"
  shows "burst_roomy m e"
proof -
  define P where "P = (\<lambda>(c :: 'x ss_client) (w :: u32) st (y :: burst_end \<times> 'x ss_client). roomy m st \<longrightarrow> burst_roomy m (fst y))"
  have "P c window st (e, c')"
    using assms(1)
  proof (rule pull_burst.raw_induct[rotated])
    fix self :: "'x ss_client \<Rightarrow> u32 \<Rightarrow> pull_state \<Rightarrow> (burst_end \<times> 'x ss_client) option"
    fix c :: "'x ss_client" and w st y
    assume ih: "\<And>c w st y. self c w st = Some y \<Longrightarrow> P c w st y"
    assume eq: "(let (r, c) = await_reply c
      in case r of
           Inl rc \<Rightarrow> Some (if rc = SS_ERR_TIMEOUT then BurstOver st else BurstReturn rc st, c)
         | Inr (h, payload) \<Rightarrow>
             if h_msg_type h = SS_NACK then (let (rc, c) = note_nack c h payload in Some (BurstReturn rc st, c))
             else if h_msg_type h \<noteq> SS_ACK \<and> h_msg_type h \<noteq> SS_PULL_CHUNK then self c w st
             else (case pull_reply w (cl_max_rounds c) st h payload of
                     BurstEnd e \<Rightarrow> Some (e, c)
                   | BurstNext st \<Rightarrow> self c w st)) = Some y"
    obtain r c1 where a: "await_reply c = (r, c1)" by fastforce
    have "burst_roomy m (fst y)" if "roomy m st"
    proof (cases r)
      case (Inl rc)
      then have "rc \<noteq> SS_OK" using await_not_OK[of 16 c] a by (simp add: await_reply_def)
      then show ?thesis using eq Inl that by (auto simp: a)
    next
      case (Inr hp)
      obtain h p where hp: "hp = (h, p)" by fastforce
      obtain rc2 c2 where n: "note_nack c1 h p = (rc2, c2)" by fastforce
      note eq' = eq[unfolded a Inr hp Let_def prod.case sum.case n]
      have again: "burst_roomy m (fst y)" if "self c1 w st1 = Some y" "roomy m st1" for st1
        using ih[OF that(1)] that(2) by (simp add: P_def)
      show ?thesis
        using eq' that again pull_reply_roomy[OF that, of w "cl_max_rounds c1" h p] note_nack_not_OK[OF n]
        by (auto split: if_splits burst_step.splits)
    qed
    then show "P c w st y" by (simp add: P_def)
  qed
  then show ?thesis using assms(2) by (simp add: P_def)
qed

fun end_roomy :: "nat \<Rightarrow> pull_end \<Rightarrow> bool" where
  "end_roomy m Fault = True"
| "end_roomy m (PullEnd rc r out bm) = (length out = m \<and>
     (if rc = SS_OK then \<exists>sz ver. r = Some (sz, ver) \<and> unat sz \<le> m else r = None))"

lemma pull_rounds_roomy:
  fixes c c' :: "'x ss_client"
  assumes "pull_rounds c g s window st = Some (e, c')" "roomy m st"
  shows "end_roomy m e"
proof -
  define P where "P = (\<lambda>(c :: 'x ss_client) (g :: byte list) (s :: byte) (w :: u32) st (y :: pull_end \<times> 'x ss_client).
    roomy m st \<longrightarrow> end_roomy m (fst y))"
  have "P c g s window st (e, c')"
    using assms(1)
  proof (rule pull_rounds.raw_induct[rotated])
    fix self :: "'x ss_client \<Rightarrow> byte list \<Rightarrow> byte \<Rightarrow> u32 \<Rightarrow> pull_state \<Rightarrow> (pull_end \<times> 'x ss_client) option"
    fix c :: "'x ss_client" and g :: "byte list" and s :: byte and w st y
    assume ih: "\<And>c g s w st y. self c g s w st = Some y \<Longrightarrow> P c g s w st y"
    assume eq: "(let h = (ss_header_init SS_PULL_REQ (cl_device_id c) g s)
                \<lparr>h_card_version := p_want_version st, h_sequence := p_request_base st\<rparr>;
          (rc, c) = emit c h (take (p_request_len st) (p_request st))
      in if rc \<noteq> SS_OK then Some (PullEnd rc None (p_out st) (p_bitmap st), c)
         else case pull_burst c w st of
                None \<Rightarrow> None
              | Some (BurstReturn rc st, c) \<Rightarrow> Some (PullEnd rc None (p_out st) (p_bitmap st), c)
              | Some (BurstFault, c) \<Rightarrow> Some (Fault, c)
              | Some (BurstOver st, c) \<Rightarrow>
                  (case pull_next_round w (cl_max_rounds c) st of
                     RoundReturn rc \<Rightarrow> Some (PullEnd rc None (p_out st) (p_bitmap st), c)
                   | RoundDone \<Rightarrow>
                       Some (PullEnd SS_OK (Some (p_total st, p_version st)) (p_out st) (p_bitmap st), c)
                   | RoundNext st \<Rightarrow> self c g s w st)) = Some y"
    obtain rc c1 where e: "emit c ((ss_header_init SS_PULL_REQ (cl_device_id c) g s)
        \<lparr>h_card_version := p_want_version st, h_sequence := p_request_base st\<rparr>) (take (p_request_len st) (p_request st)) = (rc, c1)"
      by fastforce
    note eq' = eq[unfolded Let_def e prod.case]
    have "end_roomy m (fst y)" if st: "roomy m st"
    proof (cases "rc = SS_OK")
      case False
      then show ?thesis using eq' st by (auto simp: roomy_def)
    next
      case True
      obtain b c2 where b: "pull_burst c1 w st = Some (b, c2)" using eq' True by (auto split: option.splits)
      note br = pull_burst_roomy[OF b st]
      show ?thesis
      proof (cases b)
        case (BurstOver st2)
        then have r2: "roomy m st2" using br by simp
        note nr = pull_next_round_roomy[OF r2, of w "cl_max_rounds c2"]
        have again: "end_roomy m (fst y)" if "self c2 g s w st3 = Some y" "roomy m st3" for st3
          using ih[OF that(1)] that(2) by (simp add: P_def)
        show ?thesis
          using eq' True b BurstOver nr again r2 by (auto simp: roomy_def split: round_end.splits)
      qed (use eq' True b br in \<open>auto simp: roomy_def\<close>)
    qed
    then show "P c g s w st y" by (simp add: P_def)
  qed
  then show ?thesis using assms(2) by (simp add: P_def)
qed

lemma pull_fits:
  assumes "ss_pull c g s v out bm = Some (PullEnd rc r out' bm', c')"
  shows "length out' = length out" "if rc = SS_OK then \<exists>sz ver. r = Some (sz, ver) \<and> unat sz \<le> length out else r = None"
proof -
  have "roomy (length out) (pull_start w v out bm)" for w by (simp add: roomy_def pull_start_def)
  from pull_rounds_roomy[OF _ this] have "end_roomy (length out) (PullEnd rc r out' bm')"
    using assms unfolding ss_pull_def Let_def by blast
  then show "length out' = length out" "if rc = SS_OK then \<exists>sz ver. r = Some (sz, ver) \<and> unat sz \<le> length out else r = None"
    by (auto split: if_splits)
qed

subsection \<open>Records that tell the truth\<close>

text \<open>A record of one of the images \<open>I\<close>: its digest, and its fingerprints. The image itself need not be on the SD card any more.\<close>

definition true_entry :: "byte list set \<Rightarrow> ss_fp_record \<times> u32 list \<Rightarrow> bool" where
  "true_entry I e \<longleftrightarrow> (case e of (r, vs) \<Rightarrow>
     wf_entry e \<and> unat (f_size r) \<le> CARD_BUFFER_BYTES \<and>
     (\<exists>img \<in> I. length img = unat (f_size r) \<and> f_sha256 r = sha256 img \<and>
        vs = map (block_hash img (unat (f_size r))) [0..<block_count (unat (f_size r))]))"

definition entry_key :: "ss_fp_record \<times> u32 list \<Rightarrow> byte list \<times> byte" where
  "entry_key e = (f_game_id (fst e), f_slot (fst e))"

text \<open>A store of such records, at most one for each card of \<open>K\<close>.\<close>

definition true_store :: "(byte list \<times> byte) set \<Rightarrow> byte list set \<Rightarrow> disk \<Rightarrow> bool" where
  "true_store K I d \<longleftrightarrow>
     (\<exists>es. store_file d WII_FP_PATH es \<and> (\<forall>e \<in> set es. true_entry I e) \<and> distinct (map entry_key es) \<and> entry_key ` set es \<subseteq> K)"

lemma true_entry_wf: "true_entry I e \<Longrightarrow> wf_entry e"
  by (cases e) (simp add: true_entry_def)

lemma length_true_entry:
  assumes "true_entry I e"
  shows "length (encode_entry e) \<le> 8248"
proof -
  obtain r vs where e: "e = (r, vs)" by (cases e)
  then have "length vs = block_count (unat (f_size r))" "unat (f_size r) \<le> 16777216"
    using assms by (auto simp: true_entry_def CARD_BUFFER_BYTES_def)
  then have "length vs \<le> 2048" by (simp add: block_count_def)
  then show ?thesis using length_encode_entry[of r vs] true_entry_wf[OF assms] by (simp add: e)
qed

lemma length_true_store: "\<forall>e \<in> set es. true_entry I e \<Longrightarrow> length (concat (map encode_entry es)) \<le> 8248 * length es"
  by (induction es) (fastforce dest: length_true_entry)+

lemma true_storable:
  assumes "\<forall>e \<in> set es. true_entry I e" "distinct (map entry_key es)" "entry_key ` set es \<subseteq> K" "finite K" "card K < 2 ^ 16"
  shows "storable es"
proof -
  have "length es = card (entry_key ` set es)" using distinct_card[OF assms(2)] by simp
  then have l: "length es < 2 ^ 16" using card_mono[OF assms(4,3)] assms(5) by simp
  then show ?thesis
    using length_true_store[OF assms(1)] assms(1) true_entry_wf
    by (auto simp: storable_def encode_store_def ss_fp_put_header_eq SS_FP_MAGIC_def)
qed

lemma true_put:
  assumes "\<forall>e \<in> set es. true_entry I e" "distinct (map entry_key es)" "entry_key ` set es \<subseteq> K" "true_entry I e" "entry_key e \<in> K"
  shows "(\<forall>e \<in> set (put_entry e es). true_entry I e) \<and> distinct (map entry_key (put_entry e es)) \<and> entry_key ` set (put_entry e es) \<subseteq> K"
proof -
  have "same_card (fst e) (fst o2) \<longleftrightarrow> entry_key o2 = entry_key e" if "o2 \<in> set es" for o2
    using same_card_full[of "fst e" "snd e" "fst o2" "snd o2"] true_entry_wf[OF assms(4)] true_entry_wf[of I o2] assms(1) that
    by (auto simp: entry_key_def)
  then show ?thesis using assms by (auto simp: put_entry_def distinct_map_filter)
qed

lemma true_store_same: "d WII_FP_PATH = old WII_FP_PATH \<Longrightarrow> true_store K I d = true_store K I old"
  by (simp add: true_store_def store_file_def)

lemma only_true: "only ps s s' \<Longrightarrow> WII_FP_PATH \<notin> ps \<Longrightarrow> true_store K I (fs_disk s) \<Longrightarrow> through (true_store K I) s s'"
  by (erule through_mono) (auto simp: apart_def intro: true_store_same[THEN iffD2])

lemma recorded_true:
  assumes "full_id (take 6 g)" "n \<noteq> 0" "unat n \<le> CARD_BUFFER_BYTES" "unat n \<le> length img" "take (unat n) img \<in> I"
  shows "true_entry I (recorded_entry g img n v (sha256 (take (unat n) img)))"
proof -
  let ?e = "recorded_entry g img n v (sha256 (take (unat n) img))"
  have "wf_entry ?e" using assms by (intro recorded_entry_wf) (simp_all add: CARD_BUFFER_BYTES_def)
  moreover have "block_hash (take (unat n) img) (unat n) b = block_hash img (unat n) b" for b by (simp add: block_hash_def)
  ultimately show ?thesis
    using assms(3-5) by (auto simp: true_entry_def recorded_entry_def intro!: bexI[of _ "take (unat n) img"])
qed

text \<open>Recording the table of the card in the buffer, with its digest, keeps the store true at every moment.\<close>

lemma save_fingerprints_true:
  assumes "save_fingerprints g img n v (sha256 (take (unat n) img)) fp dirty current s = (fp', dirty', s')"
    and "true_store K I (fs_disk s)" "finite K" "card K < 2 ^ 16" "full_id (take 6 g)" "(take 6 g, 0) \<in> K"
    and "unat n \<le> CARD_BUFFER_BYTES" "unat n \<le> length img"
    and "current \<Longrightarrow> block_count (unat n) \<le> length fp \<and> (\<forall>b < block_count (unat n). fp ! b = block_hash img (unat n) b)"
    and "reliable C_close s" "reliable C_rename s" "take (unat n) img \<in> I"
  shows "through (true_store K I) s s'"
proof -
  let ?e = "recorded_entry g img n v (sha256 (take (unat n) img))"
  let ?zero = "replicate FP_ENTRIES (0 :: u32)"
  have sz: "unat n + 8191 < 2 ^ 32" using assms(7) by (simp add: CARD_BUFFER_BYTES_def)
  consider (nothing) "s' = s" | (put) T ok where "n \<noteq> 0" "block_count (unat n) \<le> length T"
      "\<forall>b < block_count (unat n). T ! b = block_hash img (unat n) b" "wii_fp_store_put WII_FP_PATH (fst ?e) T s = (ok, s')"
  proof (cases "n = 0 \<or> v = 0")
    case True
    then show ?thesis using that(1) assms(1) by (simp add: save_fingerprints_def)
  next
    case False
    note spec = ss_fp_scan_spec[OF sz assms(8)]
    define scan where "scan = (if current then Some (fp, dirty, 0) else ss_fp_scan img n ?zero dirty)"
    have "save_fingerprints g img n v (sha256 (take (unat n) img)) fp dirty current s = (case scan of None \<Rightarrow> (?zero, dirty, s)
        | Some (fp, dirty, marked) \<Rightarrow> (case wii_fp_store_put WII_FP_PATH (fst ?e) fp s of (ok, s) \<Rightarrow> (fp, dirty, s)))"
      unfolding save_fingerprints_def scan_def recorded_entry_def Let_def WII_GAME_ID_LEN_def SS_FP_DIGEST_SIZE_def if_not_P[OF False] fst_conv
      by (rule refl)
    note sf = this[unfolded assms(1)]
    show ?thesis
    proof (cases scan)
      case None
      then show ?thesis using that(1) sf by simp
    next
      case (Some r)
      obtain T D m where r: "r = (T, D, m)" by (metis prod_cases3)
      have "block_count (unat n) \<le> length T \<and> (\<forall>b < block_count (unat n). T ! b = block_hash img (unat n) b)"
        using Some r assms(9) spec(2)[of ?zero dirty T D m] spec(1)[of ?zero dirty] False
        by (fastforce simp: scan_def split: if_splits)
      moreover obtain ok s1 where "wii_fp_store_put WII_FP_PATH (fst ?e) T s = (ok, s1)" by fastforce
      ultimately show ?thesis using that(2)[of T ok] sf False by (simp add: Some r)
    qed
  qed
  then show ?thesis
  proof cases
    case nothing
    then show ?thesis using assms(2) through_refl by simp
  next
    case put
    have blocks: "unat (f_blocks (fst ?e)) = block_count (unat n)" by (simp add: recorded_entry_def unat_fp_counts(1)[OF sz])
    have e: "(fst ?e, take (unat (f_blocks (fst ?e))) T) = ?e"
      using put(2,3) unfolding blocks by (auto simp: recorded_entry_def intro: nth_equalityI)
    have te: "true_entry I ?e" by (rule recorded_true[OF assms(5) put(1) assms(7,8,12)])
    have key: "entry_key ?e \<in> K" using assms(6) by (simp add: entry_key_def recorded_entry_def)
    obtain es where es: "store_file (fs_disk s) WII_FP_PATH es" "\<forall>e \<in> set es. true_entry I e" "distinct (map entry_key es)"
      "entry_key ` set es \<subseteq> K" using assms(2) by (auto simp: true_store_def)
    have len: "length f < 2 ^ 32" if "fs_disk s WII_FP_PATH = Some f" for f
      using es(1) that by (auto simp: store_file_def storable_def)
    have fits: "unat (f_blocks (fst ?e)) \<le> length T" using put(2) blocks by simp
    obtain os new where new: "os = [] \<or> os = es" "new = encode_store (put_entry ?e os)"
      "through (update_safe (fs_disk s) (WII_FP_PATH @ ascii ''.tmp'') WII_FP_PATH new) s s'"
      using fp_put_through[OF put(4) assms(10,11) fits len] unfolding e store_file_entries[OF es(1)] by blast
    have tp: "(\<forall>e \<in> set (put_entry ?e os). true_entry I e) \<and> distinct (map entry_key (put_entry ?e os)) \<and> entry_key ` set (put_entry ?e os) \<subseteq> K"
      using new(1) es(2-4) te key by (intro true_put) auto
    have "storable (put_entry ?e os)" by (rule true_storable[OF _ _ _ assms(3,4)]) (use tp in blast)+
    then have "true_store K I d" if "d WII_FP_PATH = Some new" for d
      using tp that unfolding true_store_def store_file_def new(2) by blast
    note written = this
    have gone: "true_store K I d" if "d WII_FP_PATH = None" for d
      using that true_storable[of "[]" I K] assms(3,4) by (auto simp: true_store_def store_file_def intro!: exI[of _ "[]"])
    show ?thesis
    proof (rule through_mono[OF new(3)])
      fix d assume "update_safe (fs_disk s) (WII_FP_PATH @ ascii ''.tmp'') WII_FP_PATH new d"
      then consider "d WII_FP_PATH = fs_disk s WII_FP_PATH" | "d WII_FP_PATH = Some new" | "d WII_FP_PATH = None"
        by (auto simp: update_safe_def)
      then show "true_store K I d"
      proof cases
        case 1
        then show ?thesis using true_store_same[where d = d and old = "fs_disk s"] assms(2) by simp
      qed (use written gone in blast)+
    qed
  qed
qed

text \<open>The table the launcher finds: an image with the agreed digest stands behind it, and the scan marks what changed since.\<close>

lemma sync_table_ready:
  assumes "sync_table g n entry la = (True, la')" "true_store K I (fs_disk (la_fs la))"
    and "n \<le> CARD_BUFFER_BYTES" "n \<le> length (la_card la)" "n \<noteq> 0"
  shows "\<exists>parent \<in> I. \<exists>fp marked. length parent = n \<and> sha256 parent = take 32 (k_sha256 entry) \<and>
    (\<forall>b < block_count n. fp ! b = block_hash parent n b) \<and>
    ss_fp_scan (la_card la) (of_nat n) fp (la_dirty la) = Some (la_fp la', la_dirty la', marked)"
proof -
  have n: "unat (of_nat n :: u32) = n" using assms(3) by (simp add: CARD_BUFFER_BYTES_def unat_of_nat_u32)
  obtain store s where r: "wii_fp_store_read WII_FP_PATH (la_fs la) = (store, s)" by fastforce
  obtain rec fp where get: "wii_fp_store_get store g 0 (la_fp la) = Some (rec, fp)"
    and us: "wii_fp_usable rec (k_version entry) (of_nat n) (k_sha256 entry)"
    using assms(1) by (auto simp: sync_table_def r Let_def split: option.splits if_splits prod.splits)
  obtain marked where sc: "ss_fp_scan (la_card la) (of_nat n) fp (la_dirty la) = Some (la_fp la', la_dirty la', marked)"
    using assms(1) us by (auto simp: sync_table_def r get Let_def split: option.splits if_splits prod.splits)
  obtain es where es: "store_file (fs_disk (la_fs la)) WII_FP_PATH es" "\<forall>e \<in> set es. true_entry I e"
    using assms(2) by (auto simp: true_store_def)
  obtain f where f: "store = Some f" using get by (cases store) (auto simp: wii_fp_store_get_def)
  then have "f = encode_store es" "storable es" using fp_read_only(2)[OF r] es(1) by (auto simp: store_file_def)
  then have "store_lookup es g 0 (la_fp la) = Some (rec, fp)"
    using get f ss_fp_store_find_encode[of es g 0 "la_fp la"] by (simp add: wii_fp_store_get_def storable_def)
  then obtain vs where e: "find (\<lambda>(r, vs). f_slot r = 0 \<and> f_game_id r = take 6 g) es = Some (rec, vs)" "fp = vs @ drop (length vs) (la_fp la)"
    by (auto simp: store_lookup_def split: option.splits if_splits)
  then have "(rec, vs) \<in> set es" by (auto simp: find_Some_iff) (metis nth_mem)
  note e = this e(2)
  have sz: "f_size rec = of_nat n" "take 32 (f_sha256 rec) = take 32 (k_sha256 entry)"
    using us by (simp_all add: wii_fp_usable_def SS_FP_DIGEST_SIZE_def)
  obtain parent where p: "parent \<in> I" "length parent = n" "f_sha256 rec = sha256 parent" "vs = map (block_hash parent n) [0..<block_count n]"
    using es(2) e(1) sz(1) n by (fastforce simp: true_entry_def)
  then have "sha256 parent = take 32 (k_sha256 entry)" using sz(2) by simp
  moreover have "\<forall>b < block_count n. fp ! b = block_hash parent n b" using p(4) by (simp add: e(2) nth_append)
  ultimately show ?thesis using p(1,2) sc by blast
qed

text \<open>What the scan leaves is the table of the card in the buffer.\<close>

lemma sync_table_current:
  assumes "sync_table g n entry la = (True, la')" "true_store K I (fs_disk (la_fs la))"
    and "n \<le> CARD_BUFFER_BYTES" "n \<le> length (la_card la)" "n \<noteq> 0"
  shows "block_count n \<le> length (la_fp la') \<and> (\<forall>b < block_count n. la_fp la' ! b = block_hash (la_card la) n b)"
proof -
  have n: "unat (of_nat n :: u32) = n" using assms(3) by (simp add: CARD_BUFFER_BYTES_def unat_of_nat_u32)
  obtain fp m where sc: "ss_fp_scan (la_card la) (of_nat n) fp (la_dirty la) = Some (la_fp la', la_dirty la', m)"
    using sync_table_ready[OF assms] by blast
  have "unat (of_nat n :: u32) + 8191 < 2 ^ 32" "unat (of_nat n :: u32) \<le> length (la_card la)" "(of_nat n :: u32) \<noteq> 0"
    using assms(3-5) n by (auto simp: CARD_BUFFER_BYTES_def unat_gt_0 simp flip: unat_gt_0)
  note spec = ss_fp_scan_spec[OF this, of fp "la_dirty la", unfolded n]
  show ?thesis using spec(1) spec(2)[OF sc] sc by auto
qed

text \<open>A scan of the first \<open>n\<close> bytes of the buffer against the table of an image marks what turns the image into them.\<close>

lemma scan_rebuilds:
  assumes "unat n + 8191 < 2 ^ 32" "n \<noteq> 0" "unat n \<le> length img" "length parent = unat n"
    and "ss_fp_scan img n fp dirty = Some (fp', dirty', marked)"
    and "\<forall>b < block_count (unat n). fp ! b = block_hash parent (unat n) b"
    and "\<forall>b < block_count (unat n). block_hash parent (unat n) b = block_hash img (unat n) b \<longrightarrow>
           bytes_at parent (b * 8192) 8192 = bytes_at (take (unat n) img) (b * 8192) 8192"
  shows "apply_chunks (take (unat n) img) (filter (bitmap_bit dirty') [0..<chunk_count (unat n)]) parent = take (unat n) img"
proof (rule apply_chunks_complete)
  let ?img = "take (unat n) img"
  have l: "length ?img = unat n" using assms(3) by simp
  fix k assume k: "k * 1024 < length ?img" and "k \<notin> set (filter (bitmap_bit dirty') [0..<chunk_count (unat n)])"
  then have st: "\<not> stale img (unat n) fp k"
    using ss_fp_scan_spec(2)[OF assms(1,3,2,5)] l by (simp add: chunk_count_iff)
  have "k * 1024 < unat n" using k by (simp only: l)
  moreover have "k div 8 * 8192 \<le> k * 1024" by linarith
  ultimately have b: "k div 8 < block_count (unat n)" unfolding block_count_iff by linarith
  have h: "block_hash ?img (unat n) b = block_hash img (unat n) b" for b by (simp add: block_hash_def)
  then have s2: "\<not> stale ?img (unat n) fp k" using st by (simp add: stale_def)
  show "bytes_at parent (k * 1024) 1024 = bytes_at ?img (k * 1024) 1024"
    by (rule unmarked_chunk_same[OF assms(4) l _ _ s2]) (use \<open>k * 1024 < unat n\<close> assms(6,7) b h in auto)
qed (use assms(3,4) in \<open>auto simp: chunk_count_iff\<close>)

text \<open>
  C12: when the launcher decides to push a delta, then the marked chunks turn the image last agreed with the server into
  the card in the buffer, unless a changed block has the fingerprint it had. That image is the one of the images
  the store knows that has the digest agreed.
\<close>

theorem launcher_delta_rebuilds:
  assumes "true_store K I (fs_disk (la_fs la))" "sync_table g n entry la = (True, la')"
    and "0 < n" "n \<le> CARD_BUFFER_BYTES" "n \<le> length (la_card la)" "length (k_sha256 entry) = 32"
    and "inj_on sha256 I" "parent \<in> I" "sha256 parent = k_sha256 entry"
    and "\<forall>b < block_count n. block_hash parent n b = block_hash (la_card la) n b \<longrightarrow>
        bytes_at parent (b * 8192) 8192 = bytes_at (take n (la_card la)) (b * 8192) 8192"
  shows "length parent = n \<and>
    apply_chunks (take n (la_card la)) (filter (bitmap_bit (la_dirty la')) [0..<chunk_count n]) parent = take n (la_card la)"
proof -
  have n: "unat (of_nat n :: u32) = n" using assms(4) by (simp add: CARD_BUFFER_BYTES_def unat_of_nat_u32)
  then have nz: "(of_nat n :: u32) \<noteq> 0" using assms(3) by (metis less_irrefl unat_0)
  obtain p fp m where p: "p \<in> I" "length p = n" "sha256 p = take 32 (k_sha256 entry)"
    "\<forall>b < block_count n. fp ! b = block_hash p n b"
    "ss_fp_scan (la_card la) (of_nat n) fp (la_dirty la) = Some (la_fp la', la_dirty la', m)"
    using sync_table_ready[OF assms(2,1,4,5)] assms(3) by auto
  have "p = parent" using assms(6,9) p(3) by (intro inj_onD[OF assms(7) _ p(1) assms(8)]) simp
  moreover have sz: "unat (of_nat n :: u32) + 8191 < 2 ^ 32" using assms(4) unfolding n by (simp add: CARD_BUFFER_BYTES_def)
  ultimately show ?thesis using scan_rebuilds[OF sz nz _ _ p(5), of parent, unfolded n] p(2,4) assms(5,10) by simp
qed

subsection \<open>The store through a pass\<close>

lemma wii_path_apart:
  assumes "length dir + length stem \<le> 240"
  shows "WII_FP_PATH \<notin> {card_path dir stem '''', card_path dir stem ''.tmp'', card_path dir stem ''.bak''}"
  using assms by (auto simp: card_path_def WII_FP_PATH_def ascii_def dest!: arg_cong[of _ _ rev])

lemma keep_table_true:
  assumes "true_store K I (fs_disk (la_fs la))" "finite K" "card K < 2 ^ 16" "full_id (take 6 g)" "(take 6 g, 0) \<in> K"
    and "unat n \<le> CARD_BUFFER_BYTES" "unat n \<le> length (la_card la)"
    and "current \<Longrightarrow> block_count (unat n) \<le> length (la_fp la) \<and> (\<forall>b < block_count (unat n). la_fp la ! b = block_hash (la_card la) (unat n) b)"
    and "reliable C_close (la_fs la)" "reliable C_rename (la_fs la)" "take (unat n) (la_card la) \<in> I"
  shows "through (true_store K I) (la_fs la) (la_fs (keep_table g n v (sha256 (take (unat n) (la_card la))) current la))"
proof -
  obtain fp dirty s where sf: "save_fingerprints g (la_card la) n v (sha256 (take (unat n) (la_card la))) (la_fp la) (la_dirty la) current (la_fs la) = (fp, dirty, s)"
    by (metis prod_cases3)
  then have "la_fs (keep_table g n v (sha256 (take (unat n) (la_card la))) current la) = s" by (simp add: keep_table_def)
  then show ?thesis using save_fingerprints_true[OF sf assms] by simp
qed

text \<open>The card is one of those of \<open>K\<close>, with a whole key, and the store's file can hold a record for each of them.\<close>

definition roomy_keys :: "(byte list \<times> byte) set \<Rightarrow> byte list \<Rightarrow> bool" where
  "roomy_keys K g \<longleftrightarrow> finite K \<and> card K < 2 ^ 16 \<and> full_id (take 6 g) \<and> (take 6 g, 0) \<in> K"

lemma sync_push_true:
  assumes "sync_push C cfg stem g n i (sha256 (take n (la_card la))) la = Some (r, la')" "true_store K I (fs_disk (la_fs la))"
    and "roomy_keys K g" "n \<noteq> 0" "n \<le> CARD_BUFFER_BYTES" "n \<le> length (la_card la)"
    and "length (w_saves_dir cfg) + length stem \<le> 240" "reliable C_close (la_fs la)" "reliable C_rename (la_fs la)"
    and "take n (la_card la) \<in> I"
  shows "through (true_store K I) (la_fs la) (la_fs la') \<and> la_card la' = la_card la"
proof -
  let ?d = "sha256 (take n (la_card la))" and ?e = "la_cards la ! i"
  have n: "unat (of_nat n :: u32) = n" using assms(5) by (simp add: CARD_BUFFER_BYTES_def unat_of_nat_u32)
  obtain ready la1 where t: "(if k_known ?e then sync_table g n ?e la else (False, la)) = (ready, la1)" by fastforce
  then have k: "only {} (la_fs la) (la_fs la1)" "la_card la1 = la_card la"
    using sync_table_keeps[of g n ?e la ready la1] by (auto split: if_splits)
  have cur: "block_count n \<le> length (la_fp la1) \<and> (\<forall>b < block_count n. la_fp la1 ! b = block_hash (la_card la1) n b)" if ready
    using sync_table_current[of g n ?e la la1, OF _ assms(2,5,6,4)] t that k(2) by (auto split: if_splits)
  have th: "through (true_store K I) (la_fs la) (la_fs la1)" using only_true[OF k(1) _ assms(2)] by simp
  have rel: "reliable C_close (la_fs la1)" "reliable C_rename (la_fs la1)" using assms(8,9) through_reliable[OF k(1)] by simp_all
  obtain rc assigned bitmap c where p: "ss_push_delta (la_client la1) g 0 (la_card la1) (of_nat n) (k_version ?e) (k_version ?e + 1)
      (if ready then Some (la_dirty la1) else None) (la_bitmap la1) = Some (rc, assigned, bitmap, c)"
    using assms(1) by (auto simp: sync_push_def t Let_def split: option.splits)
  let ?la2 = "la1\<lparr>la_client := c, la_bitmap := bitmap\<rparr>"
  show ?thesis
  proof (cases "rc = SS_ERR_CONFLICT")
    case True
    obtain answer scan drc where a: "ask_a_or_b C (w_conflict_timeout_ms cfg) (la_scan la1) (la_drc la1) = Some (answer, scan, drc)"
      using assms(1) by (auto simp: sync_push_def t p True Let_def split: option.splits)
    obtain ok s where b: "wii_saves_backup (w_saves_dir cfg) stem (take n (la_card la1)) (la_fs la1) = (ok, s)" by fastforce
    have "through (true_store K I) (la_fs la1) s"
      using only_true[OF saves_backup_only[OF b, of "{bak_file cfg stem}"] _ through_disk[OF th]] wii_path_apart[OF assms(7)] by simp
    then have "through (true_store K I) (la_fs la) s" by (rule through_trans[OF th])
    moreover have "(la_fs la' = la_fs la1 \<or> la_fs la' = s) \<and> la_card la' = la_card la1"
      using assms(1) by (cases answer) (auto simp: sync_push_def t p True a b Let_def split: if_splits)
    ultimately show ?thesis using th k(2) by auto
  next
    case False
    let ?v = "case assigned of None \<Rightarrow> 0 | Some v \<Rightarrow> v"
    let ?la3 = "agree i ?v ?d ?la2"
    have "la' = ?la2 \<or> la' = keep_table g (of_nat n) ?v ?d ready ?la3"
      using assms(1) False by (auto simp: sync_push_def t p Let_def split: if_splits)
    moreover have "through (true_store K I) (la_fs la1) (la_fs (keep_table g (of_nat n) ?v ?d ready ?la3))"
      using keep_table_true[of K I ?la3 g "of_nat n" ready ?v] through_disk[OF th] assms(3,5,6,10) cur rel k(2) n
      by (simp add: roomy_keys_def)
    ultimately show ?thesis using th through_trans[OF th] k(2) by auto
  qed
qed

text \<open>More images.\<close>

lemma true_store_mono: "true_store K I d \<Longrightarrow> I \<subseteq> J \<Longrightarrow> true_store K J d"
  unfolding true_store_def true_entry_def by (fast elim!: ex_forward)

lemma sync_pull_true:
  assumes "sync_pull cfg stem g i v la = Some (e, la')" "true_store K I (fs_disk (la_fs la))"
    and "roomy_keys K g" "length (la_card la) \<le> CARD_BUFFER_BYTES"
    and "length (w_saves_dir cfg) + length stem \<le> 240" "reliable C_close (la_fs la)" "reliable C_rename (la_fs la)"
    and "I \<union> set_option (fs_disk (la_fs la') (card_file cfg stem)) \<subseteq> J"
  shows "through (true_store K J) (la_fs la) (la_fs la')"
proof (cases "\<exists>rc r img bm c. k_version (la_cards la ! i) < v \<and>
    ss_pull (la_client la) g 0 0 (la_card la) (la_bitmap la) = Some (PullEnd rc r img bm, c)")
  case False
  then have "la_fs la' = la_fs la"
    using assms(1) by (auto simp: sync_pull_def split: if_splits option.splits pull_end.splits prod.splits)
  then show ?thesis using true_store_mono[OF assms(2)] assms(8) through_refl[of "true_store K J"] by simp
next
  case True
  then obtain rc r img bm c where v: "k_version (la_cards la ! i) < v"
    and p: "ss_pull (la_client la) g 0 0 (la_card la) (la_bitmap la) = Some (PullEnd rc r img bm, c)" by blast
  note fits = pull_fits[OF p]
  show ?thesis
  proof (cases "rc = SS_OK")
    case False
    then show ?thesis
      using assms(1,8) true_store_mono[OF assms(2), of J] v fits(2) through_refl[of "true_store K J"] by (auto simp: sync_pull_def p Let_def split: option.splits)
  next
    case True
    then obtain sz ver where r: "r = Some (sz, ver)" "unat sz \<le> length (la_card la)" using fits(2) by auto
    let ?data = "take (unat sz) img" and ?la2 = "la\<lparr>la_client := c, la_card := img, la_bitmap := bm\<rparr>"
    obtain ok s where w: "wii_saves_write (w_saves_dir cfg) stem ?data (la_fs la) = (ok, s)" by fastforce
    let ?la3 = "agree i ver (sha256 ?data) (?la2\<lparr>la_fs := s\<rparr>)"
    have la': "la' = (if ok then keep_table g sz ver (sha256 ?data) False ?la3 else ?la2\<lparr>la_fs := s\<rparr>)"
      using assms(1) v True by (simp add: sync_pull_def p r(1) w Let_def split: if_splits)
    have o: "only {temp_file cfg stem, card_file cfg stem} (la_fs la) s" by (rule saves_write_only[OF w]) simp_all
    have "through (true_store K I) (la_fs la) s" using only_true[OF o _ assms(2)] wii_path_apart[OF assms(5)] by simp
    then have th: "through (true_store K J) (la_fs la) s" by (rule through_mono) (use true_store_mono assms(8) in blast)
    show ?thesis
    proof (cases ok)
      case True
      note pa = paths_apart[OF assms(5)]
      have "fs_disk s (card_file cfg stem) = Some ?data"
        using saves_write_through(2)[OF w refl refl pa(4) assms(6,7) True] pa(4) by simp
      then have "fs_disk (la_fs la') (card_file cfg stem) = Some ?data"
        using only_other[OF keep_table_only[of ?la3 g sz ver "sha256 ?data" False] pa(1)] True by (simp add: la')
      then have "?data \<in> J" using assms(8) by auto
      then have "through (true_store K J) s (la_fs (keep_table g sz ver (sha256 ?data) False ?la3))"
        using keep_table_true[of K J ?la3 g sz False ver] through_disk[OF th] assms(3,4) r(2) fits(1) assms(6,7) through_reliable[OF o]
        by (simp add: roomy_keys_def)
      then show ?thesis using through_trans[OF th] True by (simp add: la')
    qed (use th in \<open>simp add: la'\<close>)
  qed
qed

text \<open>
  C11: whatever the server sends, whatever is answered and whatever call fails but close and rename, at every moment of
  \<open>sync_one\<close> every record of the launcher's store is the digest and the fingerprints of an image it has had before, of the
  card as it was, or of the card as it is then left; and there is at most one record for each card.
\<close>

theorem launcher_store_true:
  assumes "sync_one C cfg stem la = Some (e, la')" "true_store K I (fs_disk (la_fs la))"
    and "\<forall>g n i v la1. sync_identify cfg stem la = (Inr (g, n, i, v), la1) \<longrightarrow> full_id (take 6 g) \<and> (take 6 g, 0) \<in> K"
    and "finite K" "card K < 2 ^ 16" "length (la_card la) \<le> CARD_BUFFER_BYTES"
    and "length (w_saves_dir cfg) + length stem \<le> 240" "reliable C_close (la_fs la)" "reliable C_rename (la_fs la)"
    and "d \<in> moments (la_fs la) (la_fs la')"
  shows "true_store K (I \<union> set_option (fs_disk (la_fs la) (card_file cfg stem)) \<union> set_option (fs_disk (la_fs la') (card_file cfg stem))) d"
proof -
  let ?J = "I \<union> set_option (fs_disk (la_fs la) (card_file cfg stem))"
  let ?L = "?J \<union> set_option (fs_disk (la_fs la') (card_file cfg stem))"
  have st: "true_store K ?J (fs_disk (la_fs la))" using true_store_mono[OF assms(2), of ?J] by simp
  have id: "through (true_store K ?J) (la_fs la) (la_fs la1)" "reliable C_close (la_fs la1)" "reliable C_rename (la_fs la1)"
      "length (la_card la1) \<le> CARD_BUFFER_BYTES" if "sync_identify cfg stem la = (r, la1)" for r la1
    using sync_identify_keeps[OF that] only_true[OF sync_identify_keeps(1)[OF that] _ st] assms(6,8,9)
      through_reliable[OF sync_identify_keeps(1)[OF that]] by simp_all
  have found: "roomy_keys K g" "n \<noteq> 0" "n \<le> length (la_card la1)" "n \<le> CARD_BUFFER_BYTES" "take n (la_card la1) \<in> ?J"
    if "sync_identify cfg stem la = (Inr (g, n, i, v), la1)" for g n i v la1
    using sync_identify_keeps(3)[OF that] sync_identify_keeps(6)[OF that refl] assms(3-6) that
    by (auto simp: roomy_keys_def)
  have up: "through (true_store K ?L) s s'" if "through (true_store K ?J) s s'" for s s'
    by (rule through_mono[OF that]) (use true_store_mono in blast)
  from assms(1) have "through (true_store K ?L) (la_fs la) (la_fs la')"
  proof (cases rule: sync_one_cases)
    case stop
    then show ?thesis using up[OF id(1)] by blast
  next
    case (pull g n i v la1)
    note 1 = id[OF pull(1)]
    from sync_pull_true[OF pull(4) through_disk[OF 1(1)] found(1)[OF pull(1)] 1(4) assms(7) 1(2,3) order_refl]
    show ?thesis using through_trans[OF up[OF 1(1)]] by blast
  next
    case (pushstop g n i v la1)
    note 1 = id[OF pushstop(1)] and f = found[OF pushstop(1)]
    show ?thesis
      using sync_push_true[OF pushstop(2) through_disk[OF 1(1)] f(1,2,4,3) assms(7) 1(2,3) f(5)] up[OF through_trans[OF 1(1)]] by blast
  next
    case (pushpull g n i v la1 v2 la2)
    note 1 = id[OF pushpull(1)] and f = found[OF pushpull(1)]
    have 2: "through (true_store K ?J) (la_fs la1) (la_fs la2)" "la_card la2 = la_card la1"
      using sync_push_true[OF pushpull(2) through_disk[OF 1(1)] f(1,2,4,3) assms(7) 1(2,3) f(5)] by simp_all
    have 3: "reliable C_close (la_fs la2)" "reliable C_rename (la_fs la2)" using 1(2,3) through_reliable[OF 2(1)] by simp_all
    have "length (la_card la2) \<le> CARD_BUFFER_BYTES" using 1(4) 2(2) by simp
    from sync_pull_true[OF pushpull(3) through_disk[OF 2(1)] f(1) this assms(7) 3 order_refl]
    show ?thesis using through_trans[OF up[OF through_trans[OF 1(1) 2(1)]]] by blast
  qed
  then show ?thesis using assms(10) through_moments by blast
qed

subsection \<open>The tables the module hands over\<close>

text \<open>Merging true records keeps the store true.\<close>

lemma true_puts:
  assumes "\<forall>e \<in> set es. true_entry I e" "distinct (map entry_key es)" "entry_key ` set es \<subseteq> K"
    and "\<forall>e \<in> set rs. true_entry I e" "entry_key ` set rs \<subseteq> K"
  shows "(\<forall>e \<in> set (fold put_entry rs es). true_entry I e) \<and> distinct (map entry_key (fold put_entry rs es)) \<and>
    entry_key ` set (fold put_entry rs es) \<subseteq> K"
  using assms
proof (induction rs arbitrary: es)
  case (Cons e rs)
  have "true_entry I e" "entry_key e \<in> K" using Cons.prems(4,5) by simp_all
  note p = true_put[OF Cons.prems(1-3) this]
  show ?case using Cons.IH[of "put_entry e es"] p Cons.prems(4,5) by simp
qed simp

lemma merge_keeps_true:
  assumes "\<forall>c. reliable c s" "true_store K I (fs_disk s)" "finite K" "2 * card K < 2 ^ 16"
    and "fs_disk s WII_FP_RUNTIME_PATH = Some (encode_store rs)" "\<forall>e \<in> set rs. true_entry I e"
    and "distinct (map entry_key rs)" "entry_key ` set rs \<subseteq> K"
    and "wii_fp_merge_runtime WII_FP_PATH WII_FP_RUNTIME_PATH s = (merged, s')"
  shows "true_store K I (fs_disk s')"
proof -
  obtain es where es: "store_file (fs_disk s) WII_FP_PATH es" "\<forall>e \<in> set es. true_entry I e" "distinct (map entry_key es)"
    "entry_key ` set es \<subseteq> K" using assms(2) by (auto simp: true_store_def)
  have few: "length xs \<le> card K" if "distinct (map entry_key xs)" "entry_key ` set xs \<subseteq> K" for xs
    using distinct_card[OF that(1)] card_mono[OF assms(3) that(2)] by simp
  have "storable rs" by (rule true_storable[OF assms(6-8,3)]) (use assms(4) in simp)
  moreover have "room_for rs es"
    using few[OF assms(7,8)] few[OF es(3,4)] length_true_store[OF assms(6)] length_true_store[OF es(2)] assms(4,6) true_entry_wf
    by (auto simp: room_for_def encode_store_def ss_fp_put_header_eq SS_FP_MAGIC_def)
  moreover have "length WII_FP_PATH < 252" "WII_FP_RUNTIME_PATH \<noteq> WII_FP_PATH" "WII_FP_RUNTIME_PATH \<noteq> WII_FP_PATH @ ascii ''.tmp''"
    by (simp_all add: WII_FP_RUNTIME_PATH_def WII_FP_PATH_def ascii_def)
  ultimately have "store_file (fs_disk s') WII_FP_PATH (fold put_entry rs es)"
    using fp_merge_works(3)[OF assms(1) es(1) _ assms(5) _ _ _ _ assms(9)] by blast
  then show ?thesis using true_puts[OF es(2-4) assms(6,8)] unfolding true_store_def by blast
qed

text \<open>The records of a run of the module are true when what a push transferred is what it had scanned.\<close>

lemma handed_true:
  assumes "kernel_run P tr k w" "i < length (kn_slots k)" "handing P k i" "full_id (s_game_id (kn_slots k ! i))"
    and "last_scan i tr = Some (b, card_size P i (kn_world k))" "last_sent i tr = Some b"
    and "unat (card_size P i (kn_world k)) \<le> length b" "unat (card_size P i (kn_world k)) \<le> CARD_BUFFER_BYTES"
    and "block_count (unat (card_size P i (kn_world k))) \<le> ss_fp_share k"
  shows "true_entry {take (unat (card_size P i (kn_world k))) b} (handed_entry P k i)"
proof -
  let ?n = "card_size P i (kn_world k)" and ?t = "drop (i * ss_fp_share k) (kn_fingerprints k)"
  have inv: "table_inv tr k w" by (rule kernel_run_tables[OF assms(1)])
  then have sz: "sized k" by (simp add: table_inv_def)
  have n: "unat ?n + 8191 < 2 ^ 32" "?n \<noteq> 0" using assms(3,8) by (simp_all add: CARD_BUFFER_BYTES_def handing_def)
  then have blocks: "unat (ss_fp_blocks ?n) = block_count (unat ?n)" by (intro unat_fp_counts(1))
  have h: "handed i tr k" using inv assms(2,3) by (auto simp: table_inv_def handing_def)
  then have "describes (ss_fp_table i k) b ?n" "s_parent_sha (kn_slots k ! i) = sha256 (take (unat ?n) b)"
    using assms(5,6) by (auto simp: handed_def)
  then have d: "\<forall>j < block_count (unat ?n). ss_fp_table i k ! j = block_hash b (unat ?n) j"
    using n assms(7,9) length_ss_fp_table[OF sz assms(2)] by (simp add: describes_def)
  have len: "block_count (unat ?n) \<le> length ?t" using fp_slice[OF sz assms(2)] sz assms(9) by (simp add: sized_def)
  have vals: "take (block_count (unat ?n)) ?t = map (block_hash b (unat ?n)) [0..<block_count (unat ?n)]"
  proof (rule nth_equalityI)
    fix j assume "j < length (take (block_count (unat ?n)) ?t)"
    then have "j < block_count (unat ?n)" by simp
    then show "take (block_count (unat ?n)) ?t ! j = map (block_hash b (unat ?n)) [0..<block_count (unat ?n)] ! j"
      using d assms(9) len by (simp add: ss_fp_table_def bytes_at_def)
  qed (use len in simp)
  have "0 < unat ?n" using n(2) by (simp add: unat_gt_0)
  then have "ss_fp_blocks ?n \<noteq> 0" using block_count_iff[of 0 "unat ?n"] blocks by (metis mult_0 not_less_zero unat_0)
  moreover have "block_hash (take (unat ?n) b) (unat ?n) j = block_hash b (unat ?n) j" for j by (simp add: block_hash_def)
  moreover have "s_parent_sha (kn_slots k ! i) = sha256 (take (unat ?n) b)" using h assms(5,6) by (auto simp: handed_def)
  ultimately show ?thesis
    using assms(4,7,8) by (simp add: true_entry_def wf_entry_def handed_entry_def Let_def blocks vals)
qed

subsection \<open>A pass and a delta that happen\<close>

lemma long_stem_key:
  "sync_identify cfg stem la = (Inr (g, n, i, v), la1) \<Longrightarrow> length stem = 6 \<Longrightarrow> g = stem"
  by (auto simp: sync_identify_def wii_saves_game_id_def WII_GAME_ID_LEN_def Let_def split: prod.splits option.splits if_splits)

theorem launcher_store_true_witness:
  "\<exists>la'. sync_one still_console wii_config_defaults (ascii ''GALE01'') echo_launcher = Some (Sync_done, la') \<and>
     (\<forall>d \<in> moments sd_card (la_fs la'). true_store {(ascii ''GALE01'', 0)} ({[1]} \<union> set_option (fs_disk (la_fs la') (card_file wii_config_defaults (ascii ''GALE01'')))) d)"
proof -
  let ?g = "ascii ''GALE01''"
  obtain la' where s: "sync_one still_console wii_config_defaults ?g echo_launcher = Some (Sync_done, la')" using echo_sync by blast
  have f: "la_fs echo_launcher = sd_card" "la_card echo_launcher = [0]" by (simp_all add: echo_launcher_def)
  have "store_file (fs_disk sd_card) WII_FP_PATH []"
    by (simp add: store_file_def storable_def encode_store_def sd_card_def card_path_def WII_FP_PATH_def ascii_def)
  then have st: "true_store {(?g, 0)} {} (fs_disk sd_card)" by (auto simp: true_store_def intro!: exI[of _ "[]"])
  have g: "full_id (take 6 ?g)" "take 6 ?g = ?g" "length ?g = 6" by (simp_all add: full_id_def ascii_def)
  have id: "\<forall>g n i v la1. sync_identify wii_config_defaults ?g echo_launcher = (Inr (g, n, i, v), la1) \<longrightarrow>
      full_id (take 6 g) \<and> (take 6 g, 0) \<in> {(?g, 0)}"
    using g long_stem_key[of wii_config_defaults ?g echo_launcher] by auto
  have "length (w_saves_dir wii_config_defaults) + length ?g \<le> 240" by (simp add: wii_config_defaults_def WII_SAVES_DIR_def ascii_def)
  moreover have "fs_disk sd_card (card_file wii_config_defaults ?g) = Some [1]"
    by (simp add: sd_card_def wii_config_defaults_def WII_SAVES_DIR_def)
  ultimately show ?thesis
    using launcher_store_true[OF s _ id, of "{}"] s st sd_card_reliable unfolding f by (auto simp: CARD_BUFFER_BYTES_def)
qed

text \<open>A card of three blocks, of which the first has changed since version 6.\<close>

definition gale_store_fs :: fs where
  "gale_store_fs = \<lparr>fs_disk = [WII_FP_PATH \<mapsto>
       encode_store [recorded_entry (ascii ''GALE01'') (gale_card 24576 7) 24576 6 (sha256 (gale_card 24576 7))]],
     fs_luck = (\<lambda>_ _. Works), fs_calls = 0, fs_past = []\<rparr>"

definition gale_launcher :: "event list launcher" where
  "gale_launcher = echo_launcher\<lparr>la_fs := gale_store_fs, la_card := gale_card 24576 8, la_fp := replicate 3 0, la_dirty := [0, 0, 0]\<rparr>"

abbreviation gale_known :: wii_card_state where
  "gale_known \<equiv> gale_agreed\<lparr>k_version := 6, k_sha256 := sha256 (gale_card 24576 7)\<rparr>"

lemma gale_true_store:
  "true_store {(ascii ''GALE01'', 0)} {gale_card 24576 7} (fs_disk gale_store_fs)"
  "store_file (fs_disk gale_store_fs) WII_FP_PATH [recorded_entry (ascii ''GALE01'') (gale_card 24576 7) 24576 6 (sha256 (gale_card 24576 7))]"
proof -
  let ?img = "gale_card 24576 7"
  let ?e = "recorded_entry (ascii ''GALE01'') ?img 24576 6 (sha256 ?img)"
  have "true_entry {?img} (recorded_entry (ascii ''GALE01'') ?img 24576 6 (sha256 (take (unat (24576 :: u32)) ?img)))"
    by (rule recorded_true) (simp_all add: full_id_def ascii_def CARD_BUFFER_BYTES_def length_gale_card)
  then have t: "\<forall>e \<in> set [?e]. true_entry {?img} e" by (simp add: length_gale_card)
  have k: "entry_key ` set [?e] \<subseteq> {(ascii ''GALE01'', 0)}" by (simp add: entry_key_def recorded_entry_def ascii_def)
  have "storable [?e]" by (rule true_storable[OF t _ k]) simp_all
  then show sf: "store_file (fs_disk gale_store_fs) WII_FP_PATH [?e]" by (simp add: store_file_def gale_store_fs_def)
  show "true_store {(ascii ''GALE01'', 0)} {?img} (fs_disk gale_store_fs)"
    unfolding true_store_def by (rule exI[of _ "[?e]"]) (use sf t k in simp)
qed

lemma gale_block: "block_hash (gale_card 24576 a) 24576 b = block_hash (gale_card 24576 8) 24576 b \<longleftrightarrow> b \<noteq> 0 \<or> a = 8"
  if "b < 3"
proof (cases "b = 0")
  case True
  have blk: "bytes_at (take 24576 (gale_card 24576 c)) 0 8192 = c # replicate 8191 0" for c
    by (simp add: gale_card_def bytes_at_def)
  have "a # replicate 8191 0 = (8 # replicate 8191 0)[0 := a]" by simp
  then show ?thesis
    using True fp_hash_one_byte[of 0 "8 # replicate 8191 0" a] by (auto simp: block_hash_def blk simp del: list_update_code)
next
  case False
  then have "8192 \<le> b * 8192" by simp
  then have "bytes_at (take 24576 (gale_card 24576 c)) (b * 8192) 8192 =
      bytes_at (take 16384 (drop 8192 (gale_card 24576 8))) (b * 8192 - 8192) 8192" for c
    by (simp add: gale_card_def bytes_at_def drop_Cons')
  then show ?thesis using False by (simp add: block_hash_def)
qed

theorem launcher_delta_rebuilds_witness:
  "\<exists>la'. sync_table (ascii ''GALE01'') 24576 gale_known gale_launcher = (True, la') \<and>
     apply_chunks (gale_card 24576 8) (filter (bitmap_bit (la_dirty la')) [0..<24]) (gale_card 24576 7) = gale_card 24576 8"
proof -
  let ?g = "ascii ''GALE01''" and ?old = "gale_card 24576 7" and ?new = "gale_card 24576 8"
  let ?e = "recorded_entry ?g ?old 24576 6 (sha256 ?old)" and ?T = "map (block_hash ?old 24576) [0..<3]"
  have la: "la_fs gale_launcher = gale_store_fs" "la_card gale_launcher = ?new" "la_fp gale_launcher = replicate 3 0"
    "la_dirty gale_launcher = [0, 0, 0]" by (simp_all add: gale_launcher_def)
  have len: "length ?new = 24576" "length ?old = 24576" by (simp_all add: length_gale_card)
  have e: "snd ?e = ?T" "f_version (fst ?e) = 6" "f_size (fst ?e) = 24576" "f_sha256 (fst ?e) = sha256 ?old"
    "f_slot (fst ?e) = 0" "f_game_id (fst ?e) = ?g" by (simp_all add: recorded_entry_def block_count_def ascii_def)
  obtain store s where r: "wii_fp_store_read WII_FP_PATH gale_store_fs = (store, s)" by fastforce
  have rel: "\<forall>c. reliable c gale_store_fs" by (simp add: gale_store_fs_def reliable_def)
  have "wii_fp_store_get store ?g 0 (replicate 3 0) = store_lookup [?e] ?g 0 (replicate 3 0)"
    using fp_get_works[OF rel gale_true_store(2)] r by simp
  then have get: "wii_fp_store_get store ?g 0 (replicate 3 0) = Some (fst ?e, ?T)"
    using e by (simp add: store_lookup_def case_prod_beta ascii_def)
  have us: "wii_fp_usable (fst ?e) (k_version gale_known) 24576 (k_sha256 gale_known)" by (simp add: wii_fp_usable_def e)
  have n: "unat (24576 :: u32) + 8191 < 2 ^ 32" "unat (24576 :: u32) \<le> length ?new" "(24576 :: u32) \<noteq> 0" using len by simp_all
  note spec = ss_fp_scan_spec[OF n, of ?T "[0, 0, 0]"]
  obtain T D m where sc: "ss_fp_scan ?new 24576 ?T [0, 0, 0] = Some (T, D, m)"
    using spec(1) by (cases "ss_fp_scan ?new 24576 ?T [0, 0, 0]") (auto simp: block_count_def chunk_count_def)
  have "dirty_chunks ?new 24576 ?T \<subseteq> {..<8}"
  proof
    fix k assume "k \<in> dirty_chunks ?new 24576 ?T"
    then have k: "k div 8 < 3" "?T ! (k div 8) \<noteq> block_hash ?new 24576 (k div 8)"
      by (auto simp: dirty_chunks_def stale_def chunk_count_def)
    then show "k \<in> {..<8}" using gale_block[OF k(1), of 7] by auto
  qed
  then have "unat m \<le> 8" using spec(2)[OF sc] card_mono[of "{..<8}" "dirty_chunks ?new 24576 ?T"] by simp
  then have w: "ss_fp_worthwhile m (ss_chunk_count 24576)"
    by (simp add: ss_fp_worthwhile_def ss_chunk_count_def SS_MAX_PAYLOAD_def word_less_nat_alt unat_word_ariths)
  obtain la' where t: "sync_table ?g 24576 gale_known gale_launcher = (True, la')"
    using us sc w by (simp add: sync_table_def la r get Let_def)
  have "\<forall>b < block_count 24576. block_hash ?old 24576 b = block_hash ?new 24576 b \<longrightarrow>
      bytes_at ?old (b * 8192) 8192 = bytes_at (take 24576 ?new) (b * 8192) 8192"
  proof (intro allI impI)
    fix b assume b: "b < block_count 24576" "block_hash ?old 24576 b = block_hash ?new 24576 b"
    then have "b \<noteq> 0" using gale_block[of b 7] by (simp add: block_count_def)
    then show "bytes_at ?old (b * 8192) 8192 = bytes_at (take 24576 ?new) (b * 8192) 8192"
      using len by (simp add: gale_card_def bytes_at_def drop_Cons')
  qed
  then show ?thesis
    using launcher_delta_rebuilds[OF _ t, of "{(?g, 0)}" "{?old}" ?old] gale_true_store(1) len t unfolding la
    by (simp add: CARD_BUFFER_BYTES_def chunk_count_def)
qed

end
