(* ===== verification/Spec2Isabelle.thy ===== *)
theory Spec2Isabelle
  imports SS_KernelNet SS_Tables
begin

text \<open>
  A verification development for the console side of Slot-Sync: the C code under \<open>wii/core\<close>, \<open>wii/source\<close> and
  \<open>nintendont/kernel\<close> that keeps GameCube memory cards in step with a server.

  \<^bold>\<open>The program.\<close> Two programs on one console share a core. The launcher (\<open>wii/source/main.c\<close>) synchronises every card
  image on the SD card before it starts Nintendont; the kernel module (\<open>nintendont/kernel/SlotSync.c\<close>) pushes the running
  game's card while it is played, from a worker thread. Both speak the same datagram protocol (\<open>wii/core/protocol.c\<close>,
  \<open>client.c\<close>) under an HMAC (\<open>sha256.c\<close>), find a card's key in its directory (\<open>memcard.c\<close>), and keep one fingerprint per
  8 KiB block so that a push can be a delta (\<open>fingerprint.c\<close>). They hand versions and tables to each other through files:
  \<open>state.txt\<close> and \<open>fingerprints.bin\<close> from the launcher, \<open>runtime.txt\<close> and \<open>runtime-fp.bin\<close> from the kernel.

  \<^bold>\<open>Conventions.\<close> C integers are words of their width, so wrap-around is the word's. A buffer is the list of its elements and
  its capacity the list's length; a read or write outside it is a value of the model (\<open>None\<close> or a flag), not left unspecified.
  A C string is the list of its bytes before the NUL. Return codes are \<open>ss_result\<close>, an option or a sum; out-parameters are part of
  the result. State is passed explicitly as records. A loop that may run for ever is a \<open>partial_function (option)\<close>, \<open>None\<close> being
  not to return; all other loops are structural or have a measure.

  \<^bold>\<open>Theories.\<close>
  \<^item> \<open>SS_Prelude\<close>: word types, \<open>bytes_at\<close> and \<open>blit\<close> for reads and copies in buffers, chunk bitmaps, the shared simp
    collections.
  \<^item> \<open>SS_Wire\<close>, \<open>SS_Protocol\<close>: \<open>protocol.c\<close>. The 72-byte header, \<open>ss_pack\<close> and \<open>ss_unpack\<close>, chunk counts and bitmaps.
  \<^item> \<open>SS_Sha256\<close>: \<open>sha256.c\<close>. The streaming contexts, shown equal to the block-by-block definition on the padded message, and HMAC to
    RFC 2104.
  \<^item> \<open>SS_Memcard\<close>, \<open>SS_Fingerprint\<close>: \<open>memcard.c\<close> and \<open>fingerprint.c\<close>. The scan, its bitmap, the store of tables.
  \<^item> \<open>SS_Client\<close>, \<open>SS_Push\<close>, \<open>SS_Pull\<close>: \<open>client.c\<close>. The transport is a pair of functions over any state; \<open>SS_Client\<close> states
    what the proofs rely on as locales: \<open>logged_transport\<close> (what is sent through a usable transport is on record),
    \<open>ending_bursts\<close> (a burst of received datagrams ends). The first is interpreted on the transport of event lists, where the
    network is any function of what has happened so far, and on the kernel's socket over IOS. \<open>push_once\<close> is cut into its stages
    (begin, declare, rounds, end), \<open>ss_pull\<close> into burst and round.
  \<^item> \<open>SS_Logic\<close>: \<open>SlotSyncLogic.c\<close>. Configuration and state file parsers, the decision to push.
  \<^item> \<open>SS_Stdio\<close>: what the launcher uses of the C library's files. A disk maps paths to contents; each call asks an oracle whether it
    works, and the disks on the way are kept, so that a property can speak of every moment at which the power may fail.
  \<^item> \<open>SS_Saves\<close>, \<open>SS_SaveFiles\<close>: \<open>wii_saves.c\<close>. The table of cards and its text form, then the files: reading, backing up and
    replacing a card, loading and saving the table, merging what the kernel module left.
  \<^item> \<open>SS_FpFiles\<close>: \<open>wii_fingerprint.c\<close>. The store of tables is shown to be a map from cards to tables.
  \<^item> \<open>SS_Config\<close>: \<open>wii_config.c\<close>, and its agreement with the kernel's parser.
  \<^item> \<open>SS_Drc\<close>, \<open>SS_WiiNet\<close>, \<open>SS_Dol\<close>: \<open>wii_drc.c\<close> (the GamePad as memory), \<open>wii_net.c\<close> (libogc as a \<open>driver\<close>), and \<open>wii_dol.c\<close>
    with \<open>wii_dol_stub.S\<close>: from the file to memory and the jump.
  \<^item> \<open>SS_Sync\<close>, \<open>SS_Main\<close>, \<open>SS_SyncClaims\<close>: \<open>main.c\<close>. \<open>sync_one\<close> is cut into identify, push and pull; \<open>launcher_main\<close> composes
    everything above, from mounting the SD card to entering Nintendont. The claims follow a card through every moment of
    \<open>sync_one\<close>.
  \<^item> \<open>SS_Kernel\<close>: \<open>SlotSync.c\<close>. Its statics are the record \<open>kernel\<close>; FatFs, the timer, the card driver and the socket layer
    are the operations of a \<open>platform\<close> over a state of their own.
  \<^item> \<open>SS_Runtime\<close>, \<open>SS_RunInv\<close>: the runs of that module. \<open>kernel_run\<close> interleaves the worker, cut where the other thread can act,
    with the entry points the main thread calls and with any change of the world outside. The invariants: the last save of a
    card is dirty, in flight, pushed or refused; a push names the version its card descends from; a table marked
    valid is the fingerprints of what was scanned.
  \<^item> \<open>SS_Bench\<close>, \<open>SS_RunClaims\<close>: a console on which the runs can be carried out, and the properties of the runs.
  \<^item> \<open>SS_KernelNet\<close>: \<open>SlotSyncNet.c\<close>. An ioctl is a call on IOS with the bytes of its buffers; \<open>on_ssnet\<close> gives the platform of
    \<open>SS_Kernel\<close> this socket layer.
  \<^item> \<open>SS_Handoff\<close>: both programs over one SD card. The locale \<open>fat_volume\<close> is what the module relies on from FatFs; it is interpreted
    on the disk of \<open>SS_Stdio\<close>, so that what one program writes the other reads. The versions and tables the module leaves are what
    the launcher merges; the table and the version the launcher records are what the module takes up, as far as its
    2047 byte buffer reaches.
  \<^item> \<open>SS_Tables\<close>: the store of tables through a pass. \<open>true_store K I\<close> says that every record is the digest and the fingerprints of one
    of the images \<open>I\<close>, at most one for each card of \<open>K\<close>; \<open>sync_one\<close> keeps it at every moment, and so does merging what the module
    hands over. So a delta the launcher pushes is what changed since the image agreed with the server.

  \<^bold>\<open>Bounds.\<close> Receives per reply (16), rounds and the staging budgets are the program's own. The properties of the scan ask that
  the card's size plus 8191 does not wrap in 32 bits; cards are at most 16 MiB. No fuel is used in a definition.

  \<^bold>\<open>What the hypotheses say of code outside.\<close> The network may lose, repeat, reorder and forge anything; only the termination
  properties ask that a burst ends, and only \<open>pull_faithful\<close> that authentic datagrams carry the card. The platform is unconstrained in
  the properties of the runs, and IOS in those of its socket. A call on the SD card may fail wherever a property does not say that
  it works: most ask it of \<open>fclose\<close>, whose result the code drops, some of \<open>rename\<close>, and those of \<open>SS_Handoff\<close> of every call.
  That a delta rebuilds the card asks that no changed block keeps its 32-bit fingerprint, and in \<open>SS_Tables\<close> that no two of the images
  ever agreed have one digest.

  \<^bold>\<open>Not modelled.\<close> What is printed, \<open>video_init\<close> beyond the GamePad, cache maintenance, the kernel's per-datagram trace (compiled
  out) and the shutdown of IOS before the stub is entered change nothing the programs decide on. Guards against NULL pointers
  have no counterpart, a buffer being a list. A card that is written during a transfer is modelled as changing between the scan
  and the transfer only. The C library's \<open>atoi\<close>, \<open>strtoull\<close>, \<open>fgets\<close> and \<open>sscanf\<close> are written out for the formats used. The server,
  the Dolphin side, the tests and the patches that hook the module into Nintendont are outside; so is the GameCube's side of
  a card.
\<close>

end
